(* ===== verification/Prelude.thy ===== *)
theory Prelude
  imports Main "HOL-Library.Word"
begin

text \<open>
  Shared vocabulary of the development: the error codes of
  \<^verbatim>\<open>include/neosurf/utils/errors.h\<close>, NUL-terminated strings, the allocator that the
  library calls go through, and the fact collections the component theories extend.

  \<^item> A C string is a \<open>string\<close> without its terminator; a \<^verbatim>\<open>char *\<close> that walks over it is
    the suffix it points at, and \<open>peek\<close> reads the byte there (NUL at the end).
  \<^item> Every \<^verbatim>\<open>malloc\<close> and every \<^verbatim>\<open>lwc_intern_string\<close> may fail. The outcomes are an oracle
    in the state \<open>mem\<close>, so the out-of-memory branches of the code are branches of the
    model; the two counters record how many heap blocks and string references are held.
\<close>

section \<open>Error codes\<close>

datatype nserror =
    NSERROR_OK
  | NSERROR_UNKNOWN
  | NSERROR_NOMEM
  | NSERROR_NO_FETCH_HANDLER
  | NSERROR_NOT_FOUND
  | NSERROR_NOT_DIRECTORY
  | NSERROR_SAVE_FAILED
  | NSERROR_CLONE_FAILED
  | NSERROR_INIT_FAILED
  | NSERROR_BMP_ERROR
  | NSERROR_GIF_ERROR
  | NSERROR_ICO_ERROR
  | NSERROR_PNG_ERROR
  | NSERROR_SPRITE_ERROR
  | NSERROR_SVG_ERROR
  | NSERROR_BAD_ENCODING
  | NSERROR_NEED_DATA
  | NSERROR_ENCODING_CHANGE
  | NSERROR_BAD_PARAMETER
  | NSERROR_INVALID
  | NSERROR_BOX_CONVERT
  | NSERROR_STOPPED
  | NSERROR_DOM
  | NSERROR_CSS
  | NSERROR_CSS_BASE
  | NSERROR_BAD_URL
  | NSERROR_BAD_CONTENT
  | NSERROR_FRAME_DEPTH
  | NSERROR_PERMISSION
  | NSERROR_NOSPACE
  | NSERROR_BAD_SIZE
  | NSERROR_NOT_IMPLEMENTED
  | NSERROR_BAD_REDIRECT
  | NSERROR_BAD_AUTH
  | NSERROR_BAD_CERTS
  | NSERROR_TIMEOUT

text \<open>A function that returns \<^verbatim>\<open>nserror\<close> and fills an out parameter on \<open>NSERROR_OK\<close>.\<close>

type_synonym 'a result = "nserror + 'a"

section \<open>Characters and NUL-terminated strings\<close>

abbreviation ord_char :: "char \<Rightarrow> nat" where
  "ord_char c \<equiv> of_char c"

abbreviation NUL :: char where
  "NUL \<equiv> CHR 0x00"

definition peek :: "string \<Rightarrow> char" where
  "peek s = (case s of [] \<Rightarrow> NUL | c # _ \<Rightarrow> c)"

lemma peek_simps [simp]: "peek [] = NUL" "peek (c # s) = c"
  by (simp_all add: peek_def)

definition cstring :: "string \<Rightarrow> bool" where
  "cstring s \<longleftrightarrow> NUL \<notin> set s"

lemma cstring_simps [simp]:
  "cstring []" "cstring (c # s) \<longleftrightarrow> c \<noteq> NUL \<and> cstring s"
  "cstring (s @ t) \<longleftrightarrow> cstring s \<and> cstring t"
  by (auto simp: cstring_def)

lemma peek_not_NUL: "peek s \<noteq> NUL \<Longrightarrow> \<exists>c t. s = c # t \<and> peek s = c"
  by (cases s) auto

lemma peek_eq_char: "c \<noteq> NUL \<Longrightarrow> peek s = c \<longleftrightarrow> (\<exists>t. s = c # t)"
  by (cases s) auto

section \<open>The allocator\<close>

record mem =
  mem_oracle :: "bool list"
  mem_blocks :: int
  mem_refs :: int

text \<open>
  The next outcome of the oracle: an exhausted oracle stands for an allocator that
  succeeds from then on.
\<close>

definition mem_next :: "mem \<Rightarrow> bool \<times> mem" where
  "mem_next m = (case mem_oracle m of [] \<Rightarrow> (True, m) | b # bs \<Rightarrow> (b, m\<lparr>mem_oracle := bs\<rparr>))"

definition malloc :: "mem \<Rightarrow> bool \<times> mem" where
  "malloc m = (case mem_next m of (ok, m') \<Rightarrow>
     (ok, if ok then m'\<lparr>mem_blocks := mem_blocks m' + 1\<rparr> else m'))"

definition strdup :: "string \<Rightarrow> mem \<Rightarrow> string option \<times> mem" where
  "strdup s m = (case malloc m of (ok, m1) \<Rightarrow> (if ok then Some s else None, m1))"

definition free_block :: "mem \<Rightarrow> mem" where
  "free_block m = m\<lparr>mem_blocks := mem_blocks m - 1\<rparr>"

text \<open>
  \<^verbatim>\<open>lwc_intern_string\<close>, \<^verbatim>\<open>lwc_string_ref\<close> and \<^verbatim>\<open>lwc_string_unref\<close>: an interned string is its
  contents, of which the callers hold counted references.
\<close>

definition lwc_intern_string :: "string \<Rightarrow> mem \<Rightarrow> string option \<times> mem" where
  "lwc_intern_string s m = (case mem_next m of (ok, m') \<Rightarrow>
     (if ok then (Some s, m'\<lparr>mem_refs := mem_refs m' + 1\<rparr>) else (None, m')))"

definition lwc_string_ref :: "mem \<Rightarrow> mem" where
  "lwc_string_ref m = m\<lparr>mem_refs := mem_refs m + 1\<rparr>"

definition lwc_string_unref :: "mem \<Rightarrow> mem" where
  "lwc_string_unref m = m\<lparr>mem_refs := mem_refs m - 1\<rparr>"

text \<open>A counted reference to a URL object that is held elsewhere.\<close>

definition url_handle_ref :: "mem \<Rightarrow> mem" where
  "url_handle_ref m = m\<lparr>mem_refs := mem_refs m + 1\<rparr>"

definition url_handle_unref :: "mem \<Rightarrow> mem" where
  "url_handle_unref m = m\<lparr>mem_refs := mem_refs m - 1\<rparr>"

text \<open>
  What is held: heap blocks and string references. Footprints add up, so the books of an
  operation are an equation in a commutative group.
\<close>

datatype footprint = Foot (foot_blocks: int) (foot_refs: int)

instantiation footprint :: ab_group_add
begin

definition zero_footprint :: footprint where
  "zero_footprint = Foot 0 0"

definition plus_footprint :: "footprint \<Rightarrow> footprint \<Rightarrow> footprint" where
  "plus_footprint f g = Foot (foot_blocks f + foot_blocks g) (foot_refs f + foot_refs g)"

definition minus_footprint :: "footprint \<Rightarrow> footprint \<Rightarrow> footprint" where
  "minus_footprint f g = Foot (foot_blocks f - foot_blocks g) (foot_refs f - foot_refs g)"

definition uminus_footprint :: "footprint \<Rightarrow> footprint" where
  "uminus_footprint f = Foot (- foot_blocks f) (- foot_refs f)"

instance
  by standard (auto simp: zero_footprint_def plus_footprint_def minus_footprint_def
      uminus_footprint_def footprint.expand)

end

definition a_block :: footprint where
  "a_block = Foot 1 0"

definition a_ref :: footprint where
  "a_ref = Foot 0 1"

lemmas footprint_defs = zero_footprint_def plus_footprint_def minus_footprint_def
  uminus_footprint_def a_block_def a_ref_def

lemma footprint_eq_iff:
  "f = g \<longleftrightarrow> foot_blocks f = foot_blocks g \<and> foot_refs f = foot_refs g"
  by (auto intro: footprint.expand)

lemma foot_sel_simps [simp]:
  "foot_blocks (f + g) = foot_blocks f + foot_blocks g"
  "foot_refs (f + g) = foot_refs f + foot_refs g"
  "foot_blocks (f - g) = foot_blocks f - foot_blocks g"
  "foot_refs (f - g) = foot_refs f - foot_refs g"
  "foot_blocks 0 = 0" "foot_refs 0 = 0"
  by (simp_all add: footprint_defs)

definition foot_times :: "nat \<Rightarrow> footprint \<Rightarrow> footprint" where
  "foot_times n f = sum_list (replicate n f)"

lemma foot_times_simps [simp]:
  "foot_times 0 f = 0" "foot_times (Suc n) f = f + foot_times n f"
  by (simp_all add: foot_times_def)

lemma foot_times_add: "foot_times (a + b) f = foot_times a f + foot_times b f"
  by (simp add: foot_times_def replicate_add)

definition held :: "mem \<Rightarrow> footprint" where
  "held m = Foot (mem_blocks m) (mem_refs m)"

text \<open>An allocator that never fails from here on.\<close>

definition plenty :: "mem \<Rightarrow> bool" where
  "plenty m \<longleftrightarrow> (\<forall>b \<in> set (mem_oracle m). b)"

definition fresh_mem :: "bool list \<Rightarrow> mem" where
  "fresh_mem bs = \<lparr>mem_oracle = bs, mem_blocks = 0, mem_refs = 0\<rparr>"

named_theorems mem_facts \<open>how the allocator's operations change what is held\<close>

lemma mem_next_held [mem_facts]: "mem_next m = (ok, m') \<Longrightarrow> held m' = held m"
  by (auto simp: mem_next_def held_def split: list.splits)

lemma mem_next_plenty: "mem_next m = (ok, m') \<Longrightarrow> plenty m \<Longrightarrow> ok \<and> plenty m'"
  by (auto simp: mem_next_def plenty_def split: list.splits)

lemma held_simps [simp]:
  "held (free_block m) = held m - a_block"
  "held (lwc_string_ref m) = held m + a_ref"
  "held (lwc_string_unref m) = held m - a_ref"
  by (simp_all add: held_def free_block_def lwc_string_ref_def lwc_string_unref_def footprint_defs)

lemma handle_held [simp]:
  "held (url_handle_ref m) = held m + a_ref" "held (url_handle_unref m) = held m - a_ref"
  by (simp_all add: held_def url_handle_ref_def url_handle_unref_def footprint_defs)

lemma malloc_held [mem_facts]:
  "malloc m = (ok, m') \<Longrightarrow> held m' = held m + (if ok then a_block else 0)"
  by (auto simp: malloc_def held_def mem_next_def footprint_defs split: list.splits prod.splits if_splits)

lemma lwc_intern_string_held [mem_facts]:
  "lwc_intern_string s m = (r, m') \<Longrightarrow> held m' = held m + (if r = None then 0 else a_ref)"
  by (auto simp: lwc_intern_string_def held_def mem_next_def footprint_defs
      split: list.splits prod.splits if_splits)

lemma lwc_intern_string_Some: "lwc_intern_string s m = (Some t, m') \<Longrightarrow> t = s"
  by (auto simp: lwc_intern_string_def split: prod.splits if_splits)

lemma plenty_simps [simp]:
  "plenty (free_block m) = plenty m"
  "plenty (lwc_string_ref m) = plenty m"
  "plenty (lwc_string_unref m) = plenty m"
  by (simp_all add: plenty_def free_block_def lwc_string_ref_def lwc_string_unref_def)

lemma handle_plenty [simp]: "plenty (url_handle_ref m) = plenty m" "plenty (url_handle_unref m) = plenty m"
  by (simp_all add: plenty_def url_handle_ref_def url_handle_unref_def)

lemma malloc_plenty: "malloc m = (ok, m') \<Longrightarrow> plenty m \<Longrightarrow> ok \<and> plenty m'"
  by (auto simp: malloc_def mem_next_def plenty_def split: list.splits prod.splits if_splits)

lemma lwc_intern_string_plenty:
  "lwc_intern_string s m = (r, m') \<Longrightarrow> plenty m \<Longrightarrow> r = Some s \<and> plenty m'"
  by (auto simp: lwc_intern_string_def mem_next_def plenty_def split: list.splits prod.splits if_splits)

text \<open>An allocation that cannot fail.\<close>

lemma malloc_ok:
  assumes "plenty m"
  obtains m' where "malloc m = (True, m')" and "plenty m'"
  using malloc_plenty [of m] assms by (cases "malloc m") auto

lemma intern_ok:
  assumes "plenty m"
  obtains m' where "lwc_intern_string s m = (Some s, m')" and "plenty m'"
  using lwc_intern_string_plenty [of s m] assms by (cases "lwc_intern_string s m") auto

text \<open>A copy of a string.\<close>

lemma strdup_held:
  assumes "strdup s m = (r, m')"
  shows "held m' = held m + (if r = None then 0 else a_block) \<and> (r = None \<or> r = Some s) \<and>
    (plenty m \<longrightarrow> r = Some s \<and> plenty m')"
proof -
  obtain ok m1 where m: "malloc m = (ok, m1)"
    by (cases "malloc m")
  show ?thesis
    using assms malloc_held [OF m] malloc_plenty [OF m] by (cases ok) (auto simp: strdup_def m)
qed

lemma strdup_ok:
  assumes "plenty m"
  obtains m' where "strdup s m = (Some s, m')" and "plenty m'"
  using strdup_held [of s m] assms by (cases "strdup s m") auto

section \<open>Words\<close>

lemma unat_less_exp: "unat (w :: 'a::len word) < 2 ^ LENGTH('a)"
  by (rule unsigned_less)

section \<open>Lists\<close>

text \<open>A sequence of operations, each of which may fail.\<close>

fun foldM :: "('s \<Rightarrow> 'x \<Rightarrow> 's option) \<Rightarrow> 's \<Rightarrow> 'x list \<Rightarrow> 's option" where
  "foldM f s [] = Some s"
| "foldM f s (x # xs) = (case f s x of None \<Rightarrow> None | Some s' \<Rightarrow> foldM f s' xs)"

lemma foldM_append:
  "foldM f s (xs @ ys) = (case foldM f s xs of None \<Rightarrow> None | Some s' \<Rightarrow> foldM f s' ys)"
  by (induction xs arbitrary: s) (auto split: option.splits)

lemma takeWhile_append_stop:
  "(\<forall>x \<in> set xs. P x) \<Longrightarrow> (ys = [] \<or> \<not> P (hd ys)) \<Longrightarrow> takeWhile P (xs @ ys) = xs"
  by (induction xs) (auto simp: neq_Nil_conv takeWhile_eq_Nil_iff)

lemma dropWhile_append_stop:
  "(\<forall>x \<in> set xs. P x) \<Longrightarrow> (ys = [] \<or> \<not> P (hd ys)) \<Longrightarrow> dropWhile P (xs @ ys) = ys"
  by (induction xs) (auto simp: neq_Nil_conv dropWhile_eq_self_iff)

lemma sorted_wrt_concat:
  "sorted_wrt R (concat xss) \<longleftrightarrow>
     (\<forall>xs \<in> set xss. sorted_wrt R xs) \<and> sorted_wrt (\<lambda>xs ys. \<forall>x \<in> set xs. \<forall>y \<in> set ys. R x y) xss"
  by (induction xss) (auto simp: sorted_wrt_append)

lemma length_dropWhile_le_self: "length (dropWhile P xs) \<le> length xs"
  by (rule length_dropWhile_le)

end
