(* ===== verification/Ascii.thy ===== *)
theory Ascii
  imports Prelude
begin

text \<open>
  \<^verbatim>\<open>include/neosurf/utils/ascii.h\<close>: the locale-independent character helpers every parser of
  the program is written with. A C \<^verbatim>\<open>char\<close> is a \<open>char\<close>; the comparisons are on its code.
\<close>

section \<open>Character classes\<close>

definition ascii_is_space :: "char \<Rightarrow> bool" where
  "ascii_is_space c \<longleftrightarrow> c = CHR 0x20 \<or> c = CHR 0x09 \<or> c = CHR 0x0A \<or>
     c = CHR 0x0B \<or> c = CHR 0x0C \<or> c = CHR 0x0D"

definition ascii_is_alpha_lower :: "char \<Rightarrow> bool" where
  "ascii_is_alpha_lower c \<longleftrightarrow> ord_char CHR ''a'' \<le> ord_char c \<and> ord_char c \<le> ord_char CHR ''z''"

definition ascii_is_alpha_upper :: "char \<Rightarrow> bool" where
  "ascii_is_alpha_upper c \<longleftrightarrow> ord_char CHR ''A'' \<le> ord_char c \<and> ord_char c \<le> ord_char CHR ''Z''"

definition ascii_is_alpha :: "char \<Rightarrow> bool" where
  "ascii_is_alpha c \<longleftrightarrow> ascii_is_alpha_lower c \<or> ascii_is_alpha_upper c"

definition ascii_is_digit :: "char \<Rightarrow> bool" where
  "ascii_is_digit c \<longleftrightarrow> ord_char CHR ''0'' \<le> ord_char c \<and> ord_char c \<le> ord_char CHR ''9''"

definition ascii_is_sign :: "char \<Rightarrow> bool" where
  "ascii_is_sign c \<longleftrightarrow> c = CHR ''-'' \<or> c = CHR ''+''"

definition ascii_is_alphanumerical :: "char \<Rightarrow> bool" where
  "ascii_is_alphanumerical c \<longleftrightarrow> ascii_is_alpha c \<or> ascii_is_digit c"

definition ascii_is_af_lower :: "char \<Rightarrow> bool" where
  "ascii_is_af_lower c \<longleftrightarrow> ord_char CHR ''a'' \<le> ord_char c \<and> ord_char c \<le> ord_char CHR ''f''"

definition ascii_is_hex_lower :: "char \<Rightarrow> bool" where
  "ascii_is_hex_lower c \<longleftrightarrow> ascii_is_digit c \<or> ascii_is_af_lower c"

definition ascii_is_af_upper :: "char \<Rightarrow> bool" where
  "ascii_is_af_upper c \<longleftrightarrow> ord_char CHR ''A'' \<le> ord_char c \<and> ord_char c \<le> ord_char CHR ''F''"

definition ascii_is_hex_upper :: "char \<Rightarrow> bool" where
  "ascii_is_hex_upper c \<longleftrightarrow> ascii_is_digit c \<or> ascii_is_af_upper c"

definition ascii_is_hex :: "char \<Rightarrow> bool" where
  "ascii_is_hex c \<longleftrightarrow> ascii_is_digit c \<or> ascii_is_af_upper c \<or> ascii_is_af_lower c"

lemmas ascii_class_defs =
  ascii_is_space_def ascii_is_alpha_lower_def ascii_is_alpha_upper_def ascii_is_alpha_def
  ascii_is_digit_def ascii_is_sign_def ascii_is_alphanumerical_def ascii_is_af_lower_def
  ascii_is_hex_lower_def ascii_is_af_upper_def ascii_is_hex_upper_def ascii_is_hex_def

section \<open>Conversions\<close>

definition ascii_hex_to_value :: "char \<Rightarrow> int" where
  "ascii_hex_to_value c =
     (if ascii_is_digit c then int (ord_char c) - int (ord_char CHR ''0'')
      else if ascii_is_af_lower c then int (ord_char c) - int (ord_char CHR ''a'') + 10
      else if ascii_is_af_upper c then int (ord_char c) - int (ord_char CHR ''A'') + 10
      else - 256)"

definition ascii_hex_to_value_2_chars :: "char \<Rightarrow> char \<Rightarrow> int" where
  "ascii_hex_to_value_2_chars c1 c2 = 16 * ascii_hex_to_value c1 + ascii_hex_to_value c2"

definition ascii_to_lower :: "char \<Rightarrow> char" where
  "ascii_to_lower c =
     (if ascii_is_alpha_upper c
      then char_of (ord_char c + ord_char CHR ''a'' - ord_char CHR ''A'') else c)"

definition ascii_to_upper :: "char \<Rightarrow> char" where
  "ascii_to_upper c =
     (if ascii_is_alpha_lower c
      then char_of (ord_char c + ord_char CHR ''A'' - ord_char CHR ''a'') else c)"

section \<open>Prefix counts and comparisons\<close>

fun ascii_count_alpha :: "string \<Rightarrow> nat" where
  "ascii_count_alpha [] = 0"
| "ascii_count_alpha (c # str) = (if ascii_is_alpha c then Suc (ascii_count_alpha str) else 0)"

fun ascii_count_digit :: "string \<Rightarrow> nat" where
  "ascii_count_digit [] = 0"
| "ascii_count_digit (c # str) = (if ascii_is_digit c then Suc (ascii_count_digit str) else 0)"

fun ascii_count_digit_or_colon :: "string \<Rightarrow> nat" where
  "ascii_count_digit_or_colon [] = 0"
| "ascii_count_digit_or_colon (c # str) =
     (if ascii_is_digit c \<or> c = CHR '':'' then Suc (ascii_count_digit_or_colon str) else 0)"

fun ascii_strings_equal_caseless :: "string \<Rightarrow> string \<Rightarrow> bool" where
  "ascii_strings_equal_caseless [] s2 = (ascii_to_lower NUL = ascii_to_lower (peek s2))"
| "ascii_strings_equal_caseless (c # s1) s2 =
     (if ascii_to_lower c \<noteq> ascii_to_lower (peek s2) then False
      else ascii_strings_equal_caseless s1 (tl s2))"

fun ascii_strings_equal :: "string \<Rightarrow> string \<Rightarrow> bool" where
  "ascii_strings_equal [] s2 = (peek s2 = NUL)"
| "ascii_strings_equal (c # s1) s2 =
     (if c \<noteq> peek s2 then False else ascii_strings_equal s1 (tl s2))"

fun ascii_strings_count_equal_caseless :: "string \<Rightarrow> string \<Rightarrow> nat" where
  "ascii_strings_count_equal_caseless [] s2 = 0"
| "ascii_strings_count_equal_caseless (c # s1) s2 =
     (if ascii_to_lower c \<noteq> ascii_to_lower (peek s2) then 0
      else Suc (ascii_strings_count_equal_caseless s1 (tl s2)))"

fun ascii_strings_count_equal :: "string \<Rightarrow> string \<Rightarrow> nat" where
  "ascii_strings_count_equal [] s2 = 0"
| "ascii_strings_count_equal (c # s1) s2 =
     (if c \<noteq> peek s2 then 0 else Suc (ascii_strings_count_equal s1 (tl s2)))"

section \<open>Facts\<close>

lemma ascii_to_lower_NUL [simp]: "ascii_to_lower NUL = NUL"
  by (simp add: ascii_to_lower_def ascii_is_alpha_upper_def)

lemma ord_char_to_lower:
  "ord_char (ascii_to_lower c) = (if ascii_is_alpha_upper c then ord_char c + 32 else ord_char c)"
  by (auto simp: ascii_to_lower_def ascii_is_alpha_upper_def)

lemma ascii_to_lower_eq_NUL [simp]: "ascii_to_lower c = NUL \<longleftrightarrow> c = NUL"
proof -
  have eq: "x = NUL \<longleftrightarrow> ord_char x = 0" for x
    using of_char_eq_iff [where 'a = nat, of x NUL] by simp
  show ?thesis
    unfolding eq by (simp add: ord_char_to_lower ascii_is_alpha_upper_def)
qed

lemma ascii_to_lower_eq_NUL' [simp]: "NUL = ascii_to_lower c \<longleftrightarrow> c = NUL"
  by (metis ascii_to_lower_eq_NUL)

lemma ascii_to_lower_not_upper: "\<not> ascii_is_alpha_upper (ascii_to_lower c)"
  using ord_char_to_lower [of c] by (auto simp: ascii_is_alpha_upper_def)

lemma ascii_to_lower_idem [simp]: "ascii_to_lower (ascii_to_lower c) = ascii_to_lower c"
  using ascii_to_lower_not_upper [of c] by (simp add: ascii_to_lower_def [of "ascii_to_lower c"])

lemma ascii_strings_equal_iff:
  "cstring s1 \<Longrightarrow> cstring s2 \<Longrightarrow> ascii_strings_equal s1 s2 \<longleftrightarrow> s1 = s2"
proof (induction s1 arbitrary: s2)
  case Nil
  then show ?case by (cases s2) auto
next
  case (Cons c s1)
  then show ?case by (cases s2) auto
qed

lemma ascii_strings_equal_caseless_iff:
  "cstring s1 \<Longrightarrow> cstring s2 \<Longrightarrow>
     ascii_strings_equal_caseless s1 s2 \<longleftrightarrow> map ascii_to_lower s1 = map ascii_to_lower s2"
proof (induction s1 arbitrary: s2)
  case Nil
  then show ?case by (cases s2) auto
next
  case (Cons c s1)
  then show ?case by (cases s2) auto
qed

end
