(* ===== verification/Punycode.thy ===== *)
theory Punycode
  imports Prelude
begin

text \<open>
  \<^verbatim>\<open>src/utils/punycode.c\<close>: the coding of Unicode text by the letters, digits and hyphens of host names
  (RFC 3492). A \<^verbatim>\<open>punycode_uint\<close> is a natural number below \<open>2 ^ 32\<close>; the operations that can wrap around
  are written \<open>add32\<close> and \<open>sub32\<close>. The output buffer holds \<open>max_out\<close> characters.
\<close>

section \<open>Digits\<close>

datatype punycode_status = punycode_success | punycode_bad_input | punycode_big_output | punycode_overflow

definition bootstring_base :: nat where "bootstring_base = 36"
definition tmin :: nat where "tmin = 1"
definition tmax :: nat where "tmax = 26"
definition skew :: nat where "skew = 38"
definition damp :: nat where "damp = 700"
definition initial_bias :: nat where "initial_bias = 72"
definition initial_n :: nat where "initial_n = 128"

definition maxint :: nat where
  "maxint = 2 ^ 32 - 1"

definition add32 :: "nat \<Rightarrow> nat \<Rightarrow> nat" where
  "add32 a b = (a + b) mod 2 ^ 32"

definition sub32 :: "nat \<Rightarrow> nat \<Rightarrow> nat" where
  "sub32 a b = (a + 2 ^ 32 - b) mod 2 ^ 32"

text \<open>A \<^verbatim>\<open>char\<close> is signed: bytes from 128 become large numbers.\<close>

definition char_uint :: "char \<Rightarrow> nat" where
  "char_uint c = (if of_char c < (128 :: nat) then of_char c else of_char c + 2 ^ 32 - 256)"

definition basic :: "nat \<Rightarrow> bool" where
  "basic cp \<longleftrightarrow> cp < 128"

definition decode_digit :: "nat \<Rightarrow> nat" where
  "decode_digit cp =
     (if sub32 cp 48 < 10 then sub32 cp 22 else if sub32 cp 65 < 26 then sub32 cp 65
      else if sub32 cp 97 < 26 then sub32 cp 97 else bootstring_base)"

definition encode_digit :: "nat \<Rightarrow> bool \<Rightarrow> char" where
  "encode_digit d flag = char_of (d + 22 + (if d < 26 then 75 else 0) - (if flag then 32 else 0))"

definition flagged :: "nat \<Rightarrow> bool" where
  "flagged bcp \<longleftrightarrow> sub32 bcp 65 < 26"

definition encode_basic :: "nat \<Rightarrow> bool \<Rightarrow> char" where
  "encode_basic bcp flag =
     (let bcp = (if sub32 bcp 97 < 26 then bcp - 32 else bcp)
      in char_of (if \<not> flag \<and> sub32 bcp 65 < 26 then bcp + 32 else bcp))"

section \<open>Bias\<close>

function adapt_loop :: "nat \<Rightarrow> nat \<Rightarrow> nat \<times> nat" where
  "adapt_loop delta k =
     (if delta > ((bootstring_base - tmin) * tmax) div 2 then adapt_loop (delta div (bootstring_base - tmin)) (k + bootstring_base) else (delta, k))"
  by pat_completeness auto
termination
  by (relation "measure fst") (simp_all add: bootstring_base_def tmin_def tmax_def)

declare adapt_loop.simps [simp del]

definition adapt :: "nat \<Rightarrow> nat \<Rightarrow> bool \<Rightarrow> nat" where
  "adapt delta numpoints firsttime =
     (let delta = (if firsttime then delta div damp else delta div 2)
      in case adapt_loop (delta + delta div numpoints) 0 of (delta, k) \<Rightarrow> k + (bootstring_base - tmin + 1) * delta div (delta + skew))"

definition threshold :: "nat \<Rightarrow> nat \<Rightarrow> nat" where
  "threshold k bias = (if k \<le> bias then tmin else if bias + tmax \<le> k then tmax else k - bias)"

lemma threshold_bounds: "1 \<le> threshold k bias" "threshold k bias \<le> 26"
  by (auto simp: threshold_def tmin_def tmax_def)

section \<open>Encoding\<close>

fun basic_points :: "nat list \<Rightarrow> bool list option \<Rightarrow> nat \<Rightarrow> string \<Rightarrow> punycode_status + string" where
  "basic_points [] flags max_out out = Inr out"
| "basic_points (c # cs) flags max_out out =
     (if basic c then
        (if max_out - length out < 2 then Inl punycode_big_output
         else basic_points cs (map_option tl flags) max_out
                (out @ [case flags of None \<Rightarrow> char_of c | Some fs \<Rightarrow> encode_basic c (hd fs)]))
      else basic_points cs (map_option tl flags) max_out out)"

definition next_point :: "nat \<Rightarrow> nat list \<Rightarrow> nat" where
  "next_point n input = fold (\<lambda>c m. if n \<le> c \<and> c < m then c else m) input maxint"

text \<open>\<open>delta\<close> as a variable-length integer.\<close>

function encode_delta :: "nat \<Rightarrow> nat \<Rightarrow> nat \<Rightarrow> nat \<Rightarrow> bool \<Rightarrow> string \<Rightarrow> punycode_status + string" where
  "encode_delta q k bias max_out flag out =
     (if max_out \<le> length out then Inl punycode_big_output
      else (let t = threshold k bias in
        if q < t then Inr (out @ [encode_digit q flag])
        else encode_delta ((q - t) div (bootstring_base - t)) (k + bootstring_base) bias max_out flag
               (out @ [encode_digit (t + (q - t) mod (bootstring_base - t)) False])))"
  by pat_completeness auto
termination
proof (relation "measure fst", simp, unfold in_measure fst_conv)
  fix q k bias max_out :: nat and out :: string and t
  assume "t = threshold k bias" "\<not> q < t"
  then show "(q - t) div (bootstring_base - t) < q"
    using threshold_bounds [of k bias] div_le_dividend [of "q - t" "bootstring_base - t"] by linarith
qed

declare encode_delta.simps [simp del]

text \<open>A pass over the input for the code point \<open>n\<close>; the state is \<open>(delta, bias, h, out)\<close>.\<close>

type_synonym encoder = "nat \<times> nat \<times> nat \<times> string"

fun encode_pass :: "nat \<Rightarrow> nat \<Rightarrow> nat \<Rightarrow> nat list \<Rightarrow> bool list option \<Rightarrow> encoder \<Rightarrow> punycode_status + encoder" where
  "encode_pass n b max_out [] flags s = Inr s"
| "encode_pass n b max_out (c # cs) flags (delta, bias, h, out) =
     (let delta = (if c < n then add32 delta 1 else delta) in
      if c < n \<and> delta = 0 then Inl punycode_overflow
      else if c = n then
        (case encode_delta delta bootstring_base bias max_out (case flags of None \<Rightarrow> False | Some fs \<Rightarrow> hd fs) out of
           Inl e \<Rightarrow> Inl e
         | Inr out \<Rightarrow> encode_pass n b max_out cs (map_option tl flags) (0, adapt delta (h + 1) (h = b), h + 1, out))
      else encode_pass n b max_out cs (map_option tl flags) (delta, bias, h, out))"

partial_function (option) encode_loop ::
  "nat list \<Rightarrow> bool list option \<Rightarrow> nat \<Rightarrow> nat \<Rightarrow> nat \<Rightarrow> encoder \<Rightarrow> (punycode_status + string) option" where
  "encode_loop input flags max_out b n s =
     (case s of (delta, bias, h, out) \<Rightarrow>
        if h < length input then
          (let m = next_point n input in
           if m - n > (maxint - delta) div (h + 1) then Some (Inl punycode_overflow)
           else (case encode_pass m b max_out input flags (delta + (m - n) * (h + 1), bias, h, out) of
               Inl e \<Rightarrow> Some (Inl e)
             | Inr (delta, bias, h, out) \<Rightarrow> encode_loop input flags max_out b (add32 m 1) (add32 delta 1, bias, h, out)))
        else Some (Inr out))"

definition punycode_encode :: "nat list \<Rightarrow> bool list option \<Rightarrow> nat \<Rightarrow> (punycode_status + string) option" where
  "punycode_encode input flags max_out =
     (if length input > maxint then Some (Inl punycode_overflow)
      else (case basic_points input flags max_out [] of
          Inl e \<Rightarrow> Some (Inl e)
        | Inr out \<Rightarrow>
            (let b = length out in
             encode_loop input flags max_out b initial_n
               (0, initial_bias, b, if b > 0 then out @ ''-'' else out))))"

section \<open>Decoding\<close>

text \<open>The place of the last delimiter.\<close>

fun last_delimiter :: "string \<Rightarrow> nat \<Rightarrow> nat \<Rightarrow> nat" where
  "last_delimiter [] j b = b"
| "last_delimiter (c # cs) j b = last_delimiter cs (j + 1) (if c = CHR ''-'' then j else b)"

fun decode_delta :: "string \<Rightarrow> nat \<Rightarrow> nat \<Rightarrow> nat \<Rightarrow> nat \<Rightarrow> punycode_status + nat \<times> string \<times> char" where
  "decode_delta [] i w k bias = Inl punycode_bad_input"
| "decode_delta (c # cs) i w k bias =
     (let digit = decode_digit (char_uint c); t = threshold k bias in
      if bootstring_base \<le> digit then Inl punycode_bad_input
      else if digit > (maxint - i) div w then Inl punycode_overflow
      else if digit < t then Inr (i + digit * w, cs, c)
      else if w > maxint div (bootstring_base - t) then Inl punycode_overflow
      else decode_delta cs (i + digit * w) (w * (bootstring_base - t)) (k + bootstring_base) bias)"

lemma decode_delta_shorter: "decode_delta cs i w k bias = Inr (i', rest, c) \<Longrightarrow> length rest < length cs"
  by (induction cs i w k bias rule: decode_delta.induct) (fastforce simp: Let_def split: if_splits)+

definition insert_at :: "nat \<Rightarrow> 'a \<Rightarrow> 'a list \<Rightarrow> 'a list" where
  "insert_at p x xs = take p xs @ x # drop p xs"

text \<open>The main loop: the text that is left, \<open>n\<close>, \<open>i\<close> and the bias; the case flags are kept when the caller wants them.\<close>

function decode_deltas ::
  "string \<Rightarrow> nat \<Rightarrow> nat \<Rightarrow> nat \<Rightarrow> nat \<Rightarrow> nat list \<Rightarrow> bool list option \<Rightarrow> punycode_status + nat list \<times> bool list option" where
  "decode_deltas rest n i bias max_out output flags =
     (if rest = [] then Inr (output, flags)
      else (case decode_delta rest i 1 bootstring_base bias of
          Inl e \<Rightarrow> Inl e
        | Inr (i', rest', c) \<Rightarrow>
            (let len = length output + 1 in
             if i' div len > maxint - n then Inl punycode_overflow
             else if max_out \<le> length output then Inl punycode_big_output
             else decode_deltas rest' (n + i' div len) (i' mod len + 1) (adapt (i' - i) len (i = 0)) max_out
               (insert_at (i' mod len) (n + i' div len) output)
               (map_option (insert_at (i' mod len) (flagged (char_uint c))) flags))))"
  by pat_completeness auto
termination
  by (relation "measure (\<lambda>(rest, _). length rest)") (auto dest: decode_delta_shorter)

declare decode_deltas.simps [simp del]

definition punycode_decode :: "string \<Rightarrow> nat \<Rightarrow> bool \<Rightarrow> punycode_status + nat list \<times> bool list option" where
  "punycode_decode input output_length case_flags =
     (let max_out = min output_length maxint;
          b = last_delimiter input 0 0;
          points = map char_uint (take b input) in
      if b > max_out then Inl punycode_big_output
      else if \<not> list_all basic points then Inl punycode_bad_input
      else decode_deltas (drop (if b > 0 then b + 1 else 0) input) initial_n 0 initial_bias max_out points
             (if case_flags then Some (map flagged points) else None))"

section \<open>Digits are read back\<close>

lemma sub32_le: "b \<le> a \<Longrightarrow> a < 2 ^ 32 \<Longrightarrow> sub32 a b = a - b"
proof -
  assume "b \<le> a" "a < 2 ^ 32"
  then have "sub32 a b = (a - b + 2 ^ 32) mod 2 ^ 32"
    by (simp add: sub32_def)
  then show ?thesis
    using \<open>a < 2 ^ 32\<close> by simp
qed

lemma sub32_wraps: "a < b \<Longrightarrow> b \<le> 2 ^ 32 \<Longrightarrow> sub32 a b = a + 2 ^ 32 - b"
  by (simp add: sub32_def)

lemma digit_cases: "d < 36 \<Longrightarrow> decode_digit (char_uint (encode_digit d False)) = d \<and> encode_digit d False \<noteq> CHR ''-'' \<and> encode_digit d False \<noteq> NUL"
proof (cases "d < 26")
  case True
  define e where "e = d + 97"
  have "char_uint (encode_digit d False) = e" "(of_char (encode_digit d False) :: nat) = e"
    using True by (simp_all add: encode_digit_def char_uint_def e_def)
  moreover have "sub32 e 48 = d + 49" "sub32 e 65 = d + 32" "sub32 e 97 = d"
    using True by (simp_all add: sub32_le e_def)
  moreover have "e \<noteq> (of_char CHR ''-'' :: nat)" "e \<noteq> (of_char NUL :: nat)"
    by (simp_all add: e_def)
  ultimately show ?thesis
    using True by (auto simp: decode_digit_def)
next
  case False
  assume "d < 36"
  define e where "e = d + 22"
  have "char_uint (encode_digit d False) = e" "(of_char (encode_digit d False) :: nat) = e"
    using False \<open>d < 36\<close> by (simp_all add: encode_digit_def char_uint_def e_def)
  moreover have "sub32 e 48 = d - 26" "sub32 e 22 = d"
    using False \<open>d < 36\<close> by (simp_all add: sub32_le e_def)
  moreover have "e \<noteq> (of_char CHR ''-'' :: nat)" "e \<noteq> (of_char NUL :: nat)"
    using False by (simp_all add: e_def)
  ultimately show ?thesis
    using False \<open>d < 36\<close> by (auto simp: decode_digit_def)
qed

text \<open>Digits are neither delimiters nor NUL.\<close>

definition plain_digits :: "string \<Rightarrow> bool" where
  "plain_digits s \<longleftrightarrow> CHR ''-'' \<notin> set s \<and> NUL \<notin> set s"

lemma plain_digits_simps [simp]:
  "plain_digits []" "plain_digits (c # s) \<longleftrightarrow> c \<noteq> CHR ''-'' \<and> c \<noteq> NUL \<and> plain_digits s"
  "plain_digits (s @ t) \<longleftrightarrow> plain_digits s \<and> plain_digits t"
  by (auto simp: plain_digits_def)

lemma char_uint_basic: "c < 128 \<Longrightarrow> char_uint (char_of c) = c"
  by (simp add: char_uint_def)

text \<open>
  The text written for \<open>delta\<close> is read back wherever it stands; \<open>35\<close> is the largest factor by which
  the weight grows before it is known whether another digit follows.
\<close>

lemma delta_roundtrip:
  "encode_delta q k bias max_out False out = Inr out' \<Longrightarrow>
     \<exists>ds. out' = out @ ds \<and> ds \<noteq> [] \<and> plain_digits ds \<and> length out' \<le> max_out \<and>
       (\<forall>i w rest. 0 < w \<longrightarrow> i + q * w \<le> maxint \<longrightarrow> 35 * (q * w) \<le> maxint \<longrightarrow>
          (\<exists>c. decode_delta (ds @ rest) i w k bias = Inr (i + q * w, rest, c)))"
proof (induction q k bias max_out False out rule: encode_delta.induct)
  case (1 q k bias max_out out)
  define t where "t = threshold k bias"
  note t = threshold_bounds [of k bias, folded t_def]
  have room: "length out < max_out"
    using "1.prems" by (simp add: encode_delta.simps [of q] not_le split: if_splits)
  show ?case
  proof (cases "q < t")
    case True
    then have out': "out' = out @ [encode_digit q False]"
      using "1.prems" room by (simp add: encode_delta.simps [of q] t_def)
    have q: "q < 36"
      using True t by simp
    have "decode_delta (encode_digit q False # rest) i w k bias = Inr (i + q * w, rest, encode_digit q False)"
      if "0 < w" "i + q * w \<le> maxint" for i w rest
    proof -
      have "q \<le> (maxint - i) div w"
        using that by (simp add: less_eq_div_iff_mult_less_eq)
      then show ?thesis
        using True q digit_cases [OF q] by (simp add: Let_def t_def bootstring_base_def)
    qed
    then show ?thesis
      using out' room digit_cases [OF q] by (intro exI [of _ "[encode_digit q False]"]) auto
  next
    case False
    define d q' where "d = t + (q - t) mod (36 - t)" and "q' = (q - t) div (36 - t)"
    have d: "d < 36" "t \<le> d" "q = d + q' * (36 - t)"
    proof -
      have "(q - t) mod (36 - t) < 36 - t"
        using t by simp
      then show "d < 36" "t \<le> d"
        using t unfolding d_def by linarith+
      have "q' * (36 - t) + (q - t) mod (36 - t) = q - t"
        unfolding q'_def by (rule div_mult_mod_eq)
      then show "q = d + q' * (36 - t)"
        using False unfolding d_def by linarith
    qed
    have rec: "encode_delta q' (k + bootstring_base) bias max_out False (out @ [encode_digit d False]) = Inr out'"
      using "1.prems" room False by (simp add: encode_delta.simps [of q] t_def [symmetric] Let_def d_def q'_def bootstring_base_def)
    have "\<exists>ds. out' = (out @ [encode_digit d False]) @ ds \<and> ds \<noteq> [] \<and> plain_digits ds \<and> length out' \<le> max_out \<and>
       (\<forall>i w rest. 0 < w \<longrightarrow> i + q' * w \<le> maxint \<longrightarrow> 35 * (q' * w) \<le> maxint \<longrightarrow>
          (\<exists>c. decode_delta (ds @ rest) i w (k + bootstring_base) bias = Inr (i + q' * w, rest, c)))"
      using "1.hyps" [of t] rec room False by (simp add: t_def [symmetric] d_def q'_def bootstring_base_def)
    then obtain ds where ds: "out' = out @ encode_digit d False # ds" "plain_digits ds" "length out' \<le> max_out"
        "\<And>i w rest. 0 < w \<Longrightarrow> i + q' * w \<le> maxint \<Longrightarrow> 35 * (q' * w) \<le> maxint \<Longrightarrow>
          \<exists>c. decode_delta (ds @ rest) i w (k + bootstring_base) bias = Inr (i + q' * w, rest, c)"
      by auto
    have "\<exists>c. decode_delta (encode_digit d False # ds @ rest) i w k bias = Inr (i + q * w, rest, c)"
      if w: "0 < w" "i + q * w \<le> maxint" "35 * (q * w) \<le> maxint" for i w rest
    proof -
      have qw: "q * w = d * w + q' * (w * (36 - t))"
        unfolding d(3) by (simp add: algebra_simps)
      have "d * w \<le> q * w" "w \<le> q * w"
        using d w(1) t False by auto
      then have "d * w \<le> maxint - i"
        using w(2) by linarith
      then have "d \<le> (maxint - i) div w"
        using w(1) by (simp add: less_eq_div_iff_mult_less_eq)
      moreover have "w * (36 - t) \<le> w * 35"
        using t by (intro mult_le_mono2) simp
      then have "w * (36 - t) \<le> maxint"
        using \<open>w \<le> q * w\<close> w(3) by linarith
      then have "w \<le> maxint div (36 - t)"
        using t by (simp add: less_eq_div_iff_mult_less_eq)
      moreover obtain c where "decode_delta (ds @ rest) (i + d * w) (w * (36 - t)) (k + bootstring_base) bias =
          Inr (i + d * w + q' * (w * (36 - t)), rest, c)"
        using ds(4) [of "w * (36 - t)" "i + d * w" rest] w qw t by auto
      ultimately show ?thesis
        using d digit_cases [OF d(1)] qw by (simp add: Let_def t_def [symmetric] bootstring_base_def not_less add.assoc)
    qed
    then show ?thesis
      using ds(1-3) digit_cases [OF d(1)] by (intro exI [of _ "encode_digit d False # ds"]) auto
  qed
qed

text \<open>The only error is a full buffer.\<close>

lemma encode_delta_error: "encode_delta q k bias max_out flag out = Inl e \<Longrightarrow> e = punycode_big_output"
proof (induction q k bias max_out flag out rule: encode_delta.induct)
  case (1 q k bias max_out flag out)
  then show ?case
    by (subst (asm) (2) encode_delta.simps) (auto simp: Let_def split: if_splits)
qed

section \<open>The decoder follows the encoder\<close>

text \<open>
  The points coded before the encoder is at a place: those before the place up to \<open>n\<close>, those behind it
  below \<open>n\<close>. The decoder, given the digits written so far, has exactly these, and what the
  encoder has counted up in \<open>delta\<close> is the distance from its place to that of the encoder.
\<close>

definition points_coded :: "nat \<Rightarrow> nat list \<Rightarrow> nat list \<Rightarrow> nat list" where
  "points_coded n pre cs = filter (\<lambda>c. c \<le> n) pre @ filter (\<lambda>c. c < n) cs"

lemma length_points_coded: "length (points_coded n pre cs) \<le> length (pre @ cs)"
  by (simp add: points_coded_def add_mono)

definition decodes :: "nat \<Rightarrow> nat list \<Rightarrow> string \<Rightarrow> nat \<Rightarrow> nat \<Rightarrow> nat \<Rightarrow> nat list \<Rightarrow> bool" where
  "decodes max2 bs body n i bias out \<longleftrightarrow>
     (\<forall>rest. decode_deltas (body @ rest) initial_n 0 initial_bias max2 bs None = decode_deltas rest n i bias max2 out None)"

definition in_step :: "nat \<Rightarrow> nat list \<Rightarrow> string \<Rightarrow> nat \<Rightarrow> nat list \<Rightarrow> nat list \<Rightarrow> encoder \<Rightarrow> bool" where
  "in_step max2 bs start n pre cs s \<longleftrightarrow> (case s of (delta, bias, h, out) \<Rightarrow>
     \<exists>body m i. out = start @ body \<and> plain_digits body \<and> decodes max2 bs body m i bias (points_coded n pre cs) \<and>
       h = length (points_coded n pre cs) \<and> i + delta = (n - m) * (h + 1) + length (filter (\<lambda>c. c \<le> n) pre) \<and>
       m \<le> n \<and> i \<le> h \<and> (i = 0 \<longleftrightarrow> h = length bs) \<and> length bs \<le> h \<and> h \<le> length out)"

lemma distance_bound:
  assumes "n < 0x110000" and "h \<le> 109" and "p \<le> h"
  shows "35 * ((n - m) * (h + 1) + p) < maxint" and "(n - m) * (h + 1) + p < maxint - 1"
proof -
  have "(n - m) * (h + 1) \<le> 0x10FFFF * 110"
    using assms by (intro mult_le_mono) auto
  then show "35 * ((n - m) * (h + 1) + p) < maxint" "(n - m) * (h + 1) + p < maxint - 1"
    using assms by (simp_all add: maxint_def)
qed

lemma quotient: "p < k \<Longrightarrow> (a * k + p) div k = a \<and> (a * k + p) mod k = (p :: nat)"
  by simp

lemma insertion:
  assumes dec: "decodes max2 bs body m i bias out" and p: "i + delta = (n - m) * (length out + 1) + p" "p \<le> length out"
    and "m \<le> n" "n < 0x110000" "length out < max2" "length out < 109"
    and enc: "encode_delta delta bootstring_base bias max_out False text = Inr text'"
  shows "\<exists>ds. text' = text @ ds \<and> ds \<noteq> [] \<and> plain_digits ds \<and>
    decodes max2 bs (body @ ds) n (p + 1) (adapt delta (length out + 1) (i = 0)) (insert_at p n out)"
proof -
  obtain ds where ds: "text' = text @ ds" "ds \<noteq> []" "plain_digits ds"
    and dec_ds: "\<And>i w rest. 0 < w \<Longrightarrow> i + delta * w \<le> maxint \<Longrightarrow> 35 * (delta * w) \<le> maxint \<Longrightarrow>
          \<exists>c. decode_delta (ds @ rest) i w bootstring_base bias = Inr (i + delta * w, rest, c)"
    using delta_roundtrip [OF enc] by blast
  have few: "35 * (i + delta) < maxint" "i + delta < maxint - 1"
    using distance_bound [of n "length out" p m] assms(5,7) p by simp_all
  have "decode_deltas (ds @ rest) m i bias max2 out None =
      decode_deltas rest n (p + 1) (adapt delta (length out + 1) (i = 0)) max2 (insert_at p n out) None" for rest
  proof -
    obtain c where c: "decode_delta (ds @ rest) i 1 bootstring_base bias = Inr (i + delta, rest, c)"
      using dec_ds [of 1 i rest] few by auto
    have "(i + delta) div (length out + 1) = n - m" "(i + delta) mod (length out + 1) = p"
      using quotient [of p "length out + 1" "n - m"] p by auto
    moreover have "\<not> maxint - m < n - m"
      using assms(5) by (simp add: maxint_def not_less diff_le_mono)
    ultimately show ?thesis
      using c ds(2) assms(4,6) by (subst decode_deltas.simps) (simp add: Let_def not_less)
  qed
  then show ?thesis
    using dec ds unfolding decodes_def by (intro exI [of _ ds]) simp
qed

lemma seen_insert: "insert_at (length (filter (\<lambda>c. c \<le> n) pre)) n (points_coded n pre (n # cs)) = points_coded n (pre @ [n]) cs"
  by (simp add: points_coded_def insert_at_def)

lemma pass_step:
  assumes "in_step max2 (filter basic pts) start n pre cs s" and "pre @ cs = pts" and "n < 0x110000" and "length pts \<le> 109" "length pts \<le> max2"
  shows "encode_pass n (length (filter basic pts)) max_out cs None s = Inl punycode_big_output \<or>
    (\<exists>s'. encode_pass n (length (filter basic pts)) max_out cs None s = Inr s' \<and> in_step max2 (filter basic pts) start n pts [] s')"
  using assms
proof (induction cs arbitrary: pre s)
  case Nil
  then show ?case
    by simp
next
  case (Cons c cs)
  obtain delta bias h out where s: "s = (delta, bias, h, out)"
    by (cases s)
  obtain body m i where inv: "out = start @ body" "plain_digits body" "decodes max2 (filter basic pts) body m i bias (points_coded n pre (c # cs))"
       "h = length (points_coded n pre (c # cs))" "i + delta = (n - m) * (h + 1) + length (filter (\<lambda>c. c \<le> n) pre)"
       "m \<le> n" "i \<le> h" "i = 0 \<longleftrightarrow> h = length (filter basic pts)" "length (filter basic pts) \<le> h" "h \<le> length out"
    using Cons.prems(1) by (auto simp: in_step_def s)
  have pts: "(pre @ [c]) @ cs = pts"
    using Cons.prems(2) by simp
  have p: "length (filter (\<lambda>c. c \<le> n) pre) \<le> h"
    by (simp add: inv(4) points_coded_def)
  have h: "h \<le> 109"
    using length_points_coded [of n pre "c # cs"] Cons.prems(2,4) inv(4) by auto
  consider "c < n" | "c = n" | "n < c"
    by linarith
  then show ?case
  proof cases
    case 1
    then have same: "points_coded n (pre @ [c]) cs = points_coded n pre (c # cs)" "length (filter (\<lambda>c. c \<le> n) (pre @ [c])) = length (filter (\<lambda>c. c \<le> n) pre) + 1"
      by (simp_all add: points_coded_def)
    have "delta < maxint - 1"
      using distance_bound(2) [OF Cons.prems(3) h p, of m] inv(5) by linarith
    then have add: "add32 delta 1 = delta + 1" "delta + 1 \<noteq> 0"
      by (simp_all add: add32_def maxint_def)
    have "i + (delta + 1) = (n - m) * (h + 1) + length (filter (\<lambda>c. c \<le> n) (pre @ [c]))"
      using inv(5) same(2) by simp
    then have "in_step max2 (filter basic pts) start n (pre @ [c]) cs (delta + 1, bias, h, out)"
      using inv(1-4,6-10) unfolding in_step_def prod.case same(1) by blast
    then show ?thesis
      using Cons.IH [OF _ pts Cons.prems(3-5)] 1 add by (simp add: s Let_def)
  next
    case 2
    show ?thesis
    proof (cases "encode_delta delta bootstring_base bias max_out False out")
      case (Inl e)
      then show ?thesis
        using 2 encode_delta_error by (simp add: s Let_def)
    next
      case (Inr out')
      have less: "h < length pts"
        using inv(4) Cons.prems(2) 2 length_points_coded [of n pre cs] by (auto simp: points_coded_def)
      obtain ds where ds: "out' = out @ ds" "ds \<noteq> []" "plain_digits ds"
        "decodes max2 (filter basic pts) (body @ ds) n (length (filter (\<lambda>c. c \<le> n) pre) + 1) (adapt delta (h + 1) (i = 0))
           (insert_at (length (filter (\<lambda>c. c \<le> n) pre)) n (points_coded n pre (c # cs)))"
        using insertion [OF inv(3) inv(5) [unfolded inv(4)] p [unfolded inv(4)] inv(6) Cons.prems(3) _ _ Inr] less Cons.prems(4,5) inv(4) by auto
      have points_coded: "insert_at (length (filter (\<lambda>c. c \<le> n) pre)) n (points_coded n pre (c # cs)) = points_coded n (pre @ [c]) cs"
        using seen_insert [of n pre cs] 2 by simp
      have len: "length (points_coded n (pre @ [c]) cs) = h + 1" "length (filter (\<lambda>c. c \<le> n) (pre @ [c])) = length (filter (\<lambda>c. c \<le> n) pre) + 1"
        using 2 inv(4) by (simp_all add: points_coded_def)
      have "in_step max2 (filter basic pts) start n (pre @ [c]) cs (0, adapt delta (h + 1) (i = 0), h + 1, out')"
        unfolding in_step_def prod.case
        using inv ds points_coded len p by (intro exI [of _ "body @ ds"] exI [of _ n] exI [of _ "length (filter (\<lambda>c. c \<le> n) pre) + 1"]) (cases ds; simp)
      then show ?thesis
        using Cons.IH [OF _ pts Cons.prems(3-5)] 2 Inr inv(8) by (simp add: s Let_def)
    qed
  next
    case 3
    then have same: "points_coded n (pre @ [c]) cs = points_coded n pre (c # cs)" "filter (\<lambda>c. c \<le> n) (pre @ [c]) = filter (\<lambda>c. c \<le> n) pre"
      by (simp_all add: points_coded_def)
    have "in_step max2 (filter basic pts) start n (pre @ [c]) cs (delta, bias, h, out)"
      using inv unfolding in_step_def prod.case same by blast
    then show ?thesis
      using Cons.IH [OF _ pts Cons.prems(3-5)] 3 by (simp add: s Let_def)
  qed
qed


lemma next_point_least:
  assumes "c \<in> set pts" and "n \<le> c" and "\<forall>c \<in> set pts. c < maxint"
  shows "next_point n pts \<in> set pts" and "n \<le> next_point n pts" and "\<And>x. x \<in> set pts \<Longrightarrow> n \<le> x \<Longrightarrow> next_point n pts \<le> x"
proof -
  have "(fold (\<lambda>c m. if n \<le> c \<and> c < m then c else m) cs m0 = m0 \<or>
      fold (\<lambda>c m. if n \<le> c \<and> c < m then c else m) cs m0 \<in> set cs \<and> n \<le> fold (\<lambda>c m. if n \<le> c \<and> c < m then c else m) cs m0) \<and>
    (\<forall>x \<in> set cs. n \<le> x \<longrightarrow> fold (\<lambda>c m. if n \<le> c \<and> c < m then c else m) cs m0 \<le> x) \<and>
    fold (\<lambda>c m. if n \<le> c \<and> c < m then c else m) cs m0 \<le> m0" for cs m0
  proof (induction cs arbitrary: m0)
    case (Cons c cs)
    show ?case
      using Cons.IH [of "if n \<le> c \<and> c < m0 then c else m0"] by (auto split: if_splits)
  qed simp
  from this [of pts maxint] show "next_point n pts \<in> set pts" "n \<le> next_point n pts" "\<And>x. x \<in> set pts \<Longrightarrow> n \<le> x \<Longrightarrow> next_point n pts \<le> x"
    using assms by (fastforce simp: next_point_def)+
qed

lemma advance:
  assumes "in_step max2 bs start n [] pts (delta, bias, h, out)" and "n \<le> m" and "\<And>x. x \<in> set pts \<Longrightarrow> n \<le> x \<Longrightarrow> m \<le> x"
  shows "in_step max2 bs start m [] pts (delta + (m - n) * (h + 1), bias, h, out)"
proof -
  have points_coded: "points_coded m [] pts = points_coded n [] pts"
    using assms(2,3) by (auto simp: points_coded_def intro!: filter_cong) (metis linorder_not_le)
  have "(n - k) * (h + 1) + (m - n) * (h + 1) = (m - k) * (h + 1)" if "k \<le> n" for k
  proof -
    have "(n - k) + (m - n) = m - k"
      using that assms(2) by simp
    then show ?thesis
      by (metis add_mult_distrib)
  qed
  then show ?thesis
    using assms(1,2) unfolding in_step_def prod.case points_coded by (fastforce simp: add.assoc [symmetric])
qed

lemma wrap_around:
  assumes "in_step max2 bs start n pts [] (delta, bias, h, out)"
  shows "in_step max2 bs start (n + 1) [] pts (delta + 1, bias, h, out)"
proof -
  have points_coded: "points_coded (n + 1) [] pts = points_coded n pts []" "length (filter (\<lambda>c. c \<le> n) pts) = length (points_coded n pts [])"
    by (auto simp: points_coded_def less_Suc_eq_le)
  have "(n - k) * (h + 1) + h + 1 = (n + 1 - k) * (h + 1)" if "k \<le> n" for k
    using that by (simp add: Suc_diff_le)
  then show ?thesis
    using assms unfolding in_step_def prod.case points_coded by (fastforce simp: add.assoc [symmetric])
qed

lemma in_step_facts:
  assumes "in_step max2 bs start n pre cs (delta, bias, h, out)" and "n < 0x110000" and "length (pre @ cs) \<le> 109"
  shows "delta < maxint - 1" and "h = length (points_coded n pre cs)"
proof -
  obtain i m where i: "h = length (points_coded n pre cs)" "i + delta = (n - m) * (h + 1) + length (filter (\<lambda>c. c \<le> n) pre)"
    using assms(1) by (auto simp: in_step_def)
  have "h \<le> 109" "length (filter (\<lambda>c. c \<le> n) pre) \<le> h"
    using i(1) length_points_coded [of n pre cs] assms(3) by (simp_all add: points_coded_def)
  then show "delta < maxint - 1" "h = length (points_coded n pre cs)"
    using distance_bound(2) [OF assms(2), of h "length (filter (\<lambda>c. c \<le> n) pre)" m] i by simp_all
qed

lemma more_filtered: "x \<in> set xs \<Longrightarrow> Q x \<Longrightarrow> \<not> P x \<Longrightarrow> (\<And>y. P y \<Longrightarrow> Q y) \<Longrightarrow> length (filter P xs) < length (filter Q xs)"
proof (induction xs)
  case (Cons y xs)
  have "length (filter P xs) \<le> length (filter Q xs)"
    using Cons.prems(4) by (induction xs) auto
  then show ?case
    using Cons by (auto simp: less_Suc_eq)
qed simp

lemma loop_ok:
  assumes pts: "\<forall>c \<in> set pts. c < 0x110000" "length pts \<le> 109" "length pts \<le> max2"
  shows "in_step max2 (filter basic pts) start n [] pts s \<Longrightarrow>
    \<exists>r. encode_loop pts None max_out (length (filter basic pts)) n s = Some r \<and>
      (r = Inl punycode_big_output \<or>
        (\<exists>body m i bias. r = Inr (start @ body) \<and> plain_digits body \<and> decodes max2 (filter basic pts) body m i bias pts \<and>
          length pts \<le> length (start @ body)))"
proof (induction "length pts - fst (snd (snd s))" arbitrary: n s rule: less_induct)
  case less
  obtain delta bias h out where s: "s = (delta, bias, h, out)"
    by (cases s)
  let ?b = "length (filter basic pts)"
  have h: "h = length (filter (\<lambda>c. c < n) pts)"
    using less.prems by (auto simp: in_step_def s points_coded_def)
  show ?case
  proof (cases "h < length pts")
    case False
    then have "filter (\<lambda>c. c < n) pts = pts"
      using h by (metis filter_id_conv length_filter_less linorder_not_less)
    then have "points_coded n [] pts = pts"
      by (simp add: points_coded_def)
    with less.prems obtain body m i where body: "out = start @ body" "plain_digits body" "decodes max2 (filter basic pts) body m i bias pts"
        "h \<le> length out"
      unfolding in_step_def s prod.case by auto
    have "encode_loop pts None max_out ?b n s = Some (Inr out)"
      using False by (subst encode_loop.simps) (simp add: s)
    then show ?thesis
      using body False by auto
  next
    case True
    define m where "m = next_point n pts"
    obtain c where c: "c \<in> set pts" "n \<le> c"
      using True h by (metis filter_True less_irrefl linorder_not_le)
    have "\<forall>c \<in> set pts. c < maxint"
      using pts(1) by (force simp: maxint_def)
    note m = next_point_least [OF c this, folded m_def]
    have small: "m < 0x110000"
      using pts(1) m(1) by blast
    have step: "in_step max2 (filter basic pts) start m [] pts (delta + (m - n) * (h + 1), bias, h, out)"
      using advance [OF less.prems [unfolded s] m(2,3)] .
    have "delta + (m - n) * (h + 1) \<le> maxint"
      using in_step_facts(1) [OF step small] pts(2) by simp
    then have fits: "\<not> (maxint - delta) div (h + 1) < m - n"
      by (simp add: not_less less_eq_div_iff_mult_less_eq)
    consider (full) "encode_pass m ?b max_out pts None (delta + (m - n) * (h + 1), bias, h, out) = Inl punycode_big_output"
      | (pass) s' where "encode_pass m ?b max_out pts None (delta + (m - n) * (h + 1), bias, h, out) = Inr s'"
          "in_step max2 (filter basic pts) start m pts [] s'"
      using pass_step [OF step _ small pts(2,3), of max_out] by auto
    then show ?thesis
    proof cases
      case full
      then show ?thesis
        using True fits by (subst encode_loop.simps) (simp add: s m_def [symmetric] Let_def)
    next
      case pass
      obtain delta' bias' h' out' where s': "s' = (delta', bias', h', out')"
        by (cases s')
      have "delta' < maxint - 1" "h' = length (filter (\<lambda>c. c \<le> m) pts)"
        using in_step_facts [OF pass(2) [unfolded s'] small] pts(2) by (simp_all add: points_coded_def)
      then have add: "add32 m 1 = m + 1" "add32 delta' 1 = delta' + 1"
        using small by (simp_all add: add32_def maxint_def)
      have "h < h'"
        unfolding h \<open>h' = _\<close> using m(1,2) by (intro more_filtered [of m]) auto
      then have "length pts - fst (snd (snd (delta' + 1, bias', h', out'))) < length pts - fst (snd (snd s))"
        using True by (simp add: s)
      from less.hyps [OF this wrap_around [OF pass(2) [unfolded s']]] show ?thesis
        using True fits pass(1) add by (subst encode_loop.simps) (simp add: s s' m_def [symmetric] Let_def)
    qed
  qed
qed

section \<open>Round trip\<close>

lemma basic_points_cases:
  "basic_points pts None max_out out = Inl punycode_big_output \<or>
     basic_points pts None max_out out = Inr (out @ map char_of (filter basic pts)) \<and>
       (filter basic pts \<noteq> [] \<longrightarrow> length out + length (filter basic pts) < max_out)"
proof (induction pts arbitrary: out)
  case (Cons c cs)
  show ?case
    using Cons.IH [of out] Cons.IH [of "out @ [char_of c]"] by (cases "filter basic cs = []") auto
qed simp

lemma last_delimiter_none: "CHR ''-'' \<notin> set cs \<Longrightarrow> last_delimiter cs j b = b"
  by (induction cs j b rule: last_delimiter.induct) auto

lemma last_delimiter_some: "CHR ''-'' \<notin> set cs \<Longrightarrow> last_delimiter (xs @ CHR ''-'' # cs) j b = j + length xs"
  by (induction xs arbitrary: j b) (auto simp: last_delimiter_none)

lemma punycode_decode_start:
  assumes "start = (if bs = [] then [] else map char_of bs @ ''-'')" and "list_all basic bs" and "CHR ''-'' \<notin> set body"
    and "length bs \<le> max2" "max2 \<le> maxint"
  shows "punycode_decode (start @ body) max2 False = decode_deltas body initial_n 0 initial_bias max2 bs None"
proof (cases "bs = []")
  case True
  then show ?thesis
    using assms by (simp add: punycode_decode_def last_delimiter_none)
next
  case False
  have b: "last_delimiter (start @ body) 0 0 = length bs"
    using False assms(1) last_delimiter_some [OF assms(3), of "map char_of bs" 0 0] by simp
  have "map char_uint (map char_of bs) = bs"
    using assms(2) by (auto simp: list_all_iff basic_def char_uint_basic intro!: map_idI)
  then show ?thesis
    using False assms b by (simp add: punycode_decode_def)
qed

definition unicode :: "nat list \<Rightarrow> bool" where
  "unicode pts \<longleftrightarrow> (\<forall>c \<in> set pts. c < 0x110000)"

lemma char_of_NUL: "NUL = char_of (c :: nat) \<Longrightarrow> c < 128 \<Longrightarrow> c = 0"
  by (drule arg_cong [of _ _ "of_char :: char \<Rightarrow> nat"]) simp

lemma roundtrip:
  assumes "unicode pts" and "length pts \<le> 109"
  obtains (full) "punycode_encode pts None max_out = Some (Inl punycode_big_output)"
    | (coded) ace where "punycode_encode pts None max_out = Some (Inr ace)" "length pts \<le> length ace" "0 \<notin> set pts \<Longrightarrow> NUL \<notin> set ace"
        "\<And>max2. length pts \<le> max2 \<Longrightarrow> punycode_decode ace max2 False = Inr (pts, None)"
proof -
  let ?bs = "filter basic pts"
  define start where "start = (if ?bs = [] then [] else map char_of ?bs @ ''-'')"
  have len: "length pts \<le> maxint"
    using assms(2) by (simp add: maxint_def)
  consider "basic_points pts None max_out [] = Inl punycode_big_output"
    | "basic_points pts None max_out [] = Inr (map char_of ?bs)"
    using basic_points_cases [of pts max_out "[]"] by auto
  then show thesis
  proof cases
    case 1
    then show thesis
      using len by (intro full) (simp add: punycode_encode_def)
  next
    case 2
    let ?s = "(0, initial_bias, length ?bs, start)"
    have eq: "punycode_encode pts None max_out = encode_loop pts None max_out (length ?bs) initial_n ?s"
      using 2 len by (simp add: punycode_encode_def start_def Let_def)
    have points_coded: "points_coded initial_n [] pts = ?bs"
      by (simp add: points_coded_def initial_n_def basic_def [abs_def])
    have "in_step max2 ?bs start initial_n [] pts ?s" for max2
      unfolding in_step_def prod.case decodes_def points_coded
      by (intro exI [of _ "[]"] exI [of _ initial_n] exI [of _ 0]) (simp add: start_def)
    then have loop: "\<exists>r. punycode_encode pts None max_out = Some r \<and>
      (r = Inl punycode_big_output \<or>
        (\<exists>body m i bias. r = Inr (start @ body) \<and> plain_digits body \<and> decodes max2 ?bs body m i bias pts \<and>
          length pts \<le> length (start @ body)))" if "length pts \<le> max2" for max2
      unfolding eq using loop_ok [of pts max2 start initial_n ?s max_out] assms that by (simp add: unicode_def)
    show thesis
    proof (cases "punycode_encode pts None max_out = Some (Inl punycode_big_output)")
      case False
      then obtain body where body: "punycode_encode pts None max_out = Some (Inr (start @ body))" "plain_digits body"
          "length pts \<le> length (start @ body)"
        using loop [OF order_refl] by auto
      have "punycode_decode (start @ body) max2 False = Inr (pts, None)" if "length pts \<le> max2" for max2
      proof -
        have max2: "length pts \<le> min max2 maxint"
          using that len by simp
        obtain m i bias where "decodes (min max2 maxint) ?bs body m i bias pts"
          using loop [OF max2] body(1) by auto
        then have dec: "decode_deltas (body @ []) initial_n 0 initial_bias (min max2 maxint) ?bs None = decode_deltas [] m i bias (min max2 maxint) pts None"
          unfolding decodes_def by blast
        have "length ?bs \<le> min max2 maxint"
          using max2 length_filter_le [of basic pts] by linarith
        then have "punycode_decode (start @ body) (min max2 maxint) False = Inr (pts, None)"
          using punycode_decode_start [OF start_def, of body "min max2 maxint"] body(2) dec by (simp add: list_all_iff decode_deltas.simps [of "[]"] plain_digits_def)
        then show ?thesis
          by (simp add: punycode_decode_def)
      qed
      moreover have "NUL \<notin> set (start @ body)" if "0 \<notin> set pts"
        using that body(2) by (auto simp: start_def plain_digits_def basic_def dest: char_of_NUL)
      ultimately show thesis
        using coded body(1,3) by blast
    qed (rule full)
  qed
qed

text \<open>The encoder keeps within its buffer.\<close>

lemma encode_delta_fits: "encode_delta q k bias max_out flag out = Inr out' \<Longrightarrow> length out' \<le> max_out"
proof (induction q k bias max_out flag out rule: encode_delta.induct)
  case (1 q k bias max_out flag out)
  then show ?case
    by (subst (asm) (2) encode_delta.simps) (auto simp: Let_def split: if_splits)
qed

lemma encode_pass_fits:
  "encode_pass n b max_out cs flags (delta, bias, h, out) = Inr (delta', bias', h', out') \<Longrightarrow> length out \<le> max_out \<Longrightarrow> length out' \<le> max_out"
  by (induction n b max_out cs flags "(delta, bias, h, out)" arbitrary: delta bias h out rule: encode_pass.induct)
    (auto simp: Let_def dest: encode_delta_fits split: if_splits sum.splits)

lemma encode_loop_fits:
  assumes "encode_loop input flags max_out b n s = Some (Inr out)" and "length (snd (snd (snd s))) \<le> max_out"
  shows "length out \<le> max_out"
proof -
  have "r = Inr out \<longrightarrow> length (snd (snd (snd s))) \<le> max_out \<longrightarrow> length out \<le> max_out"
    if "encode_loop input flags max_out b n s = Some r" for r
    using that
  proof (rule encode_loop.raw_induct [where P = "\<lambda>input flags max_out b n s r.
        r = Inr out \<longrightarrow> length (snd (snd (snd s))) \<le> max_out \<longrightarrow> length out \<le> max_out", rotated], goal_cases)
    case (1 f input flags max_out b n s r)
    obtain delta bias h out0 where s: "s = (delta, bias, h, out0)"
      by (cases s)
    show ?case
    proof (intro impI)
      assume r: "r = Inr out" and fits: "length (snd (snd (snd s))) \<le> max_out"
      show "length out \<le> max_out"
      proof (cases "h < length input")
        case False
        then show ?thesis
          using 1(2) r fits by (simp add: s)
      next
        case True
        define m where "m = next_point n input"
        obtain delta' bias' h' out1 where pass: "encode_pass m b max_out input flags (delta + (m - n) * (h + 1), bias, h, out0) = Inr (delta', bias', h', out1)"
            "f input flags max_out b (add32 m 1) (add32 delta' 1, bias', h', out1) = Some r"
          using 1(2) r True by (auto simp: s Let_def m_def [symmetric] split: if_splits sum.splits)
        then show ?thesis
          using 1(1) [OF pass(2)] encode_pass_fits [OF pass(1)] fits r by (simp add: s)
      qed
    qed
  qed
  then show ?thesis
    using assms by blast
qed

lemma basic_points_fits:
  "basic_points cs flags max_out out = Inr out' \<Longrightarrow> length out \<noteq> 0 \<longrightarrow> length out < max_out \<Longrightarrow> length out' \<noteq> 0 \<longrightarrow> length out' < max_out"
  by (induction cs flags max_out out rule: basic_points.induct) (auto split: if_splits)

lemma punycode_encode_fits: "punycode_encode input flags max_out = Some (Inr ace) \<Longrightarrow> length ace \<le> max_out"
proof -
  assume enc: "punycode_encode input flags max_out = Some (Inr ace)"
  then obtain out where out: "basic_points input flags max_out [] = Inr out"
    by (auto simp: punycode_encode_def split: if_splits sum.splits)
  then show ?thesis
    using enc basic_points_fits [OF out]
    by (auto simp: punycode_encode_def Let_def split: if_splits elim!: encode_loop_fits)
qed


lemma length_insert_at [simp]: "length (insert_at p x xs) = length xs + 1"
  by (simp add: insert_at_def min_def)

text \<open>The decoder never gives out more points than it has read characters.\<close>

lemma decode_deltas_length:
  "decode_deltas rest n i bias max_out pts flags = Inr (out, fs) \<Longrightarrow> length out \<le> length pts + length rest"
proof (induction rest n i bias max_out pts flags rule: decode_deltas.induct)
  case (1 rest n i bias max_out pts flags)
  show ?case
  proof (cases "rest = []")
    case True
    then show ?thesis
      using "1.prems" by (simp add: decode_deltas.simps)
  next
    case False
    then obtain i' rest' c where delta: "decode_delta rest i 1 bootstring_base bias = Inr (i', rest', c)"
      using "1.prems" by (auto simp: decode_deltas.simps [of rest] split: sum.splits prod.splits)
    let ?len = "length pts + 1"
    have go: "\<not> maxint - n < i' div ?len" "\<not> max_out \<le> length pts"
        "decode_deltas rest' (n + i' div ?len) (i' mod ?len + 1) (adapt (i' - i) ?len (i = 0)) max_out
               (insert_at (i' mod ?len) (n + i' div ?len) pts)
               (map_option (insert_at (i' mod ?len) (flagged (char_uint c))) flags) = Inr (out, fs)"
      using "1.prems" False delta by (simp_all add: decode_deltas.simps [of rest] Let_def split: if_splits)
    have "length out \<le> length (insert_at (i' mod ?len) (n + i' div ?len) pts) + length rest'"
      using "1.IH" [OF False delta refl refl refl go(1,2) go(3)] by simp
    then show ?thesis
      using decode_delta_shorter [OF delta] by simp
  qed
qed

lemma last_delimiter_le: "b \<le> j \<Longrightarrow> last_delimiter s j b \<le> j + length s"
  by (induction s j b rule: last_delimiter.induct) (simp_all add: le_SucI)

lemma punycode_decode_length: "punycode_decode s n flags = Inr (out, fs) \<Longrightarrow> length out \<le> length s"
  using last_delimiter_le [of 0 0 s]
  by (auto simp: punycode_decode_def Let_def dest!: decode_deltas_length split: if_splits)

end
