(* ===== verification/Idna.thy ===== *)
theory Idna
  imports Punycode Ascii "HOL-Library.Monad_Syntax"
begin

text \<open>
  \<^verbatim>\<open>src/utils/idna.c\<close>: host names as the domain name system knows them. The code points of a label are
  natural numbers. Each function takes the string its pointer is at and the length given for it; the
  name is put together in an array of 256 bytes, and \<open>None\<close> is a write behind it or a null pointer read.
\<close>

section \<open>Labels\<close>

fun punycode_status_to_nserror :: "punycode_status \<Rightarrow> nserror" where
  "punycode_status_to_nserror punycode_success = NSERROR_OK"
| "punycode_status_to_nserror punycode_bad_input = NSERROR_BAD_ENCODING"
| "punycode_status_to_nserror punycode_big_output = NSERROR_BAD_SIZE"
| "punycode_status_to_nserror punycode_overflow = NSERROR_NOSPACE"

text \<open>The string up to its first NUL.\<close>

definition c_string :: "string \<Rightarrow> string" where
  "c_string s = takeWhile (\<lambda>c. c \<noteq> NUL) s"

text \<open>The label may be a null pointer: the result of \<^verbatim>\<open>strdup\<close> is not looked at.\<close>

definition idna__ucs4_to_ace :: "nat list \<Rightarrow> mem \<Rightarrow> ((string option \<times> nat) result \<times> mem) option" where
  "idna__ucs4_to_ace ucs4_label m =
     do {
       r \<leftarrow> punycode_encode ucs4_label None 60;
       case r of
         Inl status \<Rightarrow> Some (Inl (punycode_status_to_nserror status), m)
       | Inr punycode \<Rightarrow>
           let label = ''xn--'' @ punycode in
           if 65 < length label + 1 then None
           else (case strdup (c_string label) m of (ace_label, m1) \<Rightarrow> Some (Inr (ace_label, length label), m1))
     }"

definition idna__ace_to_ucs4 :: "string \<Rightarrow> nat \<Rightarrow> mem \<Rightarrow> (nat list result \<times> mem) option" where
  "idna__ace_to_ucs4 ace_label ace_len m =
     (if ace_len < 4 \<or> take 4 ace_label \<noteq> ''xn--'' then None
      else (case malloc m of (ok, m1) \<Rightarrow>
        if \<not> ok then Some (Inl NSERROR_NOMEM, m1)
        else (case punycode_decode (take (ace_len - 4) (drop 4 ace_label)) ace_len False of
            Inl status \<Rightarrow> Some (Inl (punycode_status_to_nserror status), free_block m1)
          | Inr (ucs4, _) \<Rightarrow> if length ucs4 < ace_len then Some (Inr ucs4, m1) else None)))"

definition idna__utf8_to_ucs4 :: "string \<Rightarrow> nat \<Rightarrow> nat list result" where
  "idna__utf8_to_ucs4 utf8_label len = Inl NSERROR_NOT_IMPLEMENTED"

definition idna__ucs4_to_utf8 :: "nat list \<Rightarrow> string result" where
  "idna__ucs4_to_utf8 ucs4_label = Inl NSERROR_NOT_IMPLEMENTED"

definition idna__is_valid :: "nat list \<Rightarrow> bool" where
  "idna__is_valid label = True"

definition idna__verify :: "string \<Rightarrow> nat \<Rightarrow> bool" where
  "idna__verify label len = True"

fun idna__host_label_length :: "string \<Rightarrow> nat \<Rightarrow> nat" where
  "idna__host_label_length host 0 = 0"
| "idna__host_label_length host (Suc max_length) =
     (if peek host = CHR ''.'' \<or> peek host = CHR '':'' \<or> peek host = NUL then 0
      else Suc (idna__host_label_length (tl host) max_length))"

definition is_ldh_char :: "char \<Rightarrow> bool" where
  "is_ldh_char c \<longleftrightarrow> c = CHR ''-'' \<or> ascii_is_digit c \<or> ascii_is_alpha c"

text \<open>Called with a positive length only.\<close>

definition idna__is_ldh :: "string \<Rightarrow> nat \<Rightarrow> bool" where
  "idna__is_ldh label len \<longleftrightarrow>
     \<not> (label ! 0 = CHR ''-'' \<or> label ! (len - 1) = CHR ''-'') \<and> list_all is_ldh_char (take len label)"

definition idna__is_ace :: "string \<Rightarrow> nat \<Rightarrow> bool" where
  "idna__is_ace label len \<longleftrightarrow> idna__is_ldh label len \<and> take 4 label = ''xn--''"

section \<open>Whole names\<close>

text \<open>A write into \<^verbatim>\<open>char fqdn[256]\<close>.\<close>

definition put_text :: "string \<Rightarrow> string \<Rightarrow> string option" where
  "put_text fqdn s = (if length fqdn + length s \<le> 256 then Some (fqdn @ s) else None)"

definition sub64 :: "nat \<Rightarrow> nat \<Rightarrow> nat" where
  "sub64 a b = unat (word_of_nat a - word_of_nat b :: 64 word)"

text \<open>\<^verbatim>\<open>strncpy\<close> fills up with NULs.\<close>

definition strncpy_text :: "string \<Rightarrow> nat \<Rightarrow> string" where
  "strncpy_text s n = take n (s @ replicate n NUL)"

definition encode_label :: "string \<Rightarrow> nat \<Rightarrow> string \<Rightarrow> mem \<Rightarrow> (string result \<times> mem) option" where
  "encode_label host label_len fqdn m =
     (if \<not> idna__is_ldh host label_len then
        (case idna__utf8_to_ucs4 host label_len of
           Inl error \<Rightarrow> Some (Inl error, m)
         | Inr ucs4_host \<Rightarrow>
             if \<not> idna__is_valid ucs4_host then Some (Inl NSERROR_BAD_URL, free_block m)
             else do {
               (r, m1) \<leftarrow> idna__ucs4_to_ace ucs4_host m;
               let m2 = free_block m1;
               case r of
                 Inl error \<Rightarrow> Some (Inl error, m2)
               | Inr (output, output_len) \<Rightarrow>
                   do { label \<leftarrow> output; fqdn1 \<leftarrow> put_text fqdn (strncpy_text label output_len); Some (Inr fqdn1, free_block m2) }
             })
      else if idna__is_ace host label_len \<and> \<not> idna__verify host label_len then Some (Inl NSERROR_BAD_URL, m)
      else do { fqdn1 \<leftarrow> put_text fqdn (take label_len host); Some (Inr fqdn1, m) })"

definition decode_label :: "string \<Rightarrow> nat \<Rightarrow> string \<Rightarrow> mem \<Rightarrow> (string result \<times> mem) option" where
  "decode_label ace_host label_len fqdn m =
     (if idna__is_ace ace_host label_len then
        do {
          (r, m1) \<leftarrow> idna__ace_to_ucs4 ace_host label_len m;
          case r of
            Inl error \<Rightarrow> Some (Inl error, m1)
          | Inr ucs4_host \<Rightarrow>
              (case idna__ucs4_to_utf8 ucs4_host of
                 Inl error \<Rightarrow> Some (Inl error, free_block m1)
               | Inr output \<Rightarrow> do { fqdn1 \<leftarrow> put_text fqdn output; Some (Inr fqdn1, free_block (free_block m1)) })
        }
      else do { fqdn1 \<leftarrow> put_text fqdn (take label_len ace_host); Some (Inr fqdn1, m) })"

text \<open>The loop over the labels, which the two directions share.\<close>

lemma rest_shorter: "peek (drop n host) \<noteq> NUL \<Longrightarrow> length (tl (drop n host)) < length host"
  by (cases "drop n host") (auto simp: neq_Nil_conv dest!: arg_cong [of _ _ length])

function convert_labels ::
  "(string \<Rightarrow> nat \<Rightarrow> string \<Rightarrow> mem \<Rightarrow> (string result \<times> mem) option) \<Rightarrow> string \<Rightarrow> nat \<Rightarrow> string \<Rightarrow> mem \<Rightarrow> (string result \<times> mem) option" where
  "convert_labels convert host len fqdn m =
     (let label_len = idna__host_label_length host len in
      if label_len = 0 then Some (Inr fqdn, m)
      else (case convert host label_len fqdn m of
          None \<Rightarrow> None
        | Some (Inl error, m1) \<Rightarrow> Some (Inl error, m1)
        | Some (Inr fqdn1, m1) \<Rightarrow>
            (case put_text fqdn1 ''.'' of
               None \<Rightarrow> None
             | Some fqdn2 \<Rightarrow>
                 let rest = drop label_len host in
                 if peek rest = NUL \<or> peek rest = CHR '':'' then Some (Inr fqdn2, m1)
                 else convert_labels convert (tl rest) (sub64 (sub64 len label_len) 1) fqdn2 m1)))"
  by pat_completeness auto
termination
  by (relation "measure (\<lambda>(_, host, _). length host)") (auto dest: rest_shorter)

declare convert_labels.simps [simp del]

definition convert_host ::
  "(string \<Rightarrow> nat \<Rightarrow> string \<Rightarrow> mem \<Rightarrow> (string result \<times> mem) option) \<Rightarrow> string \<Rightarrow> nat \<Rightarrow> mem \<Rightarrow> ((string option \<times> nat) result \<times> mem) option" where
  "convert_host convert host len m =
     (if idna__host_label_length host len = 0 then Some (Inl NSERROR_BAD_URL, m)
      else (case convert_labels convert host len [] m of
          None \<Rightarrow> None
        | Some (Inl error, m1) \<Rightarrow> Some (Inl error, m1)
        | Some (Inr fqdn, m1) \<Rightarrow>
            (case strdup (c_string (butlast fqdn)) m1 of (s, m2) \<Rightarrow> Some (Inr (s, length fqdn - 1), m2))))"

definition idna_encode :: "string \<Rightarrow> nat \<Rightarrow> mem \<Rightarrow> ((string option \<times> nat) result \<times> mem) option" where
  "idna_encode host len m = convert_host encode_label host len m"

definition idna_decode :: "string \<Rightarrow> nat \<Rightarrow> mem \<Rightarrow> ((string option \<times> nat) result \<times> mem) option" where
  "idna_decode ace_host ace_len m = convert_host decode_label ace_host ace_len m"


section \<open>The encoder of names\<close>

lemma label_length: "idna__host_label_length host n = length (takeWhile (\<lambda>c. c \<noteq> CHR ''.'' \<and> c \<noteq> CHR '':'' \<and> c \<noteq> NUL) (take n host))"
  by (induction host n rule: idna__host_label_length.induct) (auto simp: peek_def split: list.splits)

lemma label_length_le: "idna__host_label_length host n \<le> n"
  using length_takeWhile_le [of _ "take n host"] by (fastforce simp: label_length)

lemma encode_label_eq:
  "encode_label host n fqdn m =
     (if idna__is_ldh host n then map_option (\<lambda>fqdn1. (Inr fqdn1, m)) (put_text fqdn (take n host)) else Some (Inl NSERROR_NOT_IMPLEMENTED, m))"
  by (cases "put_text fqdn (take n host)") (simp_all add: encode_label_def idna__utf8_to_ucs4_def idna__verify_def)

lemma label_length_host: "idna__host_label_length host n \<le> length host"
  using length_takeWhile_le [of _ "take n host"] by (fastforce simp: label_length)

lemma encode_labels_step:
  "convert_labels encode_label host len fqdn m =
     (let n = idna__host_label_length host len in
      if n = 0 then Some (Inr fqdn, m)
      else if \<not> idna__is_ldh host n then Some (Inl NSERROR_NOT_IMPLEMENTED, m)
      else if 256 < length fqdn + n + 1 then None
      else if peek (drop n host) = NUL \<or> peek (drop n host) = CHR '':'' then Some (Inr (fqdn @ take n host @ ''.''), m)
      else convert_labels encode_label (tl (drop n host)) (sub64 (sub64 len n) 1) (fqdn @ take n host @ ''.'') m)"
  using label_length_host [of host len]
  by (subst convert_labels.simps) (simp add: encode_label_eq Let_def put_text_def)

lemma encode_labels_memory: "convert_labels encode_label host len fqdn m = Some (r, m') \<Longrightarrow> m' = m"
proof (induction "length host" arbitrary: host len fqdn rule: less_induct)
  case less
  show ?case
    using less.prems less.hyps [OF rest_shorter] by (subst (asm) encode_labels_step) (auto simp: Let_def split: if_splits)
qed

lemma sub64_le: "b \<le> a \<Longrightarrow> a < 2 ^ 64 \<Longrightarrow> sub64 a b = a - b"
  by (simp add: sub64_def unat_of_nat take_bit_nat_eq_self flip: of_nat_diff)

text \<open>A name of at most 255 bytes that ends where its length says fits the array.\<close>

lemma encode_labels_defined:
  "length fqdn + len + 1 \<le> 256 \<Longrightarrow> peek (drop len host) = NUL \<or> peek (drop len host) = CHR '':'' \<Longrightarrow>
     convert_labels encode_label host len fqdn m \<noteq> None"
proof (induction "length host" arbitrary: host len fqdn rule: less_induct)
  case less
  define n where "n = idna__host_label_length host len"
  have n: "n \<le> len" "length (take n host) = n"
    using label_length_le label_length_host [of host len] by (auto simp: n_def)
  show ?case
  proof (cases "peek (drop n host) = NUL \<or> peek (drop n host) = CHR '':''")
    case True
    then show ?thesis
      using less.prems(1) n by (subst encode_labels_step) (simp add: n_def [symmetric] Let_def)
  next
    case False
    then have "n < len"
      using n less.prems(2) by (cases "n = len") auto
    then have len: "sub64 (sub64 len n) 1 = len - n - 1"
      using less.prems(1) by (simp add: sub64_le)
    have "drop (len - n - 1) (tl (drop n host)) = drop len host"
      using \<open>n < len\<close> by (simp add: drop_Suc [symmetric] drop_tl)
    moreover have "length (fqdn @ take n host @ ''.'') + (len - n - 1) + 1 \<le> 256"
      using less.prems(1) n \<open>n < len\<close> by simp
    ultimately have "convert_labels encode_label (tl (drop n host)) (len - n - 1) (fqdn @ take n host @ ''.'') m \<noteq> None"
      using False less.prems(2) by (intro less.hyps rest_shorter) auto
    then show ?thesis
      using False less.prems(1) n len by (subst encode_labels_step) (simp add: n_def [symmetric] Let_def)
  qed
qed

lemma idna_encode_name:
  "idna_encode host len m = Some (Inr (s, n), m') \<Longrightarrow> plenty m \<Longrightarrow> s \<noteq> None"
  using encode_labels_memory [of host len "[]" m]
  by (auto simp: idna_encode_def convert_host_def dest!: strdup_held split: if_splits option.splits sum.splits prod.splits)

lemma idna_encode_plenty:
  "idna_encode host len m = Some (r, m') \<Longrightarrow> plenty m \<Longrightarrow> plenty m'"
  using encode_labels_memory [of host len "[]" m]
  by (auto simp: idna_encode_def convert_host_def dest!: strdup_held split: if_splits option.splits sum.splits prod.splits)

lemma idna_encode_defined:
  "len \<le> 255 \<Longrightarrow> peek (drop len host) = NUL \<or> peek (drop len host) = CHR '':'' \<Longrightarrow> idna_encode host len m \<noteq> None"
  using encode_labels_defined [of "[]" len host m] by (auto simp: idna_encode_def convert_host_def split: option.splits prod.splits sum.splits)

text \<open>The name has no NUL, so that its length is the one that is reported.\<close>

lemma encode_labels_no_NUL:
  "convert_labels encode_label host len fqdn m = Some (Inr fqdn', m') \<Longrightarrow> NUL \<notin> set fqdn \<Longrightarrow> NUL \<notin> set fqdn'"
proof (induction "length host" arbitrary: host len fqdn rule: less_induct)
  case less
  define n where "n = idna__host_label_length host len"
  have "take n host = takeWhile (\<lambda>c. c \<noteq> CHR ''.'' \<and> c \<noteq> CHR '':'' \<and> c \<noteq> NUL) (take len host)"
    by (metis label_length n_def take_take takeWhile_eq_take label_length_le min_absorb1)
  then have "NUL \<notin> set (take n host)"
    by (auto dest: set_takeWhileD)
  then have plain: "NUL \<notin> set (fqdn @ take n host @ ''.'')"
    using less.prems(2) by simp
  show ?case
  proof (cases "peek (drop n host) = NUL \<or> peek (drop n host) = CHR '':''")
    case True
    then show ?thesis
      using less.prems plain by (subst (asm) encode_labels_step) (auto simp: Let_def n_def [symmetric] split: if_splits)
  next
    case False
    then show ?thesis
      using less.prems less.hyps [OF rest_shorter _ plain] by (subst (asm) encode_labels_step) (auto simp: Let_def n_def [symmetric] split: if_splits)
  qed
qed

lemma no_NUL_c_string: "NUL \<notin> set s \<Longrightarrow> c_string (butlast s) = butlast s"
  by (auto simp: c_string_def takeWhile_eq_all_conv dest: in_set_butlastD)

lemma idna_encode_length: "idna_encode host len m = Some (Inr (Some name, n), m') \<Longrightarrow> length name = n"
  using encode_labels_no_NUL [of host len "[]" m]
  by (auto simp: idna_encode_def convert_host_def strdup_def no_NUL_c_string dest: in_set_butlastD
      split: if_splits option.splits sum.splits prod.splits)

lemma idna_encode_held:
  assumes "idna_encode host len m = Some (r, m')"
  shows "held m' = held m + (case r of Inr (Some _, _) \<Rightarrow> a_block | _ \<Rightarrow> 0)"
  using assms encode_labels_memory [of host len "[]" m]
  by (auto simp: idna_encode_def convert_host_def strdup_def dest!: malloc_held split: if_splits option.splits sum.splits prod.splits)


text \<open>Names of letters, digits and hyphens.\<close>

definition ldh_label :: "string \<Rightarrow> bool" where
  "ldh_label l \<longleftrightarrow> l \<noteq> [] \<and> hd l \<noteq> CHR ''-'' \<and> last l \<noteq> CHR ''-'' \<and> list_all is_ldh_char l"

fun dotted :: "string list \<Rightarrow> string" where
  "dotted [] = []"
| "dotted [l] = l"
| "dotted (l # ls) = l @ CHR ''.'' # dotted ls"

lemma ldh_char_inside: "is_ldh_char c \<Longrightarrow> c \<noteq> CHR ''.'' \<and> c \<noteq> CHR '':'' \<and> c \<noteq> NUL"
  by (auto simp: is_ldh_char_def ascii_is_digit_def ascii_is_alpha_def ascii_is_alpha_lower_def ascii_is_alpha_upper_def)

lemma ldh_label_length:
  assumes "ldh_label l" and "length l \<le> n" and "n = length l \<or> peek s = CHR ''.''"
  shows "idna__host_label_length (l @ s) n = length l"
proof -
  have all: "takeWhile (\<lambda>c. c \<noteq> CHR ''.'' \<and> c \<noteq> CHR '':'' \<and> c \<noteq> NUL) (l @ t) = l @ takeWhile (\<lambda>c. c \<noteq> CHR ''.'' \<and> c \<noteq> CHR '':'' \<and> c \<noteq> NUL) t" for t
    using assms(1) ldh_char_inside by (intro takeWhile_append2) (auto simp: ldh_label_def list_all_iff)
  have "takeWhile (\<lambda>c. c \<noteq> CHR ''.'' \<and> c \<noteq> CHR '':'' \<and> c \<noteq> NUL) (take k s) = []" if "k = 0 \<or> peek s = CHR ''.''" for k
    using that by (cases k; cases s) simp_all
  then show ?thesis
    using assms(2,3) all by (simp add: label_length)
qed

lemma is_ldh_label: "ldh_label l \<Longrightarrow> idna__is_ldh (l @ s) (length l)"
proof -
  assume l: "ldh_label l"
  then have "(l @ s) ! 0 = hd l" "(l @ s) ! (length l - 1) = last l"
    by (simp_all add: ldh_label_def nth_append hd_conv_nth last_conv_nth)
  then show ?thesis
    using l by (simp add: idna__is_ldh_def ldh_label_def)
qed

lemma encode_dotted:
  "ls \<noteq> [] \<Longrightarrow> list_all ldh_label ls \<Longrightarrow> peek rest = NUL \<or> peek rest = CHR '':'' \<Longrightarrow> length fqdn + length (dotted ls) + 1 \<le> 256 \<Longrightarrow>
     convert_labels encode_label (dotted ls @ rest) (length (dotted ls)) fqdn m = Some (Inr (fqdn @ dotted ls @ ''.''), m)"
proof (induction ls arbitrary: fqdn rule: dotted.induct)
  case (2 l)
  then have n: "idna__host_label_length (l @ rest) (length l) = length l" "l \<noteq> []"
    using ldh_label_length [of l "length l" rest] by (simp_all add: ldh_label_def)
  then show ?case
    using 2 is_ldh_label [of l rest] by (subst encode_labels_step) simp
next
  case (3 l l' ls)
  let ?more = "dotted (l' # ls)"
  have n: "idna__host_label_length (l @ CHR ''.'' # ?more @ rest) (length (l @ CHR ''.'' # ?more)) = length l" "l \<noteq> []"
    using 3 ldh_label_length [of l "length (l @ CHR ''.'' # ?more)" "CHR ''.'' # ?more @ rest"] by (auto simp: ldh_label_def)
  have len: "sub64 (sub64 (length (l @ CHR ''.'' # ?more)) (length l)) 1 = length ?more"
    using 3 by (simp add: sub64_le)
  have "convert_labels encode_label (?more @ rest) (length ?more) (fqdn @ l @ ''.'') m = Some (Inr ((fqdn @ l @ ''.'') @ ?more @ ''.''), m)"
    using 3 by (intro "3.IH") auto
  then show ?case
    using 3 n len is_ldh_label [of l "CHR ''.'' # ?more @ rest"] by (subst encode_labels_step) (simp add: Let_def)
qed simp

lemma dotted_no_NUL: "list_all ldh_label ls \<Longrightarrow> c_string (dotted ls) = dotted ls"
proof -
  have "list_all ldh_label ls \<Longrightarrow> \<forall>c \<in> set (dotted ls). c \<noteq> NUL"
    by (induction ls rule: dotted.induct) (auto simp: ldh_label_def list_all_iff dest: ldh_char_inside)
  then show "list_all ldh_label ls \<Longrightarrow> c_string (dotted ls) = dotted ls"
    by (simp add: c_string_def takeWhile_eq_all_conv)
qed

section \<open>Properties\<close>



text \<open>
  C20. A host name made of labels of letters, digits and inner hyphens, with at most 255 bytes, is its own
  encoding, whether a port follows it or not.
\<close>

theorem idna_encode_plain:
  assumes "ls \<noteq> []" and "list_all ldh_label ls" and "peek rest = NUL \<or> peek rest = CHR '':''" and "length (dotted ls) \<le> 255"
  shows "idna_encode (dotted ls @ rest) (length (dotted ls)) m =
    (case strdup (dotted ls) m of (s, m') \<Rightarrow> Some (Inr (s, length (dotted ls)), m'))"
proof -
  have "idna__host_label_length (dotted ls @ rest) (length (dotted ls)) \<noteq> 0"
  proof (cases ls rule: dotted.cases)
    case (2 l)
    then show ?thesis
      using assms(2) ldh_label_length [of l "length l" rest] by (simp add: ldh_label_def)
  next
    case (3 l l' ls')
    then show ?thesis
      using assms(2) ldh_label_length [of l "length (dotted ls)" "CHR ''.'' # dotted (l' # ls') @ rest"] by (simp add: ldh_label_def)
  qed (use assms(1) in simp)
  then show ?thesis
    using encode_dotted [OF assms(1-3), of "[]"] assms(2,4) by (simp add: idna_encode_def convert_host_def butlast_append dotted_no_NUL)
qed

theorem idna_encode_plain_witness:
  "idna_encode ''www.ex-1.org:80'' 12 (fresh_mem []) = (case strdup ''www.ex-1.org'' (fresh_mem []) of (s, m') \<Rightarrow> Some (Inr (s, 12), m'))"
proof -
  have "list_all ldh_label [''www'', ''ex-1'', ''org'']"
    by code_simp
  then show ?thesis
    using idna_encode_plain [of "[''www'', ''ex-1'', ''org'']" "'':80''" "fresh_mem []"] by (simp add: eval_nat_numeral)
qed

section \<open>Findings\<close>

text \<open>The array on the stack is written behind its end for every longer name.\<close>

lemma long_name_overflows:
  assumes "ldh_label l" and "255 < length l"
  shows "idna_encode l (length l) m = None"
proof -
  have "idna__host_label_length l (length l) = length l" "l \<noteq> []"
    using assms(1) ldh_label_length [of l "length l" "[]"] by (simp_all add: ldh_label_def)
  then show ?thesis
    using assms is_ldh_label [OF assms(1), of "[]"] by (simp add: idna_encode_def convert_host_def encode_labels_step [of l])
qed

text \<open>An empty label ends the name: what follows it is dropped, and so is what follows a colon.\<close>

lemma empty_label_cuts: "idna_encode ''a..b'' 4 (fresh_mem []) = idna_encode ''a'' 1 (fresh_mem [])"
  by (simp add: idna_encode_def convert_host_def encode_labels_step [of "''a..b''"] encode_labels_step [of "''.b''"] encode_labels_step [of "''a''"]
      encode_labels_step [of "''a:b''"] label_length sub64_le take_Cons' idna__is_ldh_def is_ldh_char_def ascii_is_alpha_def ascii_is_alpha_lower_def)

lemma colon_cuts: "idna_encode ''a:b'' 3 (fresh_mem []) = idna_encode ''a'' 1 (fresh_mem [])"
  by (simp add: idna_encode_def convert_host_def encode_labels_step [of "''a..b''"] encode_labels_step [of "''.b''"] encode_labels_step [of "''a''"]
      encode_labels_step [of "''a:b''"] label_length sub64_le take_Cons' idna__is_ldh_def is_ldh_char_def ascii_is_alpha_def ascii_is_alpha_lower_def)

text \<open>When memory runs out the result is a null pointer, although the function reports success.\<close>

lemma null_name: "map_option fst (idna_encode ''a'' 1 (fresh_mem [False])) = Some (Inr (None, 1))"
  by code_simp

text \<open>No encoded name can be shown decoded: the conversion to UTF-8 is not there.\<close>

lemma ace_not_decoded: "idna__is_ace host n \<Longrightarrow> decode_label host n fqdn m = Some (r, m1) \<Longrightarrow> \<exists>e. r = Inl e"
  by (auto simp: decode_label_def idna__ucs4_to_utf8_def bind_eq_Some_conv split: sum.split_asm prod.split_asm)
    (metis sum.exhaust)+

lemma encoded_never_decoded:
  assumes "idna__is_ace host n" and n: "n = idna__host_label_length host len" "n \<noteq> 0"
  shows "idna_decode host len m \<noteq> Some (Inr r, m')"
proof (cases "decode_label host n [] m")
  case None
  then show ?thesis
    using n by (simp add: idna_decode_def convert_host_def convert_labels.simps [of _ host] Let_def)
next
  case (Some p)
  then obtain e m1 where "p = (Inl e, m1)"
    using ace_not_decoded [OF assms(1), of "[]" m] by (cases p) auto
  then show ?thesis
    using n Some by (simp add: idna_decode_def convert_host_def convert_labels.simps [of _ host] Let_def)
qed

end
