(* ===== verification/Bloom.thy ===== *)
theory Bloom
  imports Prelude
begin

unbundle bit_operations_syntax

text \<open>
  \<^verbatim>\<open>src/utils/bloom.c\<close>: the Bloom filter the URL database consults before it walks its
  trees. The filter is a \<^verbatim>\<open>size_t\<close> size, a 32 bit item counter and an array of bytes.
  The model returns \<open>None\<close> where the C code has no defined behaviour (a modulus by zero, an
  index outside the array); the theorems show that this never happens to a filter made by
  \<open>bloom_create\<close> with a size from 1 to \<open>2 ^ 61 - 1\<close> bytes.

  The plain \<^verbatim>\<open>char\<close> of the hashed string is signed (as on the platforms the program is
  built for), so \<^verbatim>\<open>z ^= *datum++\<close> sign-extends the byte: \<open>scast\<close>.
\<close>

section \<open>The hash function\<close>

definition char_int32 :: "char \<Rightarrow> 32 word" where
  "char_int32 c = scast (of_char c :: 8 word)"

fun fnv_loop :: "32 word \<Rightarrow> string \<Rightarrow> 32 word" where
  "fnv_loop z [] = z"
| "fnv_loop z (c # datum) = fnv_loop ((z * 0x01000193) XOR char_int32 c) datum"

definition fnv :: "string option \<Rightarrow> 32 word" where
  "fnv datum = (case datum of None \<Rightarrow> 0 | Some d \<Rightarrow> fnv_loop 0x811c9dc5 d)"

section \<open>The filter\<close>

record bloom_filter =
  bf_size :: "64 word"
  bf_items :: "32 word"
  bf_filter :: "8 word list"

definition bloom_create :: "64 word \<Rightarrow> mem \<Rightarrow> bloom_filter option \<times> mem" where
  "bloom_create sz m = (case malloc m of (ok, m') \<Rightarrow>
     (if ok then Some \<lparr>bf_size = sz, bf_items = 0, bf_filter = replicate (unat sz) 0\<rparr> else None, m'))"

definition bloom_destroy :: "bloom_filter \<Rightarrow> mem \<Rightarrow> mem" where
  "bloom_destroy b m = free_block m"

text \<open>\<^verbatim>\<open>hash % (b->size << 3)\<close>, in 64 bits, stored in an \<^verbatim>\<open>unsigned int\<close>.\<close>

definition bloom_index :: "bloom_filter \<Rightarrow> 32 word \<Rightarrow> 32 word option" where
  "bloom_index b hash =
     (if push_bit 3 (bf_size b) = 0 then None
      else Some (ucast ((ucast hash :: 64 word) mod push_bit 3 (bf_size b))))"

definition bloom_insert_hash :: "bloom_filter \<Rightarrow> 32 word \<Rightarrow> bloom_filter option" where
  "bloom_insert_hash b hash =
     (case bloom_index b hash of None \<Rightarrow> None | Some index \<Rightarrow>
        let byte_index = unat (drop_bit 3 index); bit_index = unat (index AND 7) in
        if byte_index < length (bf_filter b) then
          Some (b\<lparr>bf_filter := (bf_filter b)[byte_index :=
                    bf_filter b ! byte_index OR push_bit bit_index 1],
                 bf_items := bf_items b + 1\<rparr>)
        else None)"

definition bloom_search_hash :: "bloom_filter \<Rightarrow> 32 word \<Rightarrow> bool option" where
  "bloom_search_hash b hash =
     (case bloom_index b hash of None \<Rightarrow> None | Some index \<Rightarrow>
        let byte_index = unat (drop_bit 3 index); bit_index = unat (index AND 7) in
        if byte_index < length (bf_filter b) then
          Some ((bf_filter b ! byte_index) AND push_bit bit_index 1 \<noteq> 0)
        else None)"

definition bloom_insert_str :: "bloom_filter \<Rightarrow> string option \<Rightarrow> bloom_filter option" where
  "bloom_insert_str b s = (let hash = fnv s in bloom_insert_hash b hash)"

definition bloom_search_str :: "bloom_filter \<Rightarrow> string option \<Rightarrow> bool option" where
  "bloom_search_str b s = (let hash = fnv s in bloom_search_hash b hash)"

definition bloom_items :: "bloom_filter \<Rightarrow> 32 word" where
  "bloom_items b = bf_items b"

section \<open>The bits of a filter\<close>

text \<open>
  A filter is well formed when its array has the recorded number of bytes and the bit
  count fits the arithmetic. The abstract state is the set of bit positions that are set.
\<close>

definition bloom_wf :: "bloom_filter \<Rightarrow> bool" where
  "bloom_wf b \<longleftrightarrow> 0 < unat (bf_size b) \<and> unat (bf_size b) < 2 ^ 61 \<and>
     length (bf_filter b) = unat (bf_size b)"

definition bit_pos :: "bloom_filter \<Rightarrow> 32 word \<Rightarrow> nat" where
  "bit_pos b hash = unat hash mod (8 * unat (bf_size b))"

definition bloom_bits :: "bloom_filter \<Rightarrow> nat set" where
  "bloom_bits b = {i. i div 8 < length (bf_filter b) \<and> bit (bf_filter b ! (i div 8)) (i mod 8)}"

lemma unat_push_bit_3: "unat (w :: 64 word) < 2 ^ 61 \<Longrightarrow> unat (push_bit 3 w) = 8 * unat w"
  by (simp add: push_bit_eq_mult unat_word_ariths)

lemma bloom_index_wf:
  assumes "bloom_wf b"
  shows "\<exists>index. bloom_index b h = Some index \<and> unat index = bit_pos b h"
proof -
  let ?n = "push_bit 3 (bf_size b)"
  have n: "unat ?n = 8 * unat (bf_size b)"
    using assms by (simp add: bloom_wf_def unat_push_bit_3)
  have nz: "?n \<noteq> 0"
    using assms n by (auto simp: bloom_wf_def)
  have "unat (ucast h :: 64 word) = unat h"
    using unat_less_exp [of h] by (simp add: unsigned_ucast_eq take_bit_nat_eq_self)
  then have m: "unat ((ucast h :: 64 word) mod ?n) = bit_pos b h"
    by (simp add: unat_mod n bit_pos_def)
  have "bit_pos b h \<le> unat h"
    by (simp add: bit_pos_def)
  then have "bit_pos b h < 2 ^ 32"
    using unat_less_exp [of h] by simp
  then have "unat (ucast ((ucast h :: 64 word) mod ?n) :: 32 word) = bit_pos b h"
    by (simp add: unsigned_ucast_eq m take_bit_nat_eq_self)
  then show ?thesis
    using nz by (simp add: bloom_index_def)
qed

lemma unat_drop_bit_3: "unat (drop_bit 3 (i :: 32 word)) = unat i div 8"
  by (simp add: drop_bit_eq_div unat_div)

lemma unat_and_7: "unat ((i :: 32 word) AND 7) = unat i mod 8"
proof -
  have "i AND 7 = take_bit 3 i"
    by (simp add: take_bit_eq_mask mask_eq_exp_minus_1)
  then show ?thesis
    by (simp add: take_bit_eq_mod unat_mod)
qed

lemma bit_pos_byte: "bloom_wf b \<Longrightarrow> bit_pos b h div 8 < length (bf_filter b)"
proof -
  assume wf: "bloom_wf b"
  then have "bit_pos b h < length (bf_filter b) * 8"
    by (simp add: bit_pos_def bloom_wf_def mult.commute)
  then show ?thesis
    by (rule less_mult_imp_div_less)
qed

lemma and_exp_iff: "k < 8 \<Longrightarrow> (w :: 8 word) AND 2 ^ k \<noteq> 0 \<longleftrightarrow> bit w k"
  using bit_iff_and_push_bit_not_eq_0 [of w k] by simp

lemma bit_or_exp: "j < 8 \<Longrightarrow> bit ((w :: 8 word) OR 2 ^ k) j \<longleftrightarrow> bit w j \<or> j = k"
  by (auto simp: bit_or_iff bit_exp_iff)

lemma bloom_search_hash_wf:
  assumes "bloom_wf b"
  shows "bloom_search_hash b h = Some (bit_pos b h \<in> bloom_bits b)"
proof -
  obtain index where i: "bloom_index b h = Some index" "unat index = bit_pos b h"
    using bloom_index_wf [OF assms] by blast
  show ?thesis
    using bit_pos_byte [OF assms, of h]
    by (simp add: bloom_search_hash_def i Let_def unat_drop_bit_3 unat_and_7 bloom_bits_def
        and_exp_iff)
qed

lemma bloom_insert_hash_wf:
  assumes "bloom_wf b"
  shows "\<exists>b'. bloom_insert_hash b h = Some b' \<and> bloom_wf b' \<and> bf_size b' = bf_size b \<and>
           bf_items b' = bf_items b + 1 \<and> bloom_bits b' = insert (bit_pos b h) (bloom_bits b)"
proof -
  obtain index where i: "bloom_index b h = Some index" "unat index = bit_pos b h"
    using bloom_index_wf [OF assms] by blast
  let ?p = "bit_pos b h"
  have lt: "?p div 8 < length (bf_filter b)"
    by (rule bit_pos_byte [OF assms])
  define b' where "b' = b\<lparr>bf_filter := (bf_filter b)[?p div 8 :=
      bf_filter b ! (?p div 8) OR push_bit (?p mod 8) 1], bf_items := bf_items b + 1\<rparr>"
  have "bloom_insert_hash b h = Some b'"
    using lt by (simp add: bloom_insert_hash_def i Let_def unat_drop_bit_3 unat_and_7 b'_def)
  moreover have "bloom_wf b'"
    using assms by (simp add: bloom_wf_def b'_def)
  moreover have "j \<in> bloom_bits b' \<longleftrightarrow> j = ?p \<or> j \<in> bloom_bits b" for j
  proof -
    have eq: "j = ?p \<longleftrightarrow> j div 8 = ?p div 8 \<and> j mod 8 = ?p mod 8"
      by (metis div_mult_mod_eq)
    show ?thesis
      using lt by (auto simp: bloom_bits_def b'_def nth_list_update bit_or_exp eq)
  qed
  ultimately show ?thesis
    by (auto simp: b'_def)
qed

section \<open>The interface: a set that may answer yes too often\<close>

text \<open>
  What the URL database relies on: a search always finds what was inserted, and an
  insertion never makes another search negative.
\<close>

locale membership_filter =
  fixes ins :: "'f \<Rightarrow> 'h \<Rightarrow> 'f option"
    and srch :: "'f \<Rightarrow> 'h \<Rightarrow> bool option"
    and inv :: "'f \<Rightarrow> bool"
  assumes ins_total: "inv f \<Longrightarrow> \<exists>f'. ins f h = Some f' \<and> inv f'"
    and srch_mono: "inv f \<Longrightarrow> ins f h = Some f' \<Longrightarrow> srch f k = Some True \<Longrightarrow> srch f' k = Some True"
    and srch_ins: "inv f \<Longrightarrow> ins f h = Some f' \<Longrightarrow> srch f' h = Some True"
begin

lemma ins_list_mono:
  "inv f \<Longrightarrow> srch f k = Some True \<Longrightarrow> foldM ins f hs = Some f' \<Longrightarrow> srch f' k = Some True"
proof (induction hs arbitrary: f)
  case Nil
  then show ?case by simp
next
  case (Cons h hs)
  obtain f1 where f1: "ins f h = Some f1" "inv f1"
    using ins_total [OF Cons.prems(1)] by blast
  with Cons show ?case
    using srch_mono [OF Cons.prems(1) f1(1) Cons.prems(2)] by simp
qed

lemma no_false_negative:
  "inv f \<Longrightarrow> \<exists>f'. foldM ins f hs = Some f' \<and> inv f' \<and> (\<forall>h \<in> set hs. srch f' h = Some True)"
proof (induction hs arbitrary: f)
  case Nil
  then show ?case by simp
next
  case (Cons h hs)
  obtain f1 where f1: "ins f h = Some f1" "inv f1"
    using ins_total [OF Cons.prems] by blast
  then obtain f2 where f2: "foldM ins f1 hs = Some f2" "inv f2" "\<forall>k \<in> set hs. srch f2 k = Some True"
    using Cons.IH by blast
  have "srch f2 h = Some True"
    using ins_list_mono [OF f1(2) srch_ins [OF Cons.prems f1(1)] f2(1)] .
  with f1 f2 show ?case by simp
qed

end

interpretation bloom: membership_filter bloom_insert_hash bloom_search_hash bloom_wf
proof unfold_locales
  fix f h
  assume "bloom_wf f"
  then show "\<exists>f'. bloom_insert_hash f h = Some f' \<and> bloom_wf f'"
    using bloom_insert_hash_wf by blast
next
  fix f f' h k
  assume "bloom_wf f" "bloom_insert_hash f h = Some f'" "bloom_search_hash f k = Some True"
  then show "bloom_search_hash f' k = Some True"
    using bloom_insert_hash_wf [of f h] by (auto simp: bloom_search_hash_wf bit_pos_def)
next
  fix f f' h
  assume "bloom_wf f" "bloom_insert_hash f h = Some f'"
  then show "bloom_search_hash f' h = Some True"
    using bloom_insert_hash_wf [of f h] by (auto simp: bloom_search_hash_wf bit_pos_def)
qed

section \<open>Properties\<close>

lemma bloom_create_wf:
  "0 < unat sz \<Longrightarrow> unat sz < 2 ^ 61 \<Longrightarrow> bloom_create sz m = (Some b, m') \<Longrightarrow>
     bloom_wf b \<and> bloom_bits b = {} \<and> bf_size b = sz \<and> bf_items b = 0"
  by (auto simp: bloom_create_def bloom_wf_def bloom_bits_def split: prod.splits if_splits)

lemma bloom_insert_list_bits:
  "bloom_wf b \<Longrightarrow> foldM bloom_insert_hash b hs = Some b' \<Longrightarrow>
     bloom_wf b' \<and> bf_size b' = bf_size b \<and> bf_items b' = bf_items b + of_nat (length hs) \<and>
     bloom_bits b' = bloom_bits b \<union> bit_pos b ` set hs"
proof (induction hs arbitrary: b)
  case Nil
  then show ?case by simp
next
  case (Cons h hs)
  obtain b1 where b1: "bloom_insert_hash b h = Some b1" "bloom_wf b1" "bf_size b1 = bf_size b"
      "bf_items b1 = bf_items b + 1" "bloom_bits b1 = insert (bit_pos b h) (bloom_bits b)"
    using bloom_insert_hash_wf [OF Cons.prems(1)] by blast
  with Cons have "bloom_wf b' \<and> bf_size b' = bf_size b1 \<and>
      bf_items b' = bf_items b1 + of_nat (length hs) \<and>
      bloom_bits b' = bloom_bits b1 \<union> bit_pos b1 ` set hs"
    by simp
  with b1 show ?case
    by (auto simp: bit_pos_def algebra_simps)
qed

text \<open>
  C33. The Bloom filter has no false negatives and no undefined behaviour: starting from
  a filter that \<open>bloom_create\<close> returned for a size of 1 to \<open>2 ^ 61 - 1\<close> bytes, inserting
  any sequence of hashes succeeds (no modulus by zero, no byte outside the array), and
  afterwards every inserted hash is found.
\<close>

theorem bloom_no_false_negatives:
  assumes "0 < unat sz" and "unat sz < 2 ^ 61" and "bloom_create sz m = (Some b, m')"
  shows "\<exists>b'. foldM bloom_insert_hash b hs = Some b' \<and>
           (\<forall>h \<in> set hs. bloom_search_hash b' h = Some True)"
  using bloom.no_false_negative [of b hs] bloom_create_wf [OF assms] by blast

theorem bloom_no_false_negatives_witness:
  "\<exists>b'. foldM bloom_insert_hash \<lparr>bf_size = 2, bf_items = 0, bf_filter = [0, 0]\<rparr> [17, 255] = Some b' \<and>
     (\<forall>h \<in> set [17, 255]. bloom_search_hash b' h = Some True)"
proof (rule bloom_no_false_negatives)
  show "bloom_create 2 (fresh_mem []) =
      (Some \<lparr>bf_size = 2, bf_items = 0, bf_filter = [0, 0]\<rparr>, (fresh_mem [])\<lparr>mem_blocks := 1\<rparr>)"
    by code_simp
qed simp_all

text \<open>
  Exactly when the filter answers yes: after a sequence of insertions into a created
  filter, a search for \<open>k\<close> succeeds precisely when some inserted hash is congruent to \<open>k\<close>
  modulo the number of bits, and the item counter is the number of insertions modulo
  \<open>2 ^ 32\<close>.
\<close>

theorem bloom_search_characterised:
  assumes "0 < unat sz" and "unat sz < 2 ^ 61" and "bloom_create sz m = (Some b, m')"
    and "foldM bloom_insert_hash b hs = Some b'"
  shows "bloom_search_hash b' k =
           Some (\<exists>h \<in> set hs. unat k mod (8 * unat sz) = unat h mod (8 * unat sz)) \<and>
         bloom_items b' = of_nat (length hs)"
proof -
  note c = bloom_create_wf [OF assms(1-3)]
  note i = bloom_insert_list_bits [OF c [THEN conjunct1] assms(4)]
  from c i have "bloom_search_hash b' k = Some (bit_pos b' k \<in> bloom_bits b')"
    by (simp add: bloom_search_hash_wf)
  with c i have "bloom_search_hash b' k =
      Some (\<exists>h \<in> set hs. unat k mod (8 * unat sz) = unat h mod (8 * unat sz))"
    by (simp add: bit_pos_def image_iff)
  moreover have "bloom_items b' = of_nat (length hs)"
    using c i by (simp add: bloom_items_def)
  ultimately show ?thesis
    by (rule conjI)
qed

theorem bloom_search_characterised_witness:
  "bloom_search_hash \<lparr>bf_size = 2, bf_items = 2, bf_filter = [2, 128]\<rparr> 33 = Some True"
proof -
  have c: "bloom_create 2 (fresh_mem []) =
      (Some \<lparr>bf_size = 2, bf_items = 0, bf_filter = [0, 0]\<rparr>, (fresh_mem [])\<lparr>mem_blocks := 1\<rparr>)"
    by code_simp
  have i: "foldM bloom_insert_hash \<lparr>bf_size = 2, bf_items = 0, bf_filter = [0, 0]\<rparr> [17, 255] =
      Some \<lparr>bf_size = 2, bf_items = 2, bf_filter = [2, 128]\<rparr>"
    by code_simp
  show ?thesis
    using bloom_search_characterised [OF _ _ c i, of 33] by simp
qed

end
