(* ===== verification/Hash_Map.thy ===== *)
theory Hash_Map
  imports Prelude
begin

unbundle bit_operations_syntax

text \<open>
  \<^verbatim>\<open>src/utils/hashmap.c\<close>, \<^verbatim>\<open>hashmap.h\<close>: the generic hash map with chained buckets. The table of
  function pointers \<^verbatim>\<open>hashmap_parameters_t\<close> is the record \<open>hashmap_parameters\<close>, whose
  functions take and return the allocator state. A bucket is the list of its entries in
  chain order (\<^verbatim>\<open>prevptr\<close> only says where the cell's pointer is stored, so removing the
  cell it points from is removing the element from the list). Values are handles: the code
  gives out the pointer \<^verbatim>\<open>value_alloc\<close> returned.

  The locale \<open>hashmap_callbacks\<close> states what \<^verbatim>\<open>hashmap.h\<close> asks of the callbacks; in it the
  operations are shown to implement a finite map up to \<open>key_eq\<close> (the locale
  \<open>keyed_store\<close>) and to keep the books of the allocator.
\<close>

section \<open>Data\<close>

record ('k, 'v) hashmap_parameters =
  key_clone :: "'k \<Rightarrow> mem \<Rightarrow> 'k option \<times> mem"
  key_hash :: "'k \<Rightarrow> 32 word"
  key_eq :: "'k \<Rightarrow> 'k \<Rightarrow> bool"
  key_destroy :: "'k \<Rightarrow> mem \<Rightarrow> mem"
  value_alloc :: "'k \<Rightarrow> mem \<Rightarrow> 'v option \<times> mem"
  value_destroy :: "'v \<Rightarrow> mem \<Rightarrow> mem"

record ('k, 'v) hashmap_entry =
  he_key :: 'k
  he_value :: 'v
  he_key_hash :: "32 word"

record ('k, 'v) hashmap =
  hm_buckets :: "('k, 'v) hashmap_entry list list"
  hm_bucket_count :: "32 word"
  hm_entry_count :: nat

definition DEFAULT_HASHMAP_BUCKETS :: "32 word" where
  "DEFAULT_HASHMAP_BUCKETS = 4091"

section \<open>Operations\<close>

definition hashmap_create :: "mem \<Rightarrow> ('k, 'v) hashmap option \<times> mem" where
  "hashmap_create m =
     (case malloc m of (ok, m1) \<Rightarrow>
        if \<not> ok then (None, m1)
        else (case malloc m1 of (ok2, m2) \<Rightarrow>
          if \<not> ok2 then (None, free_block m2)
          else (Some \<lparr>hm_buckets = replicate (unat DEFAULT_HASHMAP_BUCKETS) [],
                      hm_bucket_count = DEFAULT_HASHMAP_BUCKETS, hm_entry_count = 0\<rparr>, m2)))"

fun destroy_chain ::
  "('k, 'v) hashmap_parameters \<Rightarrow> ('k, 'v) hashmap_entry list \<Rightarrow> mem \<Rightarrow> mem" where
  "destroy_chain p [] m = m"
| "destroy_chain p (e # es) m =
     destroy_chain p es (free_block (key_destroy p (he_key e) (value_destroy p (he_value e) m)))"

definition hashmap_destroy :: "('k, 'v) hashmap_parameters \<Rightarrow> ('k, 'v) hashmap \<Rightarrow> mem \<Rightarrow> mem" where
  "hashmap_destroy p hm m =
     (let m' = fold (destroy_chain p) (hm_buckets hm) m in free_block (free_block m'))"

text \<open>
  The loop that lookup, insert and remove share: the position of the first entry of the
  chain with this hash and an equal key.
\<close>

fun chain_find ::
  "('k, 'v) hashmap_parameters \<Rightarrow> 32 word \<Rightarrow> 'k \<Rightarrow> ('k, 'v) hashmap_entry list \<Rightarrow> nat option" where
  "chain_find p hash key [] = None"
| "chain_find p hash key (e # es) =
     (if he_key_hash e = hash \<and> key_eq p key (he_key e) then Some 0
      else map_option Suc (chain_find p hash key es))"

definition hashmap_bucket :: "('k, 'v) hashmap \<Rightarrow> 32 word \<Rightarrow> nat" where
  "hashmap_bucket hm hash = unat (hash mod hm_bucket_count hm)"

definition hashmap_lookup ::
  "('k, 'v) hashmap_parameters \<Rightarrow> ('k, 'v) hashmap \<Rightarrow> 'k \<Rightarrow> 'v option" where
  "hashmap_lookup p hm key =
     (let hash = key_hash p key; chain = hm_buckets hm ! hashmap_bucket hm hash in
      case chain_find p hash key chain of None \<Rightarrow> None | Some i \<Rightarrow> Some (he_value (chain ! i)))"

definition hashmap_insert ::
  "('k, 'v) hashmap_parameters \<Rightarrow> ('k, 'v) hashmap \<Rightarrow> 'k \<Rightarrow> mem \<Rightarrow>
     'v option \<times> ('k, 'v) hashmap \<times> mem" where
  "hashmap_insert p hm key m =
     (let hash = key_hash p key; bucket = hashmap_bucket hm hash; chain = hm_buckets hm ! bucket in
      case chain_find p hash key chain of
        Some i \<Rightarrow>
          (case key_clone p key m of
             (None, m1) \<Rightarrow> (None, hm, m1)
           | (Some new_key, m1) \<Rightarrow>
               (case value_alloc p (he_key (chain ! i)) m1 of
                  (None, m2) \<Rightarrow> (None, hm, key_destroy p new_key m2)
                | (Some new_value, m2) \<Rightarrow>
                    (let m3 = value_destroy p (he_value (chain ! i)) m2;
                         m4 = key_destroy p (he_key (chain ! i)) m3;
                         e = (chain ! i)\<lparr>he_value := new_value, he_key := new_key\<rparr> in
                     (Some new_value, hm\<lparr>hm_buckets := (hm_buckets hm)[bucket := chain[i := e]]\<rparr>, m4))))
      | None \<Rightarrow>
          (case malloc m of (ok, m0) \<Rightarrow>
             if \<not> ok then (None, hm, m0)
             else (case key_clone p key m0 of
                (None, m1) \<Rightarrow> (None, hm, free_block m1)
              | (Some new_key, m1) \<Rightarrow>
                  (case value_alloc p new_key m1 of
                     (None, m2) \<Rightarrow> (None, hm, free_block (key_destroy p new_key m2))
                   | (Some new_value, m2) \<Rightarrow>
                       (let e = \<lparr>he_key = new_key, he_value = new_value, he_key_hash = hash\<rparr> in
                        (Some new_value,
                         hm\<lparr>hm_buckets := (hm_buckets hm)[bucket := e # chain],
                            hm_entry_count := hm_entry_count hm + 1\<rparr>, m2))))))"

definition hashmap_remove ::
  "('k, 'v) hashmap_parameters \<Rightarrow> ('k, 'v) hashmap \<Rightarrow> 'k \<Rightarrow> mem \<Rightarrow>
     bool \<times> ('k, 'v) hashmap \<times> mem" where
  "hashmap_remove p hm key m =
     (let hash = key_hash p key; bucket = hashmap_bucket hm hash; chain = hm_buckets hm ! bucket in
      case chain_find p hash key chain of
        None \<Rightarrow> (False, hm, m)
      | Some i \<Rightarrow>
          (let m1 = value_destroy p (he_value (chain ! i)) m;
               m2 = key_destroy p (he_key (chain ! i)) m1;
               m3 = free_block m2 in
           (True, hm\<lparr>hm_buckets := (hm_buckets hm)[bucket := take i chain @ drop (Suc i) chain],
                     hm_entry_count := hm_entry_count hm - 1\<rparr>, m3)))"

text \<open>
  The callback of \<^verbatim>\<open>hashmap_iterate\<close> updates the caller's context and answers whether to
  stop.
\<close>

fun iterate_chain ::
  "('k \<Rightarrow> 'v \<Rightarrow> 'c \<Rightarrow> bool \<times> 'c) \<Rightarrow> ('k, 'v) hashmap_entry list \<Rightarrow> 'c \<Rightarrow> bool \<times> 'c" where
  "iterate_chain cb [] ctx = (False, ctx)"
| "iterate_chain cb (e # es) ctx =
     (case cb (he_key e) (he_value e) ctx of (stop, ctx') \<Rightarrow>
        if stop then (True, ctx') else iterate_chain cb es ctx')"

fun iterate_buckets ::
  "('k \<Rightarrow> 'v \<Rightarrow> 'c \<Rightarrow> bool \<times> 'c) \<Rightarrow> ('k, 'v) hashmap_entry list list \<Rightarrow> 'c \<Rightarrow> bool \<times> 'c" where
  "iterate_buckets cb [] ctx = (False, ctx)"
| "iterate_buckets cb (b # bs) ctx =
     (case iterate_chain cb b ctx of (stop, ctx') \<Rightarrow>
        if stop then (True, ctx') else iterate_buckets cb bs ctx')"

definition hashmap_iterate ::
  "('k, 'v) hashmap \<Rightarrow> ('k \<Rightarrow> 'v \<Rightarrow> 'c \<Rightarrow> bool \<times> 'c) \<Rightarrow> 'c \<Rightarrow> bool \<times> 'c" where
  "hashmap_iterate hm cb ctx = iterate_buckets cb (hm_buckets hm) ctx"

definition hashmap_count :: "('k, 'v) hashmap \<Rightarrow> nat" where
  "hashmap_count hm = hm_entry_count hm"

text \<open>
  A client keeps the pointer that a lookup gave and writes through it: the entry of the key
  changes in place.
\<close>

definition hashmap_modify ::
  "('k, 'v) hashmap_parameters \<Rightarrow> ('k, 'v) hashmap \<Rightarrow> 'k \<Rightarrow> ('v \<Rightarrow> 'v) \<Rightarrow> ('k, 'v) hashmap" where
  "hashmap_modify p hm key f =
     (let hash = key_hash p key; bucket = hashmap_bucket hm hash; chain = hm_buckets hm ! bucket in
      case chain_find p hash key chain of
        None \<Rightarrow> hm
      | Some i \<Rightarrow> hm\<lparr>hm_buckets := (hm_buckets hm)[bucket :=
          chain[i := (chain ! i)\<lparr>he_value := f (he_value (chain ! i))\<rparr>]]\<rparr>)"

lemma hashmap_modify_count [simp]: "hashmap_count (hashmap_modify p hm k f) = hashmap_count hm"
  by (simp add: hashmap_modify_def hashmap_count_def Let_def split: option.split)

section \<open>Invariant\<close>

definition entry_ok ::
  "('k \<Rightarrow> bool) \<Rightarrow> ('k, 'v) hashmap_parameters \<Rightarrow> 32 word \<Rightarrow> nat \<Rightarrow> ('k, 'v) hashmap_entry \<Rightarrow> bool" where
  "entry_ok valid p bc b e \<longleftrightarrow>
     valid (he_key e) \<and> he_key_hash e = key_hash p (he_key e) \<and> unat (he_key_hash e mod bc) = b"

fun chain_ok ::
  "('k \<Rightarrow> bool) \<Rightarrow> ('k, 'v) hashmap_parameters \<Rightarrow> 32 word \<Rightarrow> nat \<Rightarrow> ('k, 'v) hashmap_entry list \<Rightarrow> bool" where
  "chain_ok valid p bc b [] = True"
| "chain_ok valid p bc b (e # es) =
     (entry_ok valid p bc b e \<and> (\<forall>f \<in> set es. \<not> key_eq p (he_key e) (he_key f)) \<and> chain_ok valid p bc b es)"

lemma chain_ok_entries: "chain_ok valid p bc b chain \<Longrightarrow> e \<in> set chain \<Longrightarrow> entry_ok valid p bc b e"
  by (induction chain) auto

definition hashmap_inv ::
  "('k \<Rightarrow> bool) \<Rightarrow> ('k, 'v) hashmap_parameters \<Rightarrow> ('k, 'v) hashmap \<Rightarrow> bool" where
  "hashmap_inv valid p hm \<longleftrightarrow>
     0 < unat (hm_bucket_count hm) \<and> length (hm_buckets hm) = unat (hm_bucket_count hm) \<and>
     hm_entry_count hm = sum_list (map length (hm_buckets hm)) \<and>
     (\<forall>b < length (hm_buckets hm). chain_ok valid p (hm_bucket_count hm) b (hm_buckets hm ! b))"

definition chain_lookup ::
  "('k, 'v) hashmap_parameters \<Rightarrow> ('k, 'v) hashmap_entry list \<Rightarrow> 'k \<Rightarrow> 'v option" where
  "chain_lookup p chain k =
     map_option (\<lambda>i. he_value (chain ! i)) (chain_find p (key_hash p k) k chain)"

lemma chain_lookup_simps [simp]:
  "chain_lookup p [] k = None"
  "chain_lookup p (e # es) k =
     (if he_key_hash e = key_hash p k \<and> key_eq p k (he_key e) then Some (he_value e)
      else chain_lookup p es k)"
  by (simp_all add: chain_lookup_def option.map_comp comp_def)

lemma hashmap_lookup_chain:
  "hashmap_lookup p hm k =
     chain_lookup p (hm_buckets hm ! hashmap_bucket hm (key_hash p k)) k"
  by (simp add: hashmap_lookup_def chain_lookup_def Let_def split: option.split)

lemma chain_find_less: "chain_find p h k chain = Some i \<Longrightarrow> i < length chain"
  by (induction chain arbitrary: i) (auto split: if_splits)

lemma chain_find_entry:
  "chain_find p h k chain = Some i \<Longrightarrow> he_key_hash (chain ! i) = h \<and> key_eq p k (he_key (chain ! i))"
  by (induction chain arbitrary: i) (auto split: if_splits)

lemma hashmap_bucket_less:
  "hashmap_inv valid p hm \<Longrightarrow> hashmap_bucket hm h < length (hm_buckets hm)"
  by (simp add: hashmap_inv_def hashmap_bucket_def unat_mod)

lemma sum_list_length_update:
  "b < length bs \<Longrightarrow>
     sum_list (map length (bs[b := c])) + length (bs ! b) = sum_list (map length bs) + length c"
  by (induction bs arbitrary: b) (auto split: nat.splits)

lemma hashmap_inv_update:
  assumes "hashmap_inv valid p hm" and "b < length (hm_buckets hm)"
    and "chain_ok valid p (hm_bucket_count hm) b c"
    and "n + length (hm_buckets hm ! b) = hm_entry_count hm + length c"
  shows "hashmap_inv valid p (hm\<lparr>hm_buckets := (hm_buckets hm)[b := c], hm_entry_count := n\<rparr>)"
proof -
  have "n = sum_list (map length ((hm_buckets hm)[b := c]))"
    using assms sum_list_length_update [OF assms(2), of c] by (simp add: hashmap_inv_def)
  with assms show ?thesis
    by (auto simp: hashmap_inv_def nth_list_update)
qed

definition hashmap_entries :: "('k, 'v) hashmap \<Rightarrow> ('k \<times> 'v) list" where
  "hashmap_entries hm = map (\<lambda>e. (he_key e, he_value e)) (concat (hm_buckets hm))"

lemma hashmap_entries_count: "hashmap_inv valid p hm \<Longrightarrow> length (hashmap_entries hm) = hashmap_count hm"
  by (simp add: hashmap_inv_def hashmap_entries_def hashmap_count_def length_concat)

lemma iterate_chain_append:
  "iterate_chain cb (xs @ ys) ctx = (case iterate_chain cb xs ctx of (stop, ctx') \<Rightarrow>
     if stop then (True, ctx') else iterate_chain cb ys ctx')"
  by (induction xs arbitrary: ctx) (auto split: prod.splits)

lemma iterate_buckets_concat: "iterate_buckets cb bs ctx = iterate_chain cb (concat bs) ctx"
  by (induction bs arbitrary: ctx) (auto simp: iterate_chain_append split: prod.splits)

text \<open>A callback that stops at the first entry satisfying \<open>stop\<close> has seen the entries up to it.\<close>

lemma iterate_chain_collect:
  "iterate_chain (\<lambda>k v seen. (stop k v, seen @ [(k, v)])) es seen =
     (let kvs = map (\<lambda>e. (he_key e, he_value e)) es; pre = takeWhile (\<lambda>(k, v). \<not> stop k v) kvs in
      (\<exists>(k, v) \<in> set kvs. stop k v, seen @ take (Suc (length pre)) kvs))"
  by (induction es arbitrary: seen) (auto simp: Let_def)

lemma hashmap_iterate_collect:
  "hashmap_iterate hm (\<lambda>k v seen. (stop k v, seen @ [(k, v)])) [] =
     (\<exists>(k, v) \<in> set (hashmap_entries hm). stop k v,
      take (Suc (length (takeWhile (\<lambda>(k, v). \<not> stop k v) (hashmap_entries hm)))) (hashmap_entries hm))"
  by (simp add: hashmap_iterate_def iterate_buckets_concat iterate_chain_collect hashmap_entries_def Let_def)

section \<open>The interfaces\<close>

text \<open>
  What \<^verbatim>\<open>hashmap.h\<close> asks of the callbacks, with the footprint of a key and of a value. The
  keys a client uses are the \<open>valid\<close> ones.
\<close>

locale hashmap_callbacks =
  fixes valid :: "'k \<Rightarrow> bool"
    and p :: "('k, 'v) hashmap_parameters"
    and kfoot :: footprint
    and vfoot :: footprint
  assumes eq_refl: "key_eq p k k"
    and eq_sym: "key_eq p k k' \<Longrightarrow> key_eq p k' k"
    and eq_trans: "key_eq p k k' \<Longrightarrow> key_eq p k' k'' \<Longrightarrow> key_eq p k k''"
    and eq_hash: "key_eq p k k' \<Longrightarrow> valid k \<Longrightarrow> valid k' \<Longrightarrow> key_hash p k = key_hash p k'"
    and clone_eq: "key_clone p k m = (Some k', m') \<Longrightarrow> key_eq p k k'"
    and clone_valid: "key_clone p k m = (Some k', m') \<Longrightarrow> valid k \<Longrightarrow> valid k'"
    and clone_held: "key_clone p k m = (r, m') \<Longrightarrow> held m' = held m + (if r = None then 0 else kfoot)"
    and alloc_held: "value_alloc p k m = (s, m') \<Longrightarrow> held m' = held m + (if s = None then 0 else vfoot)"
    and key_destroy_held: "held (key_destroy p k m) = held m - kfoot"
    and value_destroy_held: "held (value_destroy p v m) = held m - vfoot"

text \<open>
  A client's run of operations, its record of what happened, and the finite map that this
  record describes.
\<close>

datatype 'k store_op = Put (op_key: 'k) | Del (op_key: 'k)

datatype ('k, 'v) store_event = Stored 'k "'v option" | Deleted 'k bool

fun store_run ::
  "('m \<Rightarrow> 'k \<Rightarrow> mem \<Rightarrow> 'v option \<times> 'm \<times> mem) \<Rightarrow> ('m \<Rightarrow> 'k \<Rightarrow> mem \<Rightarrow> bool \<times> 'm \<times> mem) \<Rightarrow>
     'k store_op list \<Rightarrow> 'm \<Rightarrow> mem \<Rightarrow> ('k, 'v) store_event list \<times> 'm \<times> mem" where
  "store_run ins rem [] s m = ([], s, m)"
| "store_run ins rem (Put k # ops) s m =
     (case ins s k m of (r, s1, m1) \<Rightarrow>
        (case store_run ins rem ops s1 m1 of (es, s2, m2) \<Rightarrow> (Stored k r # es, s2, m2)))"
| "store_run ins rem (Del k # ops) s m =
     (case rem s k m of (b, s1, m1) \<Rightarrow>
        (case store_run ins rem ops s1 m1 of (es, s2, m2) \<Rightarrow> (Deleted k b # es, s2, m2)))"

fun replay ::
  "('k \<Rightarrow> 'k \<Rightarrow> bool) \<Rightarrow> ('k \<Rightarrow> 'v option) \<Rightarrow> ('k, 'v) store_event list \<Rightarrow> 'k \<Rightarrow> 'v option" where
  "replay eqk f [] = f"
| "replay eqk f (Stored k None # es) = replay eqk f es"
| "replay eqk f (Stored k (Some v) # es) =
     replay eqk (\<lambda>k'. if eqk k k' then Some v else f k') es"
| "replay eqk f (Deleted k b # es) = replay eqk (\<lambda>k'. if eqk k k' then None else f k') es"

text \<open>
  What the clients of a map rely on: it is a finite map up to an equality of keys, and a
  failed insertion changes nothing.
\<close>

locale keyed_store =
  fixes valid :: "'k \<Rightarrow> bool"
    and eqk :: "'k \<Rightarrow> 'k \<Rightarrow> bool"
    and inv :: "'m \<Rightarrow> bool"
    and lookup :: "'m \<Rightarrow> 'k \<Rightarrow> 'v option"
    and ins :: "'m \<Rightarrow> 'k \<Rightarrow> mem \<Rightarrow> 'v option \<times> 'm \<times> mem"
    and rem :: "'m \<Rightarrow> 'k \<Rightarrow> mem \<Rightarrow> bool \<times> 'm \<times> mem"
  assumes ins_inv: "inv s \<Longrightarrow> valid k \<Longrightarrow> ins s k m = (r, s', m') \<Longrightarrow> inv s'"
    and ins_fail: "inv s \<Longrightarrow> valid k \<Longrightarrow> ins s k m = (None, s', m') \<Longrightarrow> s' = s"
    and ins_lookup: "inv s \<Longrightarrow> valid k \<Longrightarrow> valid k' \<Longrightarrow> ins s k m = (Some v, s', m') \<Longrightarrow>
      lookup s' k' = (if eqk k k' then Some v else lookup s k')"
    and rem_inv: "inv s \<Longrightarrow> valid k \<Longrightarrow> rem s k m = (b, s', m') \<Longrightarrow> inv s'"
    and rem_result: "inv s \<Longrightarrow> valid k \<Longrightarrow> rem s k m = (b, s', m') \<Longrightarrow> b \<longleftrightarrow> lookup s k \<noteq> None"
    and rem_lookup: "inv s \<Longrightarrow> valid k \<Longrightarrow> valid k' \<Longrightarrow> rem s k m = (b, s', m') \<Longrightarrow>
      lookup s' k' = (if eqk k k' then None else lookup s k')"
begin

lemma run_replay:
  "inv s \<Longrightarrow> \<forall>op \<in> set ops. valid (op_key op) \<Longrightarrow> (\<And>k. valid k \<Longrightarrow> lookup s k = f k) \<Longrightarrow>
     store_run ins rem ops s m = (es, s', m') \<Longrightarrow>
     inv s' \<and> (\<forall>k. valid k \<longrightarrow> lookup s' k = replay eqk f es k)"
proof (induction ops arbitrary: s m es f)
  case Nil
  then show ?case by simp
next
  case (Cons op ops)
  have ops: "\<forall>op \<in> set ops. valid (op_key op)" and k: "valid (op_key op)"
    using Cons.prems(2) by simp_all
  show ?case
  proof (cases op)
    case (Put k)
    with k have k: "valid k" by simp
    obtain r s1 m1 es1 where 1: "ins s k m = (r, s1, m1)" "store_run ins rem ops s1 m1 = (es1, s', m')"
        "es = Stored k r # es1"
      using Cons.prems(4) Put by (auto split: prod.splits)
    note IH = Cons.IH [OF ins_inv [OF Cons.prems(1) k 1(1)] ops _ 1(2)]
    show ?thesis
    proof (cases r)
      case None
      then show ?thesis
        using IH [of f] 1 ins_fail [OF Cons.prems(1) k] Cons.prems(3) by auto
    next
      case (Some v)
      then have "lookup s1 k' = (if eqk k k' then Some v else f k')" if "valid k'" for k'
        using ins_lookup [OF Cons.prems(1) k that] 1(1) Cons.prems(3) that by auto
      from IH [OF this] show ?thesis
        using 1(3) Some by simp
    qed
  next
    case (Del k)
    with k have k: "valid k" by simp
    obtain b s1 m1 es1 where 1: "rem s k m = (b, s1, m1)" "store_run ins rem ops s1 m1 = (es1, s', m')"
        "es = Deleted k b # es1"
      using Cons.prems(4) Del by (auto split: prod.splits)
    have "lookup s1 k' = (if eqk k k' then None else f k')" if "valid k'" for k'
      using rem_lookup [OF Cons.prems(1) k that 1(1)] Cons.prems(3) that by auto
    from Cons.IH [OF rem_inv [OF Cons.prems(1) k 1(1)] ops this 1(2)] show ?thesis
      using 1(3) by simp
  qed
qed

end

section \<open>The hash map implements the interface\<close>

context hashmap_callbacks
begin

lemma eq_left: "key_eq p k k' \<Longrightarrow> key_eq p k x \<longleftrightarrow> key_eq p k' x"
  using eq_sym eq_trans by blast

lemma eq_right: "key_eq p k k' \<Longrightarrow> key_eq p x k \<longleftrightarrow> key_eq p x k'"
  using eq_sym eq_trans by blast

lemma match_cong:
  "key_eq p k k' \<Longrightarrow> valid k \<Longrightarrow> valid k' \<Longrightarrow> (he_key_hash e = key_hash p k \<and> key_eq p k (he_key e)) \<longleftrightarrow>
     (he_key_hash e = key_hash p k' \<and> key_eq p k' (he_key e))"
  using eq_hash [of k k'] eq_left [of k k' "he_key e"] by simp

lemma chain_lookup_cong:
  "key_eq p k k' \<Longrightarrow> valid k \<Longrightarrow> valid k' \<Longrightarrow> chain_lookup p chain k = chain_lookup p chain k'"
  by (induction chain) (simp_all only: chain_lookup_simps match_cong)

lemma chain_lookup_replace:
  assumes "chain_find p (key_hash p k) k chain = Some i" and "key_eq p k k1"
    and k: "valid k" and k': "valid k'"
  shows "chain_lookup p (chain[i := (chain ! i)\<lparr>he_value := v, he_key := k1\<rparr>]) k' =
           (if key_eq p k k' then Some v else chain_lookup p chain k')"
  using assms(1)
proof (induction chain arbitrary: i)
  case (Cons e es)
  show ?case
  proof (cases "he_key_hash e = key_hash p k \<and> key_eq p k (he_key e)")
    case True
    with Cons.prems have i: "i = 0" by simp
    have "key_eq p k' k1 \<longleftrightarrow> key_eq p k k'" "key_eq p k' (he_key e) \<longleftrightarrow> key_eq p k k'"
      using True assms(2) eq_sym eq_trans by blast+
    moreover have "key_eq p k k' \<Longrightarrow> he_key_hash e = key_hash p k'"
      using True eq_hash k k' by simp
    ultimately show ?thesis
      by (cases "key_eq p k k'") (simp_all add: i)
  next
    case False
    with Cons.prems obtain j where j: "i = Suc j" "chain_find p (key_hash p k) k es = Some j"
      by (auto split: if_splits)
    have "\<not> (he_key_hash e = key_hash p k' \<and> key_eq p k' (he_key e))" if "key_eq p k k'"
      using False unfolding match_cong [OF that k k'] .
    then show ?thesis
      using Cons.IH [OF j(2)] by (cases "key_eq p k k'") (auto simp: j(1))
  qed
qed simp

lemma chain_ok_no_other:
  assumes "chain_ok valid p bc b (e # es)" and "key_eq p k (he_key e)"
  shows "chain_lookup p es k = None"
proof -
  have "\<forall>f \<in> set es. \<not> key_eq p k (he_key f)"
    using assms eq_left [OF assms(2)] by simp
  then show ?thesis
    by (induction es) simp_all
qed

lemma chain_lookup_remove:
  assumes "chain_ok valid p bc b chain" and "chain_find p (key_hash p k) k chain = Some i"
    and k: "valid k" and k': "valid k'"
  shows "chain_lookup p (take i chain @ drop (Suc i) chain) k' =
           (if key_eq p k k' then None else chain_lookup p chain k')"
  using assms(1,2)
proof (induction chain arbitrary: i)
  case (Cons e es)
  have es: "chain_ok valid p bc b es"
    using Cons.prems(1) by simp
  show ?case
  proof (cases "he_key_hash e = key_hash p k \<and> key_eq p k (he_key e)")
    case True
    with Cons.prems have i: "i = 0" by simp
    show ?thesis
    proof (cases "key_eq p k k'")
      case True
      have "chain_lookup p es k = None"
        using \<open>he_key_hash e = key_hash p k \<and> key_eq p k (he_key e)\<close>
        by (intro chain_ok_no_other [OF Cons.prems(1)]) simp
      then show ?thesis
        using True by (simp add: i chain_lookup_cong [OF True k k'])
    next
      case False
      then have "\<not> key_eq p k' (he_key e)"
        using True eq_sym eq_trans by blast
      with False show ?thesis by (simp add: i)
    qed
  next
    case False
    with Cons.prems obtain j where j: "i = Suc j" "chain_find p (key_hash p k) k es = Some j"
      by (auto split: if_splits)
    have "\<not> (he_key_hash e = key_hash p k' \<and> key_eq p k' (he_key e))" if "key_eq p k k'"
      using False unfolding match_cong [OF that k k'] .
    then show ?thesis
      using Cons.IH [OF es j(2)] by (cases "key_eq p k k'") (auto simp: j(1))
  qed
qed simp

lemma chain_find_None_not_eq:
  assumes "chain_ok valid p bc b chain" and "chain_find p (key_hash p k) k chain = None"
    and k: "valid k"
  shows "\<forall>e \<in> set chain. \<not> key_eq p k (he_key e)"
  using assms(1,2)
proof (induction chain)
  case (Cons a chain)
  then have "valid (he_key a)" "he_key_hash a = key_hash p (he_key a)" "chain_find p (key_hash p k) k chain = None"
    by (simp_all add: entry_ok_def split: if_splits)
  with Cons show ?case
    using eq_hash [of k "he_key a"] k by auto
qed simp

lemma chain_ok_Cons_new:
  assumes "chain_ok valid p bc b chain" and "chain_find p (key_hash p k) k chain = None"
    and "key_eq p k k1" and "valid k" and "valid k1" and "unat (key_hash p k mod bc) = b"
  shows "chain_ok valid p bc b (\<lparr>he_key = k1, he_value = v, he_key_hash = key_hash p k\<rparr> # chain)"
  using assms chain_find_None_not_eq [OF assms(1,2,4)] eq_hash [OF assms(3,4,5)] eq_left [OF assms(3)]
  assms(5) by (simp add: entry_ok_def)

lemma chain_ok_replace:
  assumes "chain_ok valid p bc b chain" and "chain_find p (key_hash p k) k chain = Some i"
    and "key_eq p k k1" and "valid k1"
  shows "chain_ok valid p bc b (chain[i := (chain ! i)\<lparr>he_value := v, he_key := k1\<rparr>])"
  using assms(1,2)
proof (induction chain arbitrary: i)
  case (Cons e es)
  show ?case
  proof (cases "he_key_hash e = key_hash p k \<and> key_eq p k (he_key e)")
    case True
    with Cons.prems have i: "i = 0" by simp
    have eq: "key_eq p (he_key e) k1"
      using True assms(3) eq_sym eq_trans by blast
    show ?thesis
      using Cons.prems(1) eq_hash [OF eq] eq_left [OF eq] assms(4) by (auto simp: i entry_ok_def)
  next
    case False
    with Cons.prems obtain j where j: "i = Suc j" "chain_find p (key_hash p k) k es = Some j"
      by (auto split: if_splits)
    have "j < length es" "key_eq p k (he_key (es ! j))"
      using chain_find_less [OF j(2)] chain_find_entry [OF j(2)] by simp_all
    then have "\<not> key_eq p (he_key e) k1"
      using Cons.prems(1) assms(3) eq_right [of "he_key (es ! j)" k1 "he_key e"] eq_sym eq_trans nth_mem
      by (metis chain_ok.simps(2))
    then have "\<forall>f \<in> set (es[j := (es ! j)\<lparr>he_value := v, he_key := k1\<rparr>]). \<not> key_eq p (he_key e) (he_key f)"
      using Cons.prems(1) by (auto dest!: subsetD [OF set_update_subset_insert])
    then show ?thesis
      using Cons.IH [OF _ j(2)] Cons.prems(1) by (simp add: j(1))
  qed
qed simp

lemma chain_ok_remove:
  "chain_ok valid p bc b chain \<Longrightarrow> chain_ok valid p bc b (take i chain @ drop (Suc i) chain)"
proof (induction chain arbitrary: i)
  case (Cons e es)
  then show ?case
    by (cases i) (auto dest: in_set_takeD in_set_dropD)
qed simp

lemma chain_ok_bucket:
  "hashmap_inv valid p hm \<Longrightarrow>
     chain_ok valid p (hm_bucket_count hm) (hashmap_bucket hm h) (hm_buckets hm ! hashmap_bucket hm h)"
  using hashmap_bucket_less [of valid p hm h] by (auto simp: hashmap_inv_def)

text \<open>The three ways an insertion can end, and the two ways a removal can.\<close>

lemma hashmap_insert_cases:
  assumes "hashmap_insert p hm k m = (r, hm', m')"
  obtains (fail) "r = None" "hm' = hm" "held m' = held m"
  | (replace) i v k1 where "r = Some v" "key_eq p k k1" "valid k \<Longrightarrow> valid k1"
      "chain_find p (key_hash p k) k (hm_buckets hm ! hashmap_bucket hm (key_hash p k)) = Some i"
      "hm' = hm\<lparr>hm_buckets := (hm_buckets hm)[hashmap_bucket hm (key_hash p k) :=
         (hm_buckets hm ! hashmap_bucket hm (key_hash p k))
           [i := (hm_buckets hm ! hashmap_bucket hm (key_hash p k) ! i)\<lparr>he_value := v, he_key := k1\<rparr>]]\<rparr>"
      "held m' = held m"
  | (new) v k1 where "r = Some v" "key_eq p k k1" "valid k \<Longrightarrow> valid k1"
      "chain_find p (key_hash p k) k (hm_buckets hm ! hashmap_bucket hm (key_hash p k)) = None"
      "hm' = hm\<lparr>hm_buckets := (hm_buckets hm)[hashmap_bucket hm (key_hash p k) :=
         \<lparr>he_key = k1, he_value = v, he_key_hash = key_hash p k\<rparr> #
           (hm_buckets hm ! hashmap_bucket hm (key_hash p k))],
         hm_entry_count := hm_entry_count hm + 1\<rparr>"
      "held m' = held m + (a_block + kfoot + vfoot)"
proof -
  have clone: "held m2 = held m1 + (if q = None then 0 else kfoot) \<and> (\<forall>k'. q = Some k' \<longrightarrow> key_eq p k k' \<and> (valid k \<longrightarrow> valid k'))"
    if "key_clone p k m1 = (q, m2)" for q m1 m2
    using clone_held [OF that] clone_eq [of k m1 _ m2] clone_valid [of k m1 _ m2] that by auto
  note books = malloc_held clone alloc_held
  let ?chain = "hm_buckets hm ! hashmap_bucket hm (key_hash p k)"
  show thesis
  proof (cases "chain_find p (key_hash p k) k ?chain")
    case (Some i)
    show thesis
      using assms Some
      by (auto simp: hashmap_insert_def Let_def key_destroy_held value_destroy_held
          dest!: books split: prod.splits option.splits intro: fail)
        (auto intro!: replace simp: key_destroy_held value_destroy_held)
  next
    case None
    show thesis
      using assms None
      by (auto simp: hashmap_insert_def Let_def key_destroy_held value_destroy_held
          dest!: books split: prod.splits option.splits if_splits intro: fail)
        (auto intro!: new simp: algebra_simps)
  qed
qed

lemma hashmap_insert_inv:
  assumes inv: "hashmap_inv valid p hm" and k: "valid k" and "hashmap_insert p hm k m = (r, hm', m')"
  shows "hashmap_inv valid p hm'"
  using assms(3)
proof (cases rule: hashmap_insert_cases)
  case fail
  with inv show ?thesis by simp
next
  case (replace i v k1)
  let ?b = "hashmap_bucket hm (key_hash p k)"
  have "hashmap_inv valid p (hm\<lparr>hm_buckets := (hm_buckets hm)[?b := (hm_buckets hm ! ?b)
      [i := (hm_buckets hm ! ?b ! i)\<lparr>he_value := v, he_key := k1\<rparr>]], hm_entry_count := hm_entry_count hm\<rparr>)"
    by (rule hashmap_inv_update [OF inv hashmap_bucket_less [OF inv]
          chain_ok_replace [OF chain_ok_bucket [OF inv] replace(4,2) replace(3) [OF k]]]) simp
  then show ?thesis
    by (simp add: replace(5))
next
  case (new v k1)
  show ?thesis
    unfolding new(5)
    by (rule hashmap_inv_update [OF inv hashmap_bucket_less [OF inv]
          chain_ok_Cons_new [OF chain_ok_bucket [OF inv] new(4,2) k new(3) [OF k]]])
      (simp_all add: hashmap_bucket_def)
qed

lemma hashmap_insert_lookup:
  assumes inv: "hashmap_inv valid p hm" and k: "valid k" and k': "valid k'"
    and "hashmap_insert p hm k m = (Some v, hm', m')"
  shows "hashmap_lookup p hm' k' = (if key_eq p k k' then Some v else hashmap_lookup p hm k')"
proof -
  let ?b = "hashmap_bucket hm (key_hash p k)" and ?c = "hm_buckets hm ! hashmap_bucket hm (key_hash p k)"
  have lt: "?b < length (hm_buckets hm)"
    by (rule hashmap_bucket_less [OF inv])
  from assms(4) obtain c where c: "hm_buckets hm' = (hm_buckets hm)[?b := c]"
      "hm_bucket_count hm' = hm_bucket_count hm"
      "\<And>k'. valid k' \<Longrightarrow> key_hash p k' = key_hash p k \<or> \<not> key_eq p k k' \<Longrightarrow>
         chain_lookup p c k' = (if key_eq p k k' then Some v else chain_lookup p ?c k')"
  proof (cases rule: hashmap_insert_cases)
    case (replace i v1 k1)
    then show ?thesis
      using that chain_lookup_replace [OF replace(4,2) k] by simp
  next
    case (new v1 k1)
    show ?thesis
      using new eq_right [OF new(2)] eq_sym
      by (intro that [of "\<lparr>he_key = k1, he_value = v1, he_key_hash = key_hash p k\<rparr> # ?c"]) auto
  qed simp
  show ?thesis
  proof (cases "hashmap_bucket hm (key_hash p k') = ?b")
    case True
    then show ?thesis
      using c lt eq_hash [of k k'] k k' by (auto simp: hashmap_lookup_chain hashmap_bucket_def)
  next
    case False
    then have "\<not> key_eq p k k'"
      using eq_hash k k' by auto
    with False show ?thesis
      using c k' by (auto simp: hashmap_lookup_chain hashmap_bucket_def)
  qed
qed

lemma hashmap_remove_cases:
  assumes "hashmap_remove p hm k m = (b, hm', m')"
  obtains (absent) "\<not> b" "hm' = hm" "m' = m" "hashmap_lookup p hm k = None"
  | (found) i where "b" "hashmap_lookup p hm k \<noteq> None"
      "chain_find p (key_hash p k) k (hm_buckets hm ! hashmap_bucket hm (key_hash p k)) = Some i"
      "hm' = hm\<lparr>hm_buckets := (hm_buckets hm)[hashmap_bucket hm (key_hash p k) :=
         take i (hm_buckets hm ! hashmap_bucket hm (key_hash p k)) @
         drop (Suc i) (hm_buckets hm ! hashmap_bucket hm (key_hash p k))],
         hm_entry_count := hm_entry_count hm - 1\<rparr>"
      "held m' = held m - (a_block + kfoot + vfoot)"
  using assms
  by (auto simp: hashmap_remove_def hashmap_lookup_def Let_def key_destroy_held value_destroy_held
      algebra_simps split: option.splits intro: absent found)

lemma hashmap_remove_inv:
  assumes inv: "hashmap_inv valid p hm" and "hashmap_remove p hm k m = (b, hm', m')"
  shows "hashmap_inv valid p hm' \<and> (b \<longrightarrow> hm_entry_count hm = Suc (hm_entry_count hm'))"
  using assms(2)
proof (cases rule: hashmap_remove_cases)
  case absent
  with inv show ?thesis by simp
next
  case (found i)
  let ?b = "hashmap_bucket hm (key_hash p k)"
  have lt: "?b < length (hm_buckets hm)"
    by (rule hashmap_bucket_less [OF inv])
  have i: "i < length (hm_buckets hm ! ?b)"
    by (rule chain_find_less [OF found(3)])
  have "length (hm_buckets hm ! ?b) \<le> sum_list (map length (hm_buckets hm))"
    using lt by (intro member_le_sum_list) auto
  then have n: "0 < hm_entry_count hm" "length (hm_buckets hm ! ?b) \<le> hm_entry_count hm"
    using inv i by (simp_all add: hashmap_inv_def)
  have "hashmap_inv valid p hm'"
    unfolding found(4)
    by (rule hashmap_inv_update [OF inv lt chain_ok_remove [OF chain_ok_bucket [OF inv]]])
      (use i n in simp)
  with n show ?thesis
    by (simp add: found(4))
qed

lemma hashmap_remove_lookup:
  assumes inv: "hashmap_inv valid p hm" and k: "valid k" and k': "valid k'"
    and r: "hashmap_remove p hm k m = (b, hm', m')"
  shows "hashmap_lookup p hm' k' = (if key_eq p k k' then None else hashmap_lookup p hm k')"
  using r
proof (cases rule: hashmap_remove_cases)
  case absent
  have "hashmap_lookup p hm k' = hashmap_lookup p hm k" if "key_eq p k k'"
    using chain_lookup_cong [OF that k k'] eq_hash [OF that k k'] by (simp add: hashmap_lookup_chain)
  with absent show ?thesis by simp
next
  case (found i)
  let ?b = "hashmap_bucket hm (key_hash p k)"
  have lt: "?b < length (hm_buckets hm)"
    by (rule hashmap_bucket_less [OF inv])
  note c = chain_lookup_remove [OF chain_ok_bucket [OF inv] found(3) k]
  show ?thesis
  proof (cases "hashmap_bucket hm (key_hash p k') = ?b")
    case True
    then show ?thesis
      using c [of k'] lt eq_hash [of k k'] k k' by (auto simp: hashmap_lookup_chain hashmap_bucket_def found(4))
  next
    case False
    then have "\<not> key_eq p k k'"
      using eq_hash k k' by auto
    with False show ?thesis
      by (auto simp: hashmap_lookup_chain hashmap_bucket_def found(4))
  qed
qed

text \<open>Writing through a pointer into the map.\<close>

lemma hashmap_modify_cases:
  assumes "hashmap_inv valid p hm" and "valid k"
  obtains (absent) "hashmap_lookup p hm k = None" and "hashmap_modify p hm k f = hm"
  | (found) i chain e where "chain = hm_buckets hm ! hashmap_bucket hm (key_hash p k)"
      and "chain_find p (key_hash p k) k chain = Some i" and "i < length chain" and "e = chain ! i"
      and "hashmap_lookup p hm k = Some (he_value e)" and "key_eq p k (he_key e)" and "valid (he_key e)"
      and "hashmap_modify p hm k f = hm\<lparr>hm_buckets := (hm_buckets hm)[hashmap_bucket hm (key_hash p k) :=
             chain[i := e\<lparr>he_value := f (he_value e), he_key := he_key e\<rparr>]], hm_entry_count := hm_entry_count hm\<rparr>"
proof (cases "chain_find p (key_hash p k) k (hm_buckets hm ! hashmap_bucket hm (key_hash p k))")
  case None
  then show ?thesis
    by (intro absent) (simp_all add: hashmap_lookup_def hashmap_modify_def Let_def)
next
  case (Some i)
  let ?chain = "hm_buckets hm ! hashmap_bucket hm (key_hash p k)"
  have i: "i < length ?chain" "key_eq p k (he_key (?chain ! i))"
    using chain_find_less [OF Some] chain_find_entry [OF Some] by simp_all
  have "valid (he_key (?chain ! i))"
    using chain_ok_entries [OF chain_ok_bucket [OF assms(1)] nth_mem [OF i(1)]] by (simp add: entry_ok_def)
  with i Some show ?thesis
    by (intro found [OF refl Some i(1) refl]) (simp_all add: hashmap_lookup_def hashmap_modify_def Let_def)
qed

lemma hashmap_modify_inv:
  assumes "hashmap_inv valid p hm" and "valid k"
  shows "hashmap_inv valid p (hashmap_modify p hm k f)"
  using assms
proof (cases rule: hashmap_modify_cases [where f = f])
  case (found i chain e)
  show ?thesis
    unfolding found(8)
    using chain_ok_replace [OF chain_ok_bucket [OF assms(1)], of k "key_hash p k" i "he_key e"] found
    by (intro hashmap_inv_update [OF assms(1) hashmap_bucket_less [OF assms(1)]]) simp_all
qed (use assms in simp)

lemma hashmap_modify_lookup:
  assumes "hashmap_inv valid p hm" and k: "valid k" and k': "valid k'"
  shows "hashmap_lookup p (hashmap_modify p hm k f) k' =
    (if key_eq p k k' then map_option f (hashmap_lookup p hm k) else hashmap_lookup p hm k')"
  using assms(1) k
proof (cases rule: hashmap_modify_cases [where f = f])
  case absent
  have "hashmap_lookup p hm k' = hashmap_lookup p hm k" if "key_eq p k k'"
    using chain_lookup_cong [OF that k k'] eq_hash [OF that k k'] by (simp add: hashmap_lookup_chain)
  then show ?thesis
    using absent by simp
next
  case (found i chain e)
  let ?b = "hashmap_bucket hm (key_hash p k)"
  have b: "?b < length (hm_buckets hm)"
    by (rule hashmap_bucket_less [OF assms(1)])
  have new: "chain_lookup p (chain[i := e\<lparr>he_value := f (he_value e), he_key := he_key e\<rparr>]) k' =
      (if key_eq p k k' then Some (f (he_value e)) else chain_lookup p chain k')"
    unfolding found(4) using found(6) k'
    by (intro chain_lookup_replace [OF found(2) _ k]) (simp_all add: found(4))
  show ?thesis
  proof (cases "hashmap_bucket hm (key_hash p k') = ?b")
    case True
    with new b found(1) found(5) show ?thesis
      by (simp add: found(8) hashmap_lookup_chain hashmap_bucket_def)
  next
    case False
    then have "\<not> key_eq p k k'"
      using eq_hash k k' by auto
    with False show ?thesis
      by (simp add: found(8) hashmap_lookup_chain hashmap_bucket_def)
  qed
qed

text \<open>Iteration is one pass over the entries, which are what the lookups answer.\<close>

lemma chain_lookup_iff:
  assumes "chain_ok valid p bc b chain" and "valid k"
  shows "chain_lookup p chain k = Some v \<longleftrightarrow>
    (\<exists>e \<in> set chain. key_eq p k (he_key e) \<and> he_value e = v)"
  using assms(1)
proof (induction chain)
  case (Cons e es)
  have e: "valid (he_key e)" "he_key_hash e = key_hash p (he_key e)"
    using Cons.prems by (simp_all add: entry_ok_def)
  show ?case
  proof (cases "key_eq p k (he_key e)")
    case True
    then have "\<forall>f \<in> set es. \<not> key_eq p k (he_key f)"
      using Cons.prems eq_left [OF True] by simp
    then show ?thesis
      using True e eq_hash [OF True assms(2)] by auto
  qed (use Cons in auto)
qed simp

lemma hashmap_lookup_entries:
  assumes "hashmap_inv valid p hm" and "valid k"
  shows "hashmap_lookup p hm k = Some v \<longleftrightarrow>
    (\<exists>k'. (k', v) \<in> set (hashmap_entries hm) \<and> key_eq p k k')" (is "?l \<longleftrightarrow> ?r")
proof -
  let ?b = "hashmap_bucket hm (key_hash p k)"
  have lt: "?b < length (hm_buckets hm)"
    by (rule hashmap_bucket_less [OF assms(1)])
  have l: "?l \<longleftrightarrow> (\<exists>e \<in> set (hm_buckets hm ! ?b). key_eq p k (he_key e) \<and> he_value e = v)"
    unfolding hashmap_lookup_chain by (rule chain_lookup_iff [OF chain_ok_bucket [OF assms(1)] assms(2)])
  have "b = ?b" if b: "b < length (hm_buckets hm)" "e \<in> set (hm_buckets hm ! b)" "key_eq p k (he_key e)" for b e
  proof -
    have "chain_ok valid p (hm_bucket_count hm) b (hm_buckets hm ! b)"
      using assms(1) b(1) by (simp add: hashmap_inv_def)
    from chain_ok_entries [OF this b(2)] show ?thesis
      using eq_hash [OF b(3) assms(2)] by (auto simp: entry_ok_def hashmap_bucket_def)
  qed
  then have only: "e \<in> set (hm_buckets hm ! ?b)" if "e \<in> set c" "c \<in> set (hm_buckets hm)" "key_eq p k (he_key e)" for c e
    using that by (metis in_set_conv_nth)
  have "?r \<longleftrightarrow> (\<exists>c \<in> set (hm_buckets hm). \<exists>e \<in> set c. key_eq p k (he_key e) \<and> he_value e = v)"
    by (auto simp: hashmap_entries_def)
  also have "\<dots> \<longleftrightarrow> (\<exists>e \<in> set (hm_buckets hm ! ?b). key_eq p k (he_key e) \<and> he_value e = v)"
    using only nth_mem [OF lt] by blast
  finally show ?thesis
    using l by blast
qed

lemma hashmap_entries_valid:
  assumes "hashmap_inv valid p hm" and "(k, v) \<in> set (hashmap_entries hm)"
  shows "valid k \<and> hashmap_lookup p hm k = Some v"
proof -
  obtain e b where e: "e \<in> set (hm_buckets hm ! b)" "b < length (hm_buckets hm)" "k = he_key e"
    using assms(2) by (auto simp: hashmap_entries_def in_set_conv_nth [of _ "hm_buckets hm"])
  then have "valid k"
    using assms(1) chain_ok_entries [OF _ e(1)] unfolding hashmap_inv_def entry_ok_def by blast
  then show ?thesis
    using hashmap_lookup_entries [OF assms(1), of k v] assms(2) eq_refl by blast
qed

lemma hashmap_entries_apart:
  assumes "hashmap_inv valid p hm"
  shows "sorted_wrt (\<lambda>e f. \<not> key_eq p (he_key e) (he_key f)) (concat (hm_buckets hm))"
proof -
  have chain: "chain_ok valid p (hm_bucket_count hm) b (hm_buckets hm ! b)" if "b < length (hm_buckets hm)" for b
    using assms that by (simp add: hashmap_inv_def)
  have within: "sorted_wrt (\<lambda>e f. \<not> key_eq p (he_key e) (he_key f)) c" if "chain_ok valid p bc b c" for bc b c
    using that by (induction c) auto
  have across: "\<not> key_eq p (he_key e) (he_key f)"
    if "i < j" "j < length (hm_buckets hm)" "e \<in> set (hm_buckets hm ! i)" "f \<in> set (hm_buckets hm ! j)" for i j e f
  proof
    assume eq: "key_eq p (he_key e) (he_key f)"
    have "entry_ok valid p (hm_bucket_count hm) i e" "entry_ok valid p (hm_bucket_count hm) j f"
      using that by (auto intro: chain_ok_entries [OF chain])
    then show False
      using eq_hash [OF eq] that(1) by (auto simp: entry_ok_def)
  qed
  show ?thesis
    unfolding sorted_wrt_concat sorted_wrt_iff_nth_less [of _ "hm_buckets hm"]
    using within [OF chain] across by (auto simp: in_set_conv_nth [of _ "hm_buckets hm"])
qed

text \<open>The books: what the map holds is its two blocks and one footprint per entry.\<close>

definition books :: "footprint \<Rightarrow> ('k, 'v) hashmap \<Rightarrow> mem \<Rightarrow> bool" where
  "books base hm m \<longleftrightarrow>
     held m = base + a_block + a_block + foot_times (hm_entry_count hm) (a_block + kfoot + vfoot)"

lemma insert_books:
  "books base hm m \<Longrightarrow> hashmap_insert p hm k m = (r, hm', m') \<Longrightarrow> books base hm' m'"
  by (erule hashmap_insert_cases) (auto simp: books_def algebra_simps)

lemma remove_books:
  assumes "hashmap_inv valid p hm" and "books base hm m" and r: "hashmap_remove p hm k m = (b, hm', m')"
  shows "books base hm' m'"
  using r
proof (cases rule: hashmap_remove_cases)
  case absent
  with assms(2) show ?thesis by simp
next
  case (found i)
  have "hm_entry_count hm = Suc (hm_entry_count hm')"
    using hashmap_remove_inv [OF assms(1) r] found(1) by blast
  then show ?thesis
    using assms(2) found(5) by (auto simp: books_def footprint_eq_iff)
qed

lemma destroy_chain_held:
  "held (destroy_chain p c m) + foot_times (length c) (a_block + kfoot + vfoot) = held m"
proof (induction c arbitrary: m)
  case (Cons e es)
  show ?case
    using Cons.IH [of "free_block (key_destroy p (he_key e) (value_destroy p (he_value e) m))"]
    by (simp add: key_destroy_held value_destroy_held algebra_simps)
qed simp

lemma destroy_buckets_held:
  "held (fold (destroy_chain p) bs m) +
     foot_times (sum_list (map length bs)) (a_block + kfoot + vfoot) = held m"
proof (induction bs arbitrary: m)
  case (Cons c bs)
  show ?case
    using Cons.IH [of "destroy_chain p c m"] destroy_chain_held [of c m]
    by (simp add: foot_times_add algebra_simps)
qed simp

lemma destroy_books:
  assumes "hashmap_inv valid p hm" and "books base hm m"
  shows "held (hashmap_destroy p hm m) = base"
  using assms destroy_buckets_held [of "hm_buckets hm" m]
  by (simp add: hashmap_destroy_def books_def hashmap_inv_def Let_def algebra_simps)

lemma run_books:
  "hashmap_inv valid p hm \<Longrightarrow> \<forall>op \<in> set ops. valid (op_key op) \<Longrightarrow> books base hm m \<Longrightarrow>
     store_run (hashmap_insert p) (hashmap_remove p) ops hm m = (es, hm', m') \<Longrightarrow>
     hashmap_inv valid p hm' \<and> books base hm' m'"
proof (induction ops arbitrary: hm m es)
  case (Cons op ops)
  show ?case
  proof (cases op)
    case (Put k)
    then obtain r hm1 m1 es1 where 1: "hashmap_insert p hm k m = (r, hm1, m1)"
        "store_run (hashmap_insert p) (hashmap_remove p) ops hm1 m1 = (es1, hm', m')"
      using Cons.prems(4) by (auto split: prod.splits)
    show ?thesis
      using Cons.IH [OF _ _ _ 1(2)] hashmap_insert_inv [OF Cons.prems(1) _ 1(1)] Put
        insert_books [OF Cons.prems(3) 1(1)] Cons.prems(2) by simp
  next
    case (Del k)
    then obtain b hm1 m1 es1 where 1: "hashmap_remove p hm k m = (b, hm1, m1)"
        "store_run (hashmap_insert p) (hashmap_remove p) ops hm1 m1 = (es1, hm', m')"
      using Cons.prems(4) by (auto split: prod.splits)
    show ?thesis
      using Cons.IH [OF _ _ _ 1(2)] hashmap_remove_inv [OF Cons.prems(1) 1(1)]
        remove_books [OF Cons.prems(1,3) 1(1)] Cons.prems(2) by simp
  qed
qed simp

end

lemma hashmap_create_inv:
  "hashmap_create m = (Some hm, m') \<Longrightarrow>
     hashmap_inv valid p hm \<and> hm_entry_count hm = 0 \<and> held m' = held m + a_block + a_block"
  by (auto simp: hashmap_create_def hashmap_inv_def DEFAULT_HASHMAP_BUCKETS_def
      dest!: malloc_held split: prod.splits if_splits)

lemma hashmap_create_lookup: "hashmap_create m = (Some hm, m') \<Longrightarrow> hashmap_lookup p hm k = None"
proof -
  assume c: "hashmap_create m = (Some hm, m')"
  have "hashmap_bucket hm (key_hash p k) < length (hm_buckets hm)"
    using hashmap_create_inv [OF c] by (intro hashmap_bucket_less) blast
  then show ?thesis
    using c by (auto simp: hashmap_create_def hashmap_lookup_chain split: prod.splits if_splits)
qed

sublocale hashmap_callbacks \<subseteq> keyed_store valid "key_eq p" "hashmap_inv valid p" "hashmap_lookup p"
  "hashmap_insert p" "hashmap_remove p"
proof unfold_locales
  fix s k m s' m'
  assume "hashmap_insert p s k m = (None, s', m')"
  then show "s' = s"
    by (cases rule: hashmap_insert_cases) simp_all
next
  fix s k m b s' m'
  assume "hashmap_remove p s k m = (b, s', m')"
  then show "b \<longleftrightarrow> hashmap_lookup p s k \<noteq> None"
    by (cases rule: hashmap_remove_cases) simp_all
qed (blast intro: hashmap_insert_inv hashmap_insert_lookup dest: hashmap_remove_inv hashmap_remove_lookup
      hashmap_insert_lookup)+

end
