(* ===== verification/Wapcaplet.thy ===== *)
theory Wapcaplet
  imports Bloom Ascii
begin

unbundle bit_operations_syntax

text \<open>
  \<^verbatim>\<open>contrib/libnsutils/src/libwapcaplet.c\<close>: what the clients of interned strings see of them.
  A \<^verbatim>\<open>lwc_string\<close> is its contents, since two interned strings are the same pointer exactly
  when their contents agree. The hash is the one \<^verbatim>\<open>lwc_intern_string\<close> stores in the string;
  the caseless comparison interns the lower-case forms of both strings on its first use, so
  it can run out of memory.
\<close>

section \<open>Hash values\<close>

definition lwc__calculate_hash :: "string \<Rightarrow> 32 word" where
  "lwc__calculate_hash str = fnv_loop 0x811c9dc5 str"

definition lwc_string_hash_value :: "string \<Rightarrow> 32 word" where
  "lwc_string_hash_value str = lwc__calculate_hash str"

section \<open>Caseless comparison\<close>

definition lwc__dolower :: "char \<Rightarrow> char" where
  "lwc__dolower c =
     (if ord_char CHR ''A'' \<le> ord_char c \<and> ord_char c \<le> ord_char CHR ''Z''
      then char_of (ord_char c + ord_char CHR ''a'' - ord_char CHR ''A'') else c)"

lemma lwc__dolower_ascii: "lwc__dolower = ascii_to_lower"
  by (rule ext) (simp add: lwc__dolower_def ascii_to_lower_def ascii_is_alpha_upper_def)

text \<open>\<open>None\<close> is an error code other than \<^verbatim>\<open>lwc_error_ok\<close>.\<close>

definition lwc_string_caseless_isequal :: "string \<Rightarrow> string \<Rightarrow> mem \<Rightarrow> bool option \<times> mem" where
  "lwc_string_caseless_isequal str1 str2 m =
     (case mem_next m of (ok1, m1) \<Rightarrow>
        if \<not> ok1 then (None, m1)
        else (case mem_next m1 of (ok2, m2) \<Rightarrow>
          if \<not> ok2 then (None, m2)
          else (Some (map lwc__dolower str1 = map lwc__dolower str2), m2)))"

definition lwc_string_isequal :: "string \<Rightarrow> string \<Rightarrow> bool" where
  "lwc_string_isequal str1 str2 \<longleftrightarrow> str1 = str2"

lemma lwc_caseless_held [mem_facts]:
  "lwc_string_caseless_isequal a b m = (r, m') \<Longrightarrow> held m' = held m"
  by (auto simp: lwc_string_caseless_isequal_def dest!: mem_next_held split: prod.splits if_splits)

lemma lwc_caseless_Some:
  "lwc_string_caseless_isequal a b m = (Some r, m') \<Longrightarrow>
     r \<longleftrightarrow> map ascii_to_lower a = map ascii_to_lower b"
  by (auto simp: lwc_string_caseless_isequal_def lwc__dolower_ascii split: prod.splits if_splits)

lemma lwc_caseless_plenty:
  "lwc_string_caseless_isequal a b m = (r, m') \<Longrightarrow> plenty m \<Longrightarrow>
     r = Some (map ascii_to_lower a = map ascii_to_lower b) \<and> plenty m'"
  by (auto simp: lwc_string_caseless_isequal_def lwc__dolower_ascii
      dest!: mem_next_plenty split: prod.splits if_splits)

end
