(* ===== verification/Nsurl_Path.thy ===== *)
theory Nsurl_Path
  imports Nsurl
begin

text \<open>
  The removal of dot segments in \<^verbatim>\<open>src/utils/nsurl/parse.c\<close>, and the algorithm of RFC 3986,
  section 5.2.4, on lists of path segments that it implements. The two pointers of the C
  function are the rest of the path and the output written so far.
\<close>

section \<open>The loop\<close>

text \<open>\<^verbatim>\<open>while (output_pos > output && *output_pos != '/') output_pos--\<close>, from position \<open>k\<close>\<close>

fun back_to_slash :: "string \<Rightarrow> nat \<Rightarrow> nat" where
  "back_to_slash output 0 = 0"
| "back_to_slash output (Suc k) = (if output ! Suc k \<noteq> CHR ''/'' then back_to_slash output k else Suc k)"

text \<open>The same on \<^verbatim>\<open>*(output_pos - 1)\<close>\<close>

fun back_after_slash :: "string \<Rightarrow> nat \<Rightarrow> nat" where
  "back_after_slash output 0 = 0"
| "back_after_slash output (Suc k) = (if output ! k \<noteq> CHR ''/'' then back_after_slash output k else Suc k)"

text \<open>The first character and those up to the next slash go to the output.\<close>

definition not_slash :: "char \<Rightarrow> bool" where
  "not_slash c \<longleftrightarrow> c \<noteq> CHR ''/''"

function dots_loop :: "string \<Rightarrow> string \<Rightarrow> string" where
  "dots_loop path output =
     (case path of
        [] \<Rightarrow> output
      | c # rest \<Rightarrow>
          let c1 = peek rest; c2 = peek (drop 1 rest); c3 = peek (drop 2 rest);
              copy = dots_loop (dropWhile not_slash rest) (output @ c # takeWhile not_slash rest) in
          if c = CHR ''.'' \<and> c1 = CHR ''.'' \<and> c2 = CHR ''/'' then dots_loop (drop 2 rest) output
          else if c = CHR ''.'' \<and> c1 = CHR ''/'' then dots_loop (drop 1 rest) output
          else if c = CHR ''/'' \<and> c1 = CHR ''.'' \<and> c2 = CHR ''/'' then dots_loop (drop 1 rest) output
          else if c = CHR ''/'' \<and> c1 = CHR ''.'' \<and> c2 = NUL then output @ ''/''
          else if c = CHR ''/'' \<and> c1 = CHR ''.'' \<and> c2 = CHR ''.'' \<and> c3 = CHR ''/'' then
            dots_loop (drop 2 rest) (take (back_to_slash output (length output - 1)) output)
          else if c = CHR ''/'' \<and> c1 = CHR ''.'' \<and> c2 = CHR ''.'' \<and> c3 = NUL then
            take (back_after_slash output (length output)) output
          else copy)"
  by pat_completeness auto
termination
proof (relation "measure (\<lambda>(path, output). length path)")
  show "wf (measure (\<lambda>(path :: string, output :: string). length path))"
    by simp
qed (auto intro: le_less_trans [OF length_dropWhile_le])

declare dots_loop.simps [simp del]

definition nsurl__remove_dot_segments :: "string \<Rightarrow> string" where
  "nsurl__remove_dot_segments path = dots_loop path []"

section \<open>Segments\<close>

definition path_of :: "string list \<Rightarrow> string" where
  "path_of segs = concat (map (\<lambda>s. CHR ''/'' # s) segs)"

lemma path_of_simps [simp]:
  "path_of [] = []" "path_of (s # segs) = CHR ''/'' # s @ path_of segs"
  "path_of (segs @ segs') = path_of segs @ path_of segs'"
  by (simp_all add: path_of_def)

definition segment :: "string \<Rightarrow> bool" where
  "segment s \<longleftrightarrow> CHR ''/'' \<notin> set s \<and> NUL \<notin> set s"

text \<open>
  RFC 3986: a segment \<open>.\<close> is dropped and \<open>..\<close> takes the previous one with it; at the end of
  the path both leave a final slash.
\<close>

fun resolve :: "string list \<Rightarrow> string list \<Rightarrow> string list" where
  "resolve out [] = out"
| "resolve out (s # segs) =
     (if s = ''.'' then (if segs = [] then out @ [[]] else resolve out segs)
      else if s = ''..'' then (if segs = [] then butlast out @ [[]] else resolve (butlast out) segs)
      else resolve (out @ [s]) segs)"

lemma not_slash_segment: "segment s \<Longrightarrow> c \<in> set s \<Longrightarrow> not_slash c"
  by (auto simp: segment_def not_slash_def)

lemma path_of_stop: "takeWhile not_slash (path_of segs) = [] \<and> dropWhile not_slash (path_of segs) = path_of segs"
  by (cases segs) (simp_all add: not_slash_def)

lemma path_of_root: "path_of [[]] = ''/''"
  by simp

lemma segment_split:
  "segment s \<Longrightarrow> takeWhile not_slash (s @ path_of segs) = s \<and>
     dropWhile not_slash (s @ path_of segs) = path_of segs"
  using path_of_stop [of segs] not_slash_segment [of s]
  by simp

lemma back_to_slash_here: "back_to_slash (out @ CHR ''/'' # s) (length out) = length out"
proof (cases "length out")
  case (Suc n)
  then have "(out @ CHR ''/'' # s) ! Suc n = CHR ''/''"
    using nth_append_length [of out] by metis
  with Suc show ?thesis by simp
qed simp

lemma back_to_slash_prefix:
  "k \<ge> length out \<Longrightarrow> CHR ''/'' \<notin> set s \<Longrightarrow> k < length out + 1 + length s \<Longrightarrow>
     back_to_slash (out @ CHR ''/'' # s) k = length out"
proof (induction k)
  case (Suc k)
  show ?case
  proof (cases "Suc k = length out")
    case True
    show ?thesis unfolding True by (rule back_to_slash_here)
  next
    case False
    with Suc.prems have k: "length out \<le> k" "k - length out < length s"
      by simp_all
    then have "(out @ CHR ''/'' # s) ! Suc k = s ! (k - length out)"
      by (simp add: nth_append Suc_diff_le)
    then have "(out @ CHR ''/'' # s) ! Suc k \<noteq> CHR ''/''"
      using Suc.prems(2) k(2) nth_mem by fastforce
    then show ?thesis
      using Suc.IH Suc.prems k by simp
  qed
qed (use back_to_slash_here [of "[]"] in simp)

lemma pop_last:
  assumes "list_all segment outs"
  shows "take (back_to_slash (path_of outs) (length (path_of outs) - 1)) (path_of outs) = path_of (butlast outs)"
proof (cases outs rule: rev_cases)
  case (snoc outs' s)
  then have "CHR ''/'' \<notin> set s"
    using assms by (simp add: segment_def)
  then show ?thesis
    using back_to_slash_prefix [of "path_of outs'" "length (path_of outs') + length s" s]
    by (simp add: snoc)
qed simp

lemma back_after_slash_prefix:
  "k \<le> length s \<Longrightarrow> CHR ''/'' \<notin> set s \<Longrightarrow>
     back_after_slash (out @ CHR ''/'' # s) (Suc (length out + k)) = Suc (length out)"
proof (induction k)
  case (Suc k)
  then have "(out @ CHR ''/'' # s) ! (Suc (length out + k)) = s ! k"
    by (simp add: nth_append)
  moreover have "s ! k \<noteq> CHR ''/''"
    using Suc.prems nth_mem [of k s] by (metis Suc_le_lessD)
  ultimately show ?case
    using Suc by simp
qed simp

lemma cut_last:
  assumes "list_all segment outs" and "outs \<noteq> []"
  shows "take (back_after_slash (path_of outs) (length (path_of outs))) (path_of outs) =
    path_of (butlast outs @ [[]])"
proof (cases outs rule: rev_cases)
  case (snoc outs' s)
  then have "CHR ''/'' \<notin> set s"
    using assms by (simp add: segment_def)
  then show ?thesis
    using back_after_slash_prefix [of "length s" s "path_of outs'"]
    by (simp add: snoc)
qed (use assms in simp)

lemma peek_segment: "segment s \<Longrightarrow> peek (s @ path_of segs) \<noteq> NUL \<or> s = [] \<and> segs = []"
  by (cases s; cases segs) (auto simp: segment_def)

lemma peek_path_of: "peek (path_of segs) = (if segs = [] then NUL else CHR ''/'')"
  by (cases segs) auto

lemma peek_after: "peek (t @ path_of segs) = (if t = [] then if segs = [] then NUL else CHR ''/'' else hd t)"
  by (cases t) (simp_all add: peek_path_of)

lemma segment_tl: "segment (c # t) \<longleftrightarrow> c \<noteq> CHR ''/'' \<and> c \<noteq> NUL \<and> segment t"
  by (auto simp: segment_def)

lemma segment_Nil [simp]: "segment []"
  by (simp add: segment_def)

lemma segment_hd: "segment t \<Longrightarrow> t \<noteq> [] \<Longrightarrow> hd t \<noteq> CHR ''/'' \<and> hd t \<noteq> NUL"
  by (cases t) (simp_all add: segment_tl)

lemma dots_loop_dot:
  "dots_loop (path_of (''.'' # segs)) output =
     (if segs = [] then output @ ''/'' else dots_loop (path_of segs) output)"
  by (subst dots_loop.simps) (simp add: peek_path_of Let_def)

lemma dots_loop_dotdot:
  "dots_loop (path_of (''..'' # segs)) output =
     (if segs = [] then take (back_after_slash output (length output)) output
      else dots_loop (path_of segs) (take (back_to_slash output (length output - 1)) output))"
  by (subst dots_loop.simps) (simp add: peek_path_of Let_def)

lemma dots_loop_copy:
  assumes "segment s" and "s \<noteq> ''.''" and "s \<noteq> ''..''"
  shows "dots_loop (path_of (s # segs)) output = dots_loop (path_of segs) (output @ CHR ''/'' # s)"
proof -
  have drop1: "drop (Suc 0) (s @ path_of segs) = tl s @ path_of segs" if "s \<noteq> []"
    using that by (cases s) simp_all
  have d1: "\<not> (peek (s @ path_of segs) = CHR ''.'' \<and> peek (drop 1 (s @ path_of segs)) \<in> {CHR ''/'', NUL})"
    using assms by (cases s; cases "tl s") (auto simp: peek_after segment_tl peek_path_of split: if_splits)
  have d2: "\<not> (peek (s @ path_of segs) = CHR ''.'' \<and> peek (drop 1 (s @ path_of segs)) = CHR ''.'' \<and>
      peek (drop 2 (s @ path_of segs)) \<in> {CHR ''/'', NUL})"
  proof (cases s)
    case (Cons a t)
    then show ?thesis
      using assms by (cases t; cases "tl t")
        (auto simp: peek_after segment_tl peek_path_of numeral_2_eq_2 split: if_splits)
  qed (simp add: peek_path_of)
  show ?thesis
    using d1 d2 segment_split [OF assms(1), of segs]
    by (subst dots_loop.simps) (auto simp: Let_def)
qed

lemma resolve_segments:
  "list_all segment segs \<Longrightarrow> list_all segment outs \<Longrightarrow> list_all segment (resolve outs segs)"
proof (induction outs segs rule: resolve.induct)
  case (2 out s segs)
  have "list_all segment (butlast out)"
    using 2(5) by (metis append_butlast_last_id list_all_append butlast.simps(1))
  with 2 show ?case by simp
qed simp

lemma dots_loop_resolve:
  "list_all segment segs \<Longrightarrow> list_all segment outs \<Longrightarrow>
     dots_loop (path_of segs) (path_of outs) = path_of (resolve outs segs) \<or>
     dots_loop (path_of segs) (path_of outs) = [] \<and> resolve outs segs = [[]]"
proof (induction segs arbitrary: outs)
  case Nil
  then show ?case by (simp add: dots_loop.simps)
next
  case (Cons s segs)
  have s: "segment s" "list_all segment segs"
    using Cons.prems by simp_all
  consider "s = ''.''" | "s = ''..''" | "s \<noteq> ''.''" "s \<noteq> ''..''"
    by blast
  then show ?case
  proof cases
    case 1
    then show ?thesis
      using Cons.IH [OF s(2) Cons.prems(2)] dots_loop_dot [of segs "path_of outs"] by (auto simp: path_of_root simp del: path_of_simps(2))
  next
    case 2
    have b: "list_all segment (butlast outs)"
      using Cons.prems(2) by (metis append_butlast_last_id list_all_append butlast.simps(1))
    show ?thesis
      using Cons.IH [OF s(2) b] 2 dots_loop_dotdot [of segs "path_of outs"] pop_last [OF Cons.prems(2)]
        cut_last [OF Cons.prems(2)]
      by (cases "outs = []") (auto simp del: path_of_simps(2))
  next
    case 3
    have "list_all segment (outs @ [s])"
      using Cons.prems s by simp
    from Cons.IH [OF s(2) this] show ?thesis
      using 3 dots_loop_copy [OF s(1) 3, of segs "path_of outs"] by simp
  qed
qed

text \<open>What \<open>resolve\<close> leaves has no dot segments, and resolving it again changes nothing.\<close>

definition no_dots :: "string list \<Rightarrow> bool" where
  "no_dots segs \<longleftrightarrow> ''.'' \<notin> set segs \<and> ''..'' \<notin> set segs"

lemma resolve_no_dots: "no_dots out \<Longrightarrow> no_dots (resolve out segs)"
  by (induction out segs rule: resolve.induct) (auto simp: no_dots_def dest: in_set_butlastD)

lemma resolve_id: "no_dots segs \<Longrightarrow> resolve out segs = out @ segs"
  by (induction segs arbitrary: out) (auto simp: no_dots_def)

lemma resolve_length: "length (path_of (resolve out segs)) \<le> Suc (length (path_of out) + length (path_of segs))"
proof (induction out segs rule: resolve.induct)
  case (2 out s segs)
  have "length (path_of (butlast out)) \<le> length (path_of out)"
    by (cases out rule: rev_cases) simp_all
  with 2 show ?case by auto
qed simp

lemma dots_loop_root: "dots_loop ''/'' [] = ''/''"
  by (simp add: dots_loop.simps)

section \<open>Properties\<close>



text \<open>The second test for a leading dot is never reached: a lone dot segment is kept.\<close>

lemma remove_dot_segments_lone_dot:
  "nsurl__remove_dot_segments ''.'' = ''.'' \<and> nsurl__remove_dot_segments ''..'' = ''..''"
  by (simp add: nsurl__remove_dot_segments_def dots_loop.simps not_slash_def Let_def)

text \<open>The path that climbs out of the root in its last segment.\<close>

lemma remove_dot_segments_above_root:
  "nsurl__remove_dot_segments ''/..'' = [] \<and> path_of (resolve [] [''..'']) = ''/''"
  by (simp add: nsurl__remove_dot_segments_def dots_loop.simps Let_def)

end
