(* ===== verification/Nsurl_Parse.thy ===== *)
theory Nsurl_Parse
  imports Nsurl_Path
begin

text \<open>
  The parser of \<^verbatim>\<open>src/utils/nsurl/parse.c\<close>: pegging out the sections of a URL string,
  normalising a section and turning it into components, \<^verbatim>\<open>nsurl_create\<close> and \<^verbatim>\<open>nsurl_join\<close>.

  Pointers into the URL string are positions, \<open>chr_at\<close> reads the NUL at its end. The buffer
  a section is normalised into is the list of bytes written for this section; reading beyond
  them, or before the start of the buffer, has no defined result, nor has a length that
  wraps below zero: those are the \<open>None\<close> of the model.
\<close>

section \<open>Character tables\<close>

definition digit2uppercase_hex :: "nat \<Rightarrow> char" where
  "digit2uppercase_hex digit = ''0123456789ABCDEF'' ! digit"

text \<open>The true entries of the two tables.\<close>

definition nsurl__is_unreserved :: "nat \<Rightarrow> bool" where
  "nsurl__is_unreserved c \<longleftrightarrow>
     c = 0x2D \<or> c = 0x2E \<or> (0x30 \<le> c \<and> c \<le> 0x39) \<or> (0x41 \<le> c \<and> c \<le> 0x5A) \<or> c = 0x5F \<or>
     (0x61 \<le> c \<and> c \<le> 0x7A) \<or> c = 0x7E"

definition nsurl__is_no_escape :: "nat \<Rightarrow> bool" where
  "nsurl__is_no_escape c \<longleftrightarrow>
     c = 0x21 \<or> c = 0x23 \<or> c = 0x24 \<or> (0x26 \<le> c \<and> c \<le> 0x3B) \<or> c = 0x3D \<or>
     (0x3F \<le> c \<and> c \<le> 0x5B) \<or> c = 0x5D \<or> c = 0x5F \<or> (0x61 \<le> c \<and> c \<le> 0x7A) \<or>
     c = 0x7C \<or> c = 0x7E"

section \<open>Pegging out the sections\<close>

record url_markers =
  m_start :: nat
  m_scheme_end :: nat
  m_authority :: nat
  m_colon_first :: nat
  m_at :: nat
  m_colon_last :: nat
  m_path :: nat
  m_query :: nat
  m_fragment :: nat
  m_end :: nat
  m_scheme_type :: nsurl_scheme_type

definition chr_at :: "string \<Rightarrow> nat \<Rightarrow> char" where
  "chr_at s i = (if i < length s then s ! i else NUL)"

text \<open>\<^verbatim>\<open>while (*pos != '\0' && P(*pos)) pos++\<close>\<close>

definition skip_while :: "(char \<Rightarrow> bool) \<Rightarrow> string \<Rightarrow> nat \<Rightarrow> nat" where
  "skip_while P s pos = pos + length (takeWhile P (drop pos s))"

definition scheme_char :: "char \<Rightarrow> bool" where
  "scheme_char c \<longleftrightarrow> c \<noteq> CHR '':'' \<and>
     (ascii_is_alphanumerical c \<or> c = CHR ''+'' \<or> c = CHR ''-'' \<or> c = CHR ''.'')"

text \<open>The letter by letter comparison with a scheme name in either case.\<close>

definition scheme_letters :: "string \<Rightarrow> string \<Rightarrow> bool" where
  "scheme_letters s name \<longleftrightarrow> list_all2 (\<lambda>c l. c = l \<or> c = ascii_to_upper l) s name"

definition detect_scheme :: "string \<Rightarrow> nsurl_scheme_type" where
  "detect_scheme s =
     (if scheme_letters s ''http'' then NSURL_SCHEME_HTTP
      else if scheme_letters s ''https'' then NSURL_SCHEME_HTTPS
      else if scheme_letters s ''file'' then NSURL_SCHEME_FILE
      else if scheme_letters s ''ftp'' then NSURL_SCHEME_FTP
      else if scheme_letters s ''mailto'' then NSURL_SCHEME_MAILTO
      else if scheme_letters s ''data'' then NSURL_SCHEME_DATA
      else NSURL_SCHEME_OTHER)"

text \<open>
  The state of the scan after a stage: the position and the markers set so far. The markers
  the first stage leaves for the others all start out at the same place.
\<close>

definition peg_at :: "nat \<Rightarrow> url_markers \<Rightarrow> url_markers" where
  "peg_at p m = m\<lparr>m_authority := p, m_colon_first := p, m_at := p, m_colon_last := p, m_path := p\<rparr>"

definition scheme_stage :: "string \<Rightarrow> bool \<Rightarrow> nat \<Rightarrow> url_markers \<Rightarrow> nat \<times> bool \<times> url_markers" where
  "scheme_stage s joining start m =
     (if ascii_is_alpha (chr_at s start) then
        (let pos = skip_while scheme_char s (start + 1) in
         if chr_at s pos = CHR '':'' then
           (let t = detect_scheme (take (pos - start) (drop start s)) in
            (pos + 1, t = NSURL_SCHEME_HTTP \<or> t = NSURL_SCHEME_HTTPS,
             peg_at (pos + 1) (m\<lparr>m_scheme_end := pos, m_scheme_type := t\<rparr>)))
         else if \<not> joining then (pos, True, m\<lparr>m_scheme_type := NSURL_SCHEME_HTTP\<rparr>)
         else (pos, False, m))
      else (start, False, m))"

text \<open>The loop over the authority, from position \<open>pos\<close> with the rest of the string.\<close>

fun authority_loop :: "string \<Rightarrow> nat \<Rightarrow> url_markers \<Rightarrow> nat \<times> url_markers" where
  "authority_loop [] pos m = (pos, m)"
| "authority_loop (c # rest) pos m =
     (if c = CHR ''/'' \<or> c = CHR ''?'' \<or> c = CHR ''#'' then (pos, m)
      else if m_scheme_type m \<noteq> NSURL_SCHEME_MAILTO \<and> c = CHR '':'' \<and> m_colon_first m = m_authority m then
        authority_loop rest (pos + 1) (m\<lparr>m_colon_first := pos\<rparr>)
      else if m_scheme_type m \<noteq> NSURL_SCHEME_MAILTO \<and> c = CHR '':'' \<and> m_colon_first m \<noteq> m_authority m then
        authority_loop rest (pos + 1) (m\<lparr>m_colon_last := pos\<rparr>)
      else if c = CHR ''@'' \<and> m_at m = m_authority m then
        authority_loop rest (pos + 1) (m\<lparr>m_at := pos\<rparr>)
      else authority_loop rest (pos + 1) m)"

definition has_authority :: "string \<Rightarrow> bool \<Rightarrow> bool \<Rightarrow> nat \<Rightarrow> url_markers \<Rightarrow> bool" where
  "has_authority s joining is_http pos m \<longleftrightarrow>
     (chr_at s pos = CHR ''/'' \<and> chr_at s (pos + 1) = CHR ''/'') \<or>
     (is_http \<and> ((joining \<and> chr_at s pos = CHR ''/'') \<or> (\<not> joining \<and> m_scheme_end m \<noteq> m_start m))) \<or>
     m_scheme_type m = NSURL_SCHEME_MAILTO"

definition skip_slashes :: "string \<Rightarrow> bool \<Rightarrow> nat \<Rightarrow> url_markers \<Rightarrow> nat \<times> url_markers" where
  "skip_slashes s is_http pos m =
     (if chr_at s pos = CHR ''/'' then
        (let pos = (if \<not> is_http
                    then (if chr_at s (pos + 1) = CHR ''/'' then pos + 2 else pos + 1)
                    else skip_while (\<lambda>c. c = CHR ''/'') s pos)
         in (pos, peg_at pos m))
      else (pos, m))"

definition authority_stage :: "string \<Rightarrow> bool \<Rightarrow> bool \<Rightarrow> nat \<Rightarrow> url_markers \<Rightarrow> nat \<times> url_markers" where
  "authority_stage s joining is_http pos m =
     (if has_authority s joining is_http pos m then
        (case skip_slashes s is_http pos m of (pos, m) \<Rightarrow>
           case authority_loop (drop pos s) pos m of (pos, m) \<Rightarrow> (pos, m\<lparr>m_path := pos\<rparr>))
      else if (chr_at s pos = NUL \<or> chr_at s pos = CHR ''/'') \<and> \<not> joining \<and> is_http
      then (pos, m\<lparr>m_path := pos\<rparr>)
      else (pos, m))"

definition path_stage :: "string \<Rightarrow> nat \<Rightarrow> url_markers \<Rightarrow> nat" where
  "path_stage s pos m =
     (if chr_at s pos = CHR ''/'' \<or>
         (m_path m = m_authority m \<and> chr_at s pos \<noteq> CHR ''?'' \<and> chr_at s pos \<noteq> CHR ''#'' \<and> chr_at s pos \<noteq> NUL)
      then skip_while (\<lambda>c. c \<noteq> CHR ''?'' \<and> c \<noteq> CHR ''#'') s (pos + 1)
      else pos)"

definition query_stage :: "string \<Rightarrow> nat \<Rightarrow> nat" where
  "query_stage s pos =
     (if chr_at s pos = CHR ''?'' then skip_while (\<lambda>c. c \<noteq> CHR ''#'') s (pos + 1) else pos)"

definition fragment_stage :: "string \<Rightarrow> nat \<Rightarrow> nat" where
  "fragment_stage s pos =
     (if chr_at s pos = CHR ''#'' then skip_while (\<lambda>c. True) s (pos + 1) else pos)"

text \<open>Back over trailing white space from the end \<open>pos\<close> of the string.\<close>

definition trim_end :: "string \<Rightarrow> nat \<Rightarrow> nat" where
  "trim_end s pos = pos - length (takeWhile ascii_is_space (rev (take pos s)))"

definition clamp_markers :: "url_markers \<Rightarrow> url_markers" where
  "clamp_markers m =
     (let e = m_end m in
      m\<lparr>m_fragment := min (m_fragment m) e, m_query := min (m_query m) e, m_path := min (m_path m) e,
        m_colon_last := min (m_colon_last m) e, m_at := min (m_at m) e\<rparr>)"

definition blank_markers :: "nat \<Rightarrow> url_markers" where
  "blank_markers start =
     \<lparr>m_start = start, m_scheme_end = start, m_authority = start, m_colon_first = start,
      m_at = start, m_colon_last = start, m_path = start, m_query = start,
      m_fragment = start, m_end = start, m_scheme_type = NSURL_SCHEME_OTHER\<rparr>"

text \<open>The path, the query, the fragment and the end, after the authority.\<close>

definition finish_markers :: "string \<Rightarrow> nat \<Rightarrow> url_markers \<Rightarrow> url_markers" where
  "finish_markers s pos m =
     (let query = path_stage s pos m;
          fragment = query_stage s query;
          pos = fragment_stage s fragment;
          m = m\<lparr>m_query := query, m_fragment := fragment, m_end := trim_end s pos\<rparr> in
      if ascii_is_space (chr_at s (pos - 1)) then clamp_markers m else m)"

definition nsurl__get_string_markers :: "string \<Rightarrow> bool \<Rightarrow> url_markers" where
  "nsurl__get_string_markers s joining =
     (let start = skip_while ascii_is_space s 0; m = blank_markers start in
      if chr_at s start = NUL then m
      else
        (case scheme_stage s joining start m of (pos, is_http, m) \<Rightarrow>
         case authority_stage s joining is_http pos m of (pos, m) \<Rightarrow> finish_markers s pos m))"

definition nsurl__get_longest_section :: "url_markers \<Rightarrow> nat" where
  "nsurl__get_longest_section m =
     (let length = m_scheme_end m - m_start m;
          length = (if length < m_at m - m_authority m then m_at m - m_authority m else length);
          length = (if length < m_path m - m_at m then m_path m - m_at m else length);
          length = (if length < m_query m - m_path m then m_query m - m_path m else length);
          length = (if length < m_fragment m - m_query m then m_fragment m - m_query m else length);
          length = (if length < m_end m - m_fragment m then m_end m - m_fragment m else length)
      in length)"

section \<open>Normalising a section\<close>

datatype url_section = URL_SCHEME | URL_CREDENTIALS | URL_HOST | URL_PATH | URL_QUERY | URL_FRAGMENT

definition lower_section :: "url_section \<Rightarrow> bool" where
  "lower_section sect \<longleftrightarrow> sect = URL_SCHEME \<or> sect = URL_HOST"

text \<open>
  Stage 1 of \<^verbatim>\<open>nsurl__create_from_section\<close>: the rest of the section, and the bytes in the buffer
  with the length the code keeps track of. Pending bytes (\<^verbatim>\<open>copy_len\<close>) are bytes of the buffer
  here, since every branch that writes flushes them first.
\<close>

function normalise_loop :: "url_section \<Rightarrow> string \<Rightarrow> string \<times> nat \<Rightarrow> string \<times> nat" where
  "normalise_loop sect [] buf = buf"
| "normalise_loop sect (c # rest) buf =
     (case buf of (out, len) \<Rightarrow>
       if c = CHR ''%'' \<and> 2 \<le> length rest then
         (let ascii_offset = ascii_hex_to_value_2_chars (rest ! 0) (rest ! 1) in
          if ascii_offset < 0 then normalise_loop sect rest (out @ [c], len)
          else if \<not> lower_section sect \<and> \<not> nsurl__is_unreserved (nat ascii_offset) then
            normalise_loop sect (drop 2 rest) (out @ c # take 2 rest, len)
          else normalise_loop sect (drop 2 rest) (out @ [char_of (nat ascii_offset)], len - 2))
       else if \<not> lower_section sect \<and> \<not> nsurl__is_no_escape (ord_char c) then
         normalise_loop sect rest
           (out @ [CHR ''%'', digit2uppercase_hex (ord_char c div 16), digit2uppercase_hex (ord_char c mod 16)],
            len + 2)
       else if lower_section sect \<and> ascii_is_alpha_upper c then
         normalise_loop sect rest (out @ [ascii_to_lower c], len)
       else normalise_loop sect rest (out @ [c], len))"
  by pat_completeness auto
termination
  by (relation "measure (\<lambda>(sect, rest, buf). length rest)") auto

declare normalise_loop.simps(2) [simp del]

definition section_bounds :: "string \<Rightarrow> url_section \<Rightarrow> url_markers \<Rightarrow> nat \<times> nat" where
  "section_bounds url_s sect pegs = (case sect of
     URL_SCHEME \<Rightarrow> (m_start pegs, m_scheme_end pegs)
   | URL_CREDENTIALS \<Rightarrow> (m_authority pegs, m_at pegs)
   | URL_HOST \<Rightarrow> (if m_at pegs = m_authority pegs \<and> chr_at url_s (m_at pegs) \<noteq> CHR ''@''
                  then m_at pegs else m_at pegs + 1, m_path pegs)
   | URL_PATH \<Rightarrow> (m_path pegs, m_query pegs)
   | URL_QUERY \<Rightarrow> (if chr_at url_s (m_query pegs) \<noteq> CHR ''?'' then m_query pegs else m_query pegs + 1,
                   m_fragment pegs)
   | URL_FRAGMENT \<Rightarrow> (if chr_at url_s (m_fragment pegs) \<noteq> CHR ''#'' then m_fragment pegs
                      else m_fragment pegs + 1, m_end pegs))"

definition section_text :: "string \<Rightarrow> url_section \<Rightarrow> url_markers \<Rightarrow> string" where
  "section_text url_s sect pegs =
     (case section_bounds url_s sect pegs of (start, end') \<Rightarrow> take (end' - start) (drop start url_s))"

definition normalise_section :: "string \<Rightarrow> url_section \<Rightarrow> url_markers \<Rightarrow> string \<times> nat" where
  "normalise_section url_s sect pegs =
     (case section_bounds url_s sect pegs of (start, end') \<Rightarrow>
        normalise_loop sect (section_text url_s sect pegs) ([], end' - start))"

section \<open>Components from a section\<close>

type_synonym section_result = "(nserror \<times> nsurl_components \<times> mem) option"

text \<open>\<open>n\<close> bytes of the buffer from \<open>off\<close> on, where this section has written them.\<close>

definition buf_slice :: "string \<Rightarrow> int \<Rightarrow> int \<Rightarrow> string option" where
  "buf_slice norm off n =
     (if 0 \<le> off \<and> 0 \<le> n \<and> off + n \<le> int (length norm)
      then Some (take (nat n) (drop (nat off) norm)) else None)"

text \<open>Interning into a field of the components; the field is NULL when that fails.\<close>

definition intern_into ::
  "string option \<Rightarrow> (string option \<Rightarrow> nsurl_components) \<Rightarrow> mem \<Rightarrow>
     (nsurl_components \<Rightarrow> mem \<Rightarrow> section_result) \<Rightarrow> section_result" where
  "intern_into s set_field m k =
     (case s of
        None \<Rightarrow> None
      | Some s \<Rightarrow>
          (case lwc_intern_string s m of
             (None, m') \<Rightarrow> Some (NSERROR_NOMEM, set_field None, m')
           | (Some x, m') \<Rightarrow> k (set_field (Some x)) m'))"

definition section_ok :: "nsurl_components \<Rightarrow> mem \<Rightarrow> section_result" where
  "section_ok c m = Some (NSERROR_OK, c, m)"

definition create_scheme :: "string \<Rightarrow> nat \<Rightarrow> nsurl_components \<Rightarrow> mem \<Rightarrow> section_result" where
  "create_scheme norm len c m =
     (if len = 0 then section_ok (c\<lparr>uc_scheme := Some ''http''\<rparr>) (lwc_string_ref m)
      else intern_into (buf_slice norm 0 (int len)) (\<lambda>x. c\<lparr>uc_scheme := x\<rparr>) m section_ok)"

definition create_username :: "string \<Rightarrow> int \<Rightarrow> nsurl_components \<Rightarrow> mem \<Rightarrow> section_result" where
  "create_username norm n c m =
     intern_into (buf_slice norm 0 n) (\<lambda>x. c\<lparr>uc_username := x\<rparr>) m section_ok"

definition create_credentials ::
  "url_markers \<Rightarrow> string \<Rightarrow> nat \<Rightarrow> nsurl_components \<Rightarrow> mem \<Rightarrow> section_result" where
  "create_credentials pegs norm len c m =
     (let c = c\<lparr>uc_username := None, uc_password := None\<rparr> in
      if uc_scheme_type c = NSURL_SCHEME_FILE then section_ok c m
      else if len \<noteq> 0 \<and> peek norm \<noteq> CHR '':'' then
        (if m_colon_first pegs \<noteq> m_authority pegs \<and> m_at pegs > m_colon_first pegs + 1 then
           intern_into (buf_slice norm (int (m_colon_first pegs) - int (m_authority pegs) + 1)
                          (int (m_at pegs) - int (m_colon_first pegs) - 1))
             (\<lambda>x. c\<lparr>uc_password := x\<rparr>) m
             (create_username norm (int len - (int (m_at pegs) - int (m_colon_first pegs))))
         else if m_colon_first pegs \<noteq> m_authority pegs \<and> m_at pegs = m_colon_first pegs + 1 then
           create_username norm (int len - 1) c m
         else create_username norm (int len) c m)
      else section_ok c m)"

text \<open>The colon that may separate the host from a port.\<close>

definition host_colon :: "url_markers \<Rightarrow> nat option" where
  "host_colon pegs =
     (if m_at pegs < m_colon_first pegs \<and> m_colon_last pegs = m_authority pegs then Some (m_colon_first pegs)
      else if m_colon_last pegs \<noteq> m_authority pegs then Some (m_colon_last pegs)
      else None)"

text \<open>
  The end of the host case: \<open>n\<close> bytes of the buffer are the host name. The encoder returns a
  block holding the encoded name, which is lost when interning it fails; a null pointer is not interned.
\<close>

definition create_host_name :: "string \<Rightarrow> int \<Rightarrow> nsurl_components \<Rightarrow> mem \<Rightarrow> section_result" where
  "create_host_name norm n c m =
     (case buf_slice norm 0 n of
        None \<Rightarrow> None
      | Some name \<Rightarrow>
          (case idna_encode norm (nat n) m of
             None \<Rightarrow> None
           | Some (Inr (None, host_len), m1) \<Rightarrow> None
           | Some (Inr (Some host, host_len), m1) \<Rightarrow>
               intern_into (buf_slice host 0 (int host_len)) (\<lambda>x. c\<lparr>uc_host := x\<rparr>) m1 (\<lambda>c m2. section_ok c (free_block m2))
           | Some (Inl _, m1) \<Rightarrow> intern_into (Some name) (\<lambda>x. c\<lparr>uc_host := x\<rparr>) m1 section_ok))"

definition create_host ::
  "url_markers \<Rightarrow> string \<Rightarrow> nat \<Rightarrow> nsurl_components \<Rightarrow> mem \<Rightarrow>
     section_result" where
  "create_host pegs norm len c m =
     (let c = c\<lparr>uc_host := None, uc_port := None\<rparr> in
      if uc_scheme_type c = NSURL_SCHEME_FILE then section_ok c m
      else if len = 0 then section_ok c m
      else (case host_colon pegs of
          None \<Rightarrow> create_host_name norm (int len) c m
        | Some colon \<Rightarrow>
            (let off = int colon - int (m_at pegs);
                 skip = (if m_at pegs = m_authority pegs then 1 else 0) in
             if off < 0 then None
             else if \<not> list_all ascii_is_digit (drop (nat off + 1) (take len norm)) then
               create_host_name norm (int len) c m
             else
               (let redundant = uc_scheme c \<noteq> None \<and> uc_scheme_type c = NSURL_SCHEME_HTTP \<and>
                      int len - (off + skip) = 2 \<and> norm ! nat (off + skip) = CHR ''8'' \<and>
                      norm ! nat (off + skip + 1) = CHR ''0'';
                    host_len = off - (if m_at pegs = m_authority pegs then 0 else 1) in
                if redundant \<or> int len \<le> off + skip then
                  create_host_name norm host_len c m
                else intern_into (buf_slice norm (off + skip) (int len - (off + skip)))
                       (\<lambda>x. c\<lparr>uc_port := x\<rparr>) m (create_host_name norm host_len)))))"

definition create_path :: "string \<Rightarrow> nat \<Rightarrow> nsurl_components \<Rightarrow> mem \<Rightarrow> section_result" where
  "create_path norm len c m =
     (if len \<noteq> 0 then intern_into (buf_slice norm 0 (int len)) (\<lambda>x. c\<lparr>uc_path := x\<rparr>) m section_ok
      else if (uc_host c \<noteq> None \<and> uc_scheme_type c \<noteq> NSURL_SCHEME_MAILTO) \<or>
              uc_scheme_type c = NSURL_SCHEME_FILE
      then intern_into (Some ''/'') (\<lambda>x. c\<lparr>uc_path := x\<rparr>) m section_ok
      else section_ok (c\<lparr>uc_path := None\<rparr>) m)"

definition create_query :: "string \<Rightarrow> nat \<Rightarrow> nsurl_components \<Rightarrow> mem \<Rightarrow> section_result" where
  "create_query norm len c m =
     (if len \<noteq> 0 then intern_into (buf_slice norm 0 (int len)) (\<lambda>x. c\<lparr>uc_query := x\<rparr>) m section_ok
      else section_ok (c\<lparr>uc_query := None\<rparr>) m)"

definition create_fragment :: "string \<Rightarrow> nat \<Rightarrow> nsurl_components \<Rightarrow> mem \<Rightarrow> section_result" where
  "create_fragment norm len c m =
     (if len \<noteq> 0 then intern_into (buf_slice norm 0 (int len)) (\<lambda>x. c\<lparr>uc_fragment := x\<rparr>) m section_ok
      else section_ok (c\<lparr>uc_fragment := None\<rparr>) m)"

definition nsurl__create_from_section ::
  "string \<Rightarrow> url_section \<Rightarrow> url_markers \<Rightarrow>
     nsurl_components \<Rightarrow> mem \<Rightarrow> section_result" where
  "nsurl__create_from_section url_s sect pegs c m =
     (case normalise_section url_s sect pegs of (norm, len) \<Rightarrow>
        (case sect of
           URL_SCHEME \<Rightarrow> create_scheme norm len c m
         | URL_CREDENTIALS \<Rightarrow> create_credentials pegs norm len c m
         | URL_HOST \<Rightarrow> create_host pegs norm len c m
         | URL_PATH \<Rightarrow> create_path norm len c m
         | URL_QUERY \<Rightarrow> create_query norm len c m
         | URL_FRAGMENT \<Rightarrow> create_fragment norm len c m))"

section \<open>Creating a URL\<close>

definition null_components :: "nsurl_scheme_type \<Rightarrow> nsurl_components" where
  "null_components t =
     \<lparr>uc_scheme = None, uc_username = None, uc_password = None, uc_host = None, uc_port = None,
      uc_path = None, uc_query = None, uc_fragment = None, uc_scheme_type = t\<rparr>"

text \<open>
  The six sections in order; each is built even when an earlier one has failed, and the error
  codes are combined. (\<^verbatim>\<open>NSERROR_OK\<close> is zero and the only error is \<^verbatim>\<open>NSERROR_NOMEM\<close>.) Each
  section sets its own fields first, so it does not matter that the code starts with
  uninitialised ones.
\<close>

fun create_sections ::
  "string \<Rightarrow> url_markers \<Rightarrow> url_section list \<Rightarrow>
     nserror \<Rightarrow> nsurl_components \<Rightarrow> mem \<Rightarrow> section_result" where
  "create_sections url_s pegs [] e c m = Some (e, c, m)"
| "create_sections url_s pegs (sect # sects) e c m =
     (case nsurl__create_from_section url_s sect pegs c m of
        None \<Rightarrow> None
      | Some (e', c', m') \<Rightarrow>
          create_sections url_s pegs sects (if e = NSERROR_OK then e' else e) c' m')"

text \<open>The end of \<^verbatim>\<open>nsurl_create\<close> and \<^verbatim>\<open>nsurl_join\<close>: the object for a set of components.\<close>

definition nsurl_from_components :: "nsurl_components \<Rightarrow> mem \<Rightarrow> nsurl result \<times> mem" where
  "nsurl_from_components c m =
     (case nsurl__components_to_string c NSURL_WITH_FRAGMENT m of
        (Inl e, m1) \<Rightarrow> (Inl e, m1)
      | (Inr (s, len), m1) \<Rightarrow>
          (Inr \<lparr>url_components = c, url_count = 1, url_hash = nsurl__calc_hash c, url_length = len,
                url_string = s\<rparr>, m1))"

definition nsurl_create ::
  "string \<Rightarrow> mem \<Rightarrow> (nsurl result \<times> mem) option" where
  "nsurl_create url_s m =
     (let pegs = nsurl__get_string_markers url_s False in
      case malloc m of (ok, m1) \<Rightarrow>
        if \<not> ok then Some (Inl NSERROR_NOMEM, m1)
        else (case create_sections url_s pegs
                     [URL_SCHEME, URL_CREDENTIALS, URL_HOST, URL_PATH, URL_QUERY, URL_FRAGMENT]
                     NSERROR_OK (null_components (m_scheme_type pegs)) m1 of
            None \<Rightarrow> None
          | Some (e, c, m2) \<Rightarrow>
              (let m3 = free_block m2 in
               if e \<noteq> NSERROR_OK then Some (Inl NSERROR_NOMEM, nsurl__components_destroy c m3)
               else if (uc_scheme c = Some ''http'' \<or> uc_scheme c = Some ''https'') \<and> uc_host c = None then
                 Some (Inl NSERROR_BAD_URL, nsurl__components_destroy c m3)
               else Some (nsurl_from_components c m3))))"

section \<open>Joining a reference to a base\<close>

record joined_parts =
  base_scheme :: bool
  base_authority :: bool
  base_path :: bool
  merged_path :: bool
  base_query :: bool

text \<open>
  A difference of two \<^verbatim>\<open>size_t\<close> markers is at most zero exactly when they are equal.
\<close>

definition joined_parts_of :: "string \<Rightarrow> url_markers \<Rightarrow> joined_parts" where
  "joined_parts_of rel m =
     (let no_scheme = (m_scheme_end m = m_start m);
          no_authority = (no_scheme \<and> m_path m = m_authority m);
          no_path = (no_authority \<and> m_query m = m_path m) in
      \<lparr>base_scheme = no_scheme, base_authority = no_authority, base_path = no_path,
       merged_path = (no_authority \<and> \<not> no_path \<and> chr_at rel (m_path m) \<noteq> CHR ''/''),
       base_query = (no_path \<and> m_fragment m = m_query m)\<rparr>)"

text \<open>Back to the last slash of the base path, from the NUL at its end.\<close>

fun merge_back :: "string \<Rightarrow> nat \<Rightarrow> nat" where
  "merge_back path 0 = 0"
| "merge_back path (Suc k) = (if chr_at path (Suc k) \<noteq> CHR ''/'' then merge_back path k else Suc k)"

definition merge_prefix :: "string \<Rightarrow> string" where
  "merge_prefix path =
     (let path_end = merge_back path (length path) in
      take (if chr_at path path_end = CHR ''/'' then path_end + 1 else path_end) path)"

text \<open>The path of the joined URL from \<open>path\<close>, which is in the buffer, without its dot segments.\<close>

definition join_path ::
  "string \<Rightarrow> nsurl_components \<Rightarrow> mem \<Rightarrow> section_result" where
  "join_path path c m =
     (let new_path = nsurl__remove_dot_segments path;
          m_path = \<lparr>m_start = 0, m_scheme_end = 0, m_authority = 0, m_colon_first = 0, m_at = 0,
                    m_colon_last = 0, m_path = 0, m_query = length new_path, m_fragment = 0, m_end = 0,
                    m_scheme_type = NSURL_SCHEME_OTHER\<rparr> in
      nsurl__create_from_section new_path URL_PATH m_path c m)"

text \<open>One step after another, as long as there is no error.\<close>

definition section_then ::
  "section_result \<Rightarrow> (nsurl_components \<Rightarrow> mem \<Rightarrow> section_result) \<Rightarrow> section_result" where
  "section_then r k =
     (case r of
        None \<Rightarrow> None
      | Some (e, c, m) \<Rightarrow> if e \<noteq> NSERROR_OK then Some (e, c, m) else k c m)"

definition join_scheme ::
  "nsurl_components \<Rightarrow> string \<Rightarrow> url_markers \<Rightarrow> joined_parts \<Rightarrow>
     mem \<Rightarrow> section_result" where
  "join_scheme b rel pegs parts m =
     (if base_scheme parts then
        section_ok ((null_components (uc_scheme_type b))\<lparr>uc_scheme := uc_scheme b\<rparr>)
          (nsurl__component_copy (uc_scheme b) m)
      else nsurl__create_from_section rel URL_SCHEME pegs
             (null_components (m_scheme_type pegs)) m)"

definition join_authority ::
  "nsurl_components \<Rightarrow> string \<Rightarrow> url_markers \<Rightarrow> joined_parts \<Rightarrow>
     nsurl_components \<Rightarrow> mem \<Rightarrow> section_result" where
  "join_authority b rel pegs parts c m =
     (if base_authority parts then
        section_ok (c\<lparr>uc_username := uc_username b, uc_password := uc_password b, uc_host := uc_host b,
                      uc_port := uc_port b\<rparr>) (copy_authority b m)
      else section_then (nsurl__create_from_section rel URL_CREDENTIALS pegs c m)
             (nsurl__create_from_section rel URL_HOST pegs))"

definition join_paths ::
  "nsurl_components \<Rightarrow> string \<Rightarrow> url_markers \<Rightarrow> joined_parts \<Rightarrow>
     nsurl_components \<Rightarrow> mem \<Rightarrow> section_result" where
  "join_paths b rel pegs parts c m =
     (let rel_path = take (m_query pegs - m_path pegs) (drop (m_path pegs) rel) in
      if base_path parts then
        section_ok (c\<lparr>uc_path := uc_path b\<rparr>) (nsurl__component_copy (uc_path b) m)
      else if merged_path parts then
        (case uc_path b of
           None \<Rightarrow> None
         | Some path \<Rightarrow> join_path (merge_prefix path @ rel_path) c m)
      else join_path rel_path c m)"

definition join_query ::
  "nsurl_components \<Rightarrow> string \<Rightarrow> url_markers \<Rightarrow> joined_parts \<Rightarrow>
     nsurl_components \<Rightarrow> mem \<Rightarrow> section_result" where
  "join_query b rel pegs parts c m =
     (if base_query parts then
        section_ok (c\<lparr>uc_query := uc_query b\<rparr>) (nsurl__component_copy (uc_query b) m)
      else nsurl__create_from_section rel URL_QUERY pegs c m)"

definition nsurl_join ::
  "nsurl \<Rightarrow> string \<Rightarrow> mem \<Rightarrow> (nsurl result \<times> mem) option" where
  "nsurl_join base rel m =
     (let pegs = nsurl__get_string_markers rel True;
          parts = joined_parts_of rel pegs;
          b = url_components base in
      case malloc m of (ok, m1) \<Rightarrow>
        if \<not> ok then Some (Inl NSERROR_NOMEM, m1)
        else (case section_then (join_scheme b rel pegs parts m1) (\<lambda>c m.
                   section_then (join_authority b rel pegs parts c m) (\<lambda>c m.
                   section_then (join_paths b rel pegs parts c m) (\<lambda>c m.
                   section_then (join_query b rel pegs parts c m)
                     (nsurl__create_from_section rel URL_FRAGMENT pegs)))) of
            None \<Rightarrow> None
          | Some (e, c, m2) \<Rightarrow>
              (let m3 = free_block m2 in
               if e \<noteq> NSERROR_OK then Some (Inl e, m3) else Some (nsurl_from_components c m3))))"

section \<open>The markers\<close>

lemma chr_at_drop: "chr_at s i = peek (drop i s)"
  by (cases "i < length s") (simp_all add: chr_at_def Cons_nth_drop_Suc [symmetric])

lemma chr_at_not_NUL: "chr_at s i \<noteq> NUL \<Longrightarrow> i < length s \<and> s ! i = chr_at s i"
  by (auto simp: chr_at_def split: if_splits)

lemma skip_while_le: "pos \<le> length s \<Longrightarrow> skip_while P s pos \<le> length s"
  using length_takeWhile_le [of P "drop pos s"] by (auto simp: skip_while_def)

lemma skip_while_ge: "pos \<le> skip_while P s pos"
  by (simp add: skip_while_def)

text \<open>The markers cut the string into consecutive sections.\<close>

definition markers_ordered :: "string \<Rightarrow> url_markers \<Rightarrow> bool" where
  "markers_ordered s m \<longleftrightarrow>
     m_start m \<le> m_scheme_end m \<and> m_scheme_end m \<le> m_authority m \<and> m_authority m \<le> m_at m \<and>
     m_at m \<le> m_path m \<and> m_path m \<le> m_query m \<and> m_query m \<le> m_fragment m \<and>
     m_fragment m \<le> m_end m \<and> m_end m \<le> length s"

text \<open>What holds after each stage, at position \<open>pos\<close>.\<close>

definition anchored :: "string \<Rightarrow> nat \<Rightarrow> nat \<Rightarrow> bool" where
  "anchored s start p \<longleftrightarrow> p = start \<or> 0 < p \<and> p \<le> length s \<and> \<not> ascii_is_space (s ! (p - 1))"

definition stage_ok :: "string \<Rightarrow> nat \<Rightarrow> nat \<Rightarrow> url_markers \<Rightarrow> bool" where
  "stage_ok s start pos m \<longleftrightarrow>
     m_start m = start \<and> start \<le> m_scheme_end m \<and> m_scheme_end m \<le> m_authority m \<and>
     m_authority m \<le> m_at m \<and> m_at m \<le> m_path m \<and> m_path m \<le> pos \<and> pos \<le> length s \<and>
     anchored s start (m_authority m)"

text \<open>A colon or an at sign is marked inside the authority, or the mark is not set.\<close>

definition colon_mark :: "string \<Rightarrow> nat \<Rightarrow> nat \<Rightarrow> nat \<Rightarrow> bool" where
  "colon_mark s auth path x \<longleftrightarrow> x = auth \<or> auth \<le> x \<and> x < path \<and> s ! x = CHR '':''"

definition marks_ok :: "string \<Rightarrow> nat \<Rightarrow> url_markers \<Rightarrow> bool" where
  "marks_ok s path m \<longleftrightarrow>
     colon_mark s (m_authority m) path (m_colon_first m) \<and> colon_mark s (m_authority m) path (m_colon_last m) \<and>
     (m_at m = m_authority m \<or> m_at m < path \<and> s ! m_at m = CHR ''@'')"

lemma scheme_stage_ok:
  assumes "scheme_stage s joining start m = (pos, h, m')" and "stage_ok s start start m"
    and "m_scheme_end m = start" "m_path m = start"
  shows "stage_ok s start pos m'"
proof -
  let ?p = "skip_while scheme_char s (start + 1)"
  have p: "start \<le> ?p" "?p \<le> length s" if "ascii_is_alpha (chr_at s start)"
  proof -
    have "chr_at s start \<noteq> NUL"
      using that by (auto simp: ascii_class_defs)
    then show "?p \<le> length s"
      using chr_at_not_NUL [of s start] by (intro skip_while_le) simp
    show "start \<le> ?p"
      using skip_while_ge [of "start + 1" scheme_char s] by simp
  qed
  consider (none) "\<not> ascii_is_alpha (chr_at s start)" "pos = start" "m' = m"
    | (scheme) t where "ascii_is_alpha (chr_at s start)" "chr_at s ?p = CHR '':''" "pos = ?p + 1"
        "m' = peg_at (?p + 1) (m\<lparr>m_scheme_end := ?p, m_scheme_type := t\<rparr>)"
    | (name) t where "ascii_is_alpha (chr_at s start)" "pos = ?p" "m' = m\<lparr>m_scheme_type := t\<rparr> \<or> m' = m"
    using assms(1) unfolding scheme_stage_def Let_def by (auto split: if_split_asm)
  then show ?thesis
  proof cases
    case none
    with assms(2) show ?thesis by simp
  next
    case scheme
    have "?p < length s" "s ! ?p = CHR '':''"
      using chr_at_not_NUL [of s ?p] scheme(2) by simp_all
    then show ?thesis
      using p(1) [OF scheme(1)] assms(2) unfolding scheme(3,4)
      by (simp add: stage_ok_def peg_at_def anchored_def ascii_is_space_def)
  next
    case name
    then show ?thesis
      using p [OF name(1)] assms(2) by (auto simp: stage_ok_def)
  qed
qed

lemma authority_loop_ok:
  "authority_loop rest pos m = (pos', m') \<Longrightarrow> m_authority m \<le> m_at m \<Longrightarrow> m_at m \<le> pos \<Longrightarrow>
     m_authority m \<le> pos \<Longrightarrow>
     pos \<le> pos' \<and> pos' \<le> pos + length rest \<and> m_authority m' = m_authority m \<and> m_at m' \<le> pos' \<and>
     m_authority m' \<le> m_at m' \<and> m_start m' = m_start m \<and> m_scheme_end m' = m_scheme_end m \<and>
     m_scheme_type m' = m_scheme_type m"
proof (induction rest arbitrary: pos m)
  case (Cons c rest)
  show ?case
    using Cons.prems Cons.IH [of "pos + 1" m] Cons.IH [of "pos + 1" "m\<lparr>m_colon_first := pos\<rparr>"]
      Cons.IH [of "pos + 1" "m\<lparr>m_colon_last := pos\<rparr>"] Cons.IH [of "pos + 1" "m\<lparr>m_at := pos\<rparr>"]
    by (simp split: if_split_asm)
qed simp

definition section_stop :: "char \<Rightarrow> bool" where
  "section_stop c \<longleftrightarrow> c = CHR ''/'' \<or> c = CHR ''?'' \<or> c = CHR ''#'' \<or> c = NUL"

lemma authority_loop_stop:
  "authority_loop rest pos m = (pos', m') \<Longrightarrow> pos \<le> pos' \<and> section_stop (peek (drop (pos' - pos) rest))"
proof (induction rest arbitrary: pos m)
  case (Cons c rest)
  have step: "pos \<le> pos' \<and> section_stop (peek (drop (pos' - pos) (c # rest)))"
    if "authority_loop rest (pos + 1) m1 = (pos', m')" for m1
  proof -
    have "pos' - pos = Suc (pos' - (pos + 1))"
      using Cons.IH [OF that, THEN conjunct1] by simp
    then show ?thesis
      using Cons.IH [OF that] by simp
  qed
  show ?case
    using Cons.prems step by (auto simp: section_stop_def split: if_splits)
qed (simp add: section_stop_def)

lemma skip_slashes_ok:
  assumes "skip_slashes s h pos m = (p, m')" and "stage_ok s start pos m"
  shows "stage_ok s start p m'"
proof (cases "chr_at s pos = CHR ''/''")
  case True
  have slashes: "stage_ok s start p (peg_at p m)"
    if "pos < p" "p \<le> length s" "s ! (p - 1) = CHR ''/''" for p
    using assms(2) that by (simp add: stage_ok_def peg_at_def anchored_def ascii_is_space_def)
  have skip: "pos < p \<and> p \<le> length s \<and> s ! (p - 1) = CHR ''/''"
    if p: "p = (if \<not> h
         then (if chr_at s (pos + 1) = CHR ''/'' then pos + 2 else pos + 1)
         else skip_while (\<lambda>c. c = CHR ''/'') s pos)" for p
  proof (cases h)
    case http: True
    let ?w = "takeWhile (\<lambda>c. c = CHR ''/'') (drop pos s)"
    have "drop pos s = CHR ''/'' # drop (Suc pos) s"
      using chr_at_not_NUL [of s pos] \<open>chr_at s pos = CHR ''/''\<close> Cons_nth_drop_Suc [of pos s] by simp
    then have w: "0 < length ?w" by simp
    have "?w ! (length ?w - 1) = CHR ''/''"
      using set_takeWhileD [OF nth_mem [of "length ?w - 1" ?w]] w by simp
    then have "s ! (pos + (length ?w - 1)) = CHR ''/''"
      using w takeWhile_nth [of "length ?w - 1" "\<lambda>c. c = CHR ''/''" "drop pos s"]
        nth_drop [of pos s] chr_at_not_NUL [of s pos] \<open>chr_at s pos = CHR ''/''\<close> by simp
    then show ?thesis
      using w http p assms(2) skip_while_le [of pos s "\<lambda>c. c = CHR ''/''"]
      by (simp add: stage_ok_def skip_while_def)
  next
    case False
    then show ?thesis
      using p \<open>chr_at s pos = CHR ''/''\<close> chr_at_not_NUL [of s pos] chr_at_not_NUL [of s "pos + 1"] by auto
  qed
  from True assms(1) have p: "p = (if \<not> h
         then (if chr_at s (pos + 1) = CHR ''/'' then pos + 2 else pos + 1)
         else skip_while (\<lambda>c. c = CHR ''/'') s pos)" and m': "m' = peg_at p m"
    unfolding skip_slashes_def Let_def by auto
  show ?thesis
    unfolding m' using skip [OF p] slashes by blast
qed (use assms in \<open>simp add: skip_slashes_def\<close>)

lemma authority_loop_marks:
  "authority_loop (drop pos s) pos m = (pos', m') \<Longrightarrow> m_authority m \<le> pos \<Longrightarrow> marks_ok s pos m \<Longrightarrow>
     marks_ok s pos' m'"
proof (induction "drop pos s" arbitrary: pos m)
  case (Cons c rest)
  then have pos: "pos < length s" "s ! pos = c" "rest = drop (pos + 1) s"
    by (metis drop_eq_Nil2 linorder_not_less list.distinct(1))
       (metis Cons.hyps(2) nth_via_drop, metis Cons.hyps(2) drop_Suc tl_drop list.sel(3) Suc_eq_plus1)
  have mono: "marks_ok s (pos + 1) m"
    using Cons.prems(3) by (auto simp: marks_ok_def colon_mark_def)
  then have sets: "c = CHR '':'' \<Longrightarrow> marks_ok s (pos + 1) (m\<lparr>m_colon_first := pos\<rparr>)"
    "c = CHR '':'' \<Longrightarrow> marks_ok s (pos + 1) (m\<lparr>m_colon_last := pos\<rparr>)"
    "c = CHR ''@'' \<Longrightarrow> marks_ok s (pos + 1) (m\<lparr>m_at := pos\<rparr>)"
    using pos(2) Cons.prems(2) by (auto simp: marks_ok_def colon_mark_def)
  have step: "marks_ok s pos' m'"
    if "authority_loop rest (pos + 1) m1 = (pos', m')" "marks_ok s (pos + 1) m1" "m_authority m1 = m_authority m" for m1
    using Cons.hyps(1) [OF pos(3)] that Cons.prems(2) pos(3) by simp
  show ?case
    using Cons.prems(1,3) step mono sets unfolding Cons.hyps(2) [symmetric]
    by (auto split: if_splits)
qed simp

lemma authority_stage_marks:
  assumes "authority_stage s joining h pos m = (pos', m')"
    and "m_path m = m_authority m" "m_at m = m_authority m" "m_colon_first m = m_authority m"
      "m_colon_last m = m_authority m" "m_authority m \<le> pos"
  shows "marks_ok s (m_path m') m'"
proof (cases "has_authority s joining h pos m")
  case True
  obtain p m1 where 1: "skip_slashes s h pos m = (p, m1)"
    by (cases "skip_slashes s h pos m")
  obtain p1 m2 where 2: "authority_loop (drop p s) p m1 = (p1, m2)"
    by (cases "authority_loop (drop p s) p m1")
  have m1: "m_at m1 = m_authority m1 \<and> m_colon_first m1 = m_authority m1 \<and> m_colon_last m1 = m_authority m1 \<and>
      m_authority m1 \<le> p"
    using 1 assms(3-6) by (auto simp: skip_slashes_def peg_at_def Let_def split: if_splits)
  have "marks_ok s p1 m2"
    using authority_loop_marks [OF 2] m1 by (simp add: marks_ok_def colon_mark_def)
  moreover have "m' = m2\<lparr>m_path := p1\<rparr>"
    using assms(1) True by (auto simp: authority_stage_def 1 2)
  ultimately show ?thesis
    by (simp add: marks_ok_def)
qed (use assms in \<open>auto simp: authority_stage_def marks_ok_def colon_mark_def split: if_splits\<close>)

lemma authority_stage_ok:
  assumes "authority_stage s joining h pos m = (pos', m')" and "stage_ok s start pos m"
    and "m_path m = m_authority m"
  shows "stage_ok s start pos' m' \<and> (m_path m' = m_authority m' \<or> section_stop (chr_at s pos'))"
proof -
  have loop: "stage_ok s start p1 (m2\<lparr>m_path := p1\<rparr>) \<and> section_stop (chr_at s p1)"
    if l: "authority_loop (drop p s) p m1 = (p1, m2)" and ok: "stage_ok s start p m1" for p m1 p1 m2
  proof -
    have "p \<le> p1" "section_stop (chr_at s p1)"
      using authority_loop_stop [OF l] by (auto simp: chr_at_drop)
    moreover have "p1 \<le> length s"
      using authority_loop_ok [OF l] ok by (simp add: stage_ok_def)
    ultimately show ?thesis
      using authority_loop_ok [OF l] ok by (simp add: stage_ok_def)
  qed
  show ?thesis
  proof (cases "has_authority s joining h pos m")
    case True
    obtain p m1 where 1: "skip_slashes s h pos m = (p, m1)"
      by (cases "skip_slashes s h pos m")
    obtain p1 m2 where 2: "authority_loop (drop p s) p m1 = (p1, m2)"
      by (cases "authority_loop (drop p s) p m1")
    show ?thesis
      using loop [OF 2 skip_slashes_ok [OF 1 assms(2)]] assms(1) True
      by (auto simp: authority_stage_def 1 2)
  next
    case False
    then show ?thesis
      using assms by (auto simp: authority_stage_def stage_ok_def section_stop_def split: if_splits)
  qed
qed

lemma skip_while_stop: "chr_at s (skip_while P s pos) = NUL \<or> \<not> P (chr_at s (skip_while P s pos))"
proof -
  have "drop (skip_while P s pos) s = dropWhile P (drop pos s)"
    by (simp add: skip_while_def dropWhile_eq_drop add.commute)
  then show ?thesis
    by (cases "dropWhile P (drop pos s)") (auto simp: chr_at_drop dropWhile_eq_Cons_conv)
qed

lemma skip_while_next:
  assumes "chr_at s pos \<noteq> NUL"
  shows "pos < skip_while P s (pos + 1) \<and> skip_while P s (pos + 1) \<le> length s"
  using skip_while_ge [of "pos + 1" P s] skip_while_le [of "pos + 1" s P] chr_at_not_NUL [OF assms]
  by auto

lemma path_stage_ok:
  assumes "pos \<le> length s" and "m_path m = m_authority m \<or> section_stop (chr_at s pos)"
  shows "pos \<le> path_stage s pos m \<and> path_stage s pos m \<le> length s \<and>
    (chr_at s (path_stage s pos m) = CHR ''?'' \<or> chr_at s (path_stage s pos m) = CHR ''#'' \<or>
     chr_at s (path_stage s pos m) = NUL)"
proof (cases "chr_at s pos = CHR ''?'' \<or> chr_at s pos = CHR ''#'' \<or> chr_at s pos = NUL")
  case True
  with assms(1) show ?thesis
    by (auto simp: path_stage_def)
next
  case False
  let ?P = "\<lambda>c. c \<noteq> CHR ''?'' \<and> c \<noteq> CHR ''#''"
  have "path_stage s pos m = skip_while ?P s (pos + 1)"
    using False assms(2) by (auto simp: path_stage_def section_stop_def)
  moreover have "chr_at s pos \<noteq> NUL"
    using False by blast
  ultimately show ?thesis
    using skip_while_stop [of s ?P "pos + 1"] skip_while_next [of s pos ?P] by auto
qed

lemma query_stage_ok:
  assumes "pos \<le> length s" and "chr_at s pos = CHR ''?'' \<or> chr_at s pos = CHR ''#'' \<or> chr_at s pos = NUL"
  shows "pos \<le> query_stage s pos \<and> query_stage s pos \<le> length s \<and>
    (chr_at s (query_stage s pos) = CHR ''#'' \<or> chr_at s (query_stage s pos) = NUL)"
proof (cases "chr_at s pos = CHR ''?''")
  case True
  then show ?thesis
    using skip_while_next [of s pos "\<lambda>c. c \<noteq> CHR ''#''"] skip_while_stop [of s "\<lambda>c. c \<noteq> CHR ''#''" "pos + 1"]
    by (auto simp: query_stage_def)
qed (use assms in \<open>auto simp: query_stage_def\<close>)

lemma fragment_stage_ok:
  assumes "pos \<le> length s" and "chr_at s pos = CHR ''#'' \<or> chr_at s pos = NUL"
  shows "pos \<le> fragment_stage s pos \<and> fragment_stage s pos \<le> length s \<and>
    chr_at s (fragment_stage s pos) = NUL"
proof (cases "chr_at s pos = CHR ''#''")
  case True
  then show ?thesis
    using skip_while_next [of s pos "\<lambda>c. True"] skip_while_stop [of s "\<lambda>c. True" "pos + 1"]
    by (auto simp: fragment_stage_def)
qed (use assms in \<open>auto simp: fragment_stage_def\<close>)

lemma takeWhile_stop_le: "j < length xs \<Longrightarrow> \<not> P (xs ! j) \<Longrightarrow> length (takeWhile P xs) \<le> j"
  by (metis leI nth_mem set_takeWhileD takeWhile_nth)

lemma trim_end_le: "trim_end s pos \<le> pos"
  by (simp add: trim_end_def)

lemma trim_end_less:
  assumes "i < pos" and "pos \<le> length s" and "\<not> ascii_is_space (s ! i)"
  shows "i < trim_end s pos"
proof -
  have "rev (take pos s) ! (pos - 1 - i) = s ! i"
    using assms(1,2) by (simp add: rev_nth)
  then have "length (takeWhile ascii_is_space (rev (take pos s))) \<le> pos - 1 - i"
    using assms by (intro takeWhile_stop_le) auto
  then show ?thesis
    using assms(1) by (simp add: trim_end_def)
qed

text \<open>The end of the last section, after the last character that is not white space.\<close>

definition text_end :: "string \<Rightarrow> nat" where
  "text_end s = trim_end s (length s)"

lemma finish_markers_shape:
  assumes "cstring s" and "pos \<le> length s" and "m_path m = m_authority m \<or> section_stop (chr_at s pos)"
    and "s \<noteq> []"
  shows "\<exists>q f. pos \<le> q \<and> q \<le> f \<and> f \<le> length s \<and>
    (let m' = m\<lparr>m_query := q, m_fragment := f, m_end := text_end s\<rparr> in
     finish_markers s pos m = clamp_markers m' \<or> text_end s = length s \<and> finish_markers s pos m = m')"
proof -
  define q where "q = path_stage s pos m"
  define f where "f = query_stage s q"
  have q: "pos \<le> q" "q \<le> length s" "chr_at s q = CHR ''?'' \<or> chr_at s q = CHR ''#'' \<or> chr_at s q = NUL"
    using path_stage_ok [OF assms(2,3)] unfolding q_def by blast+
  have f: "q \<le> f" "f \<le> length s" "chr_at s f = CHR ''#'' \<or> chr_at s f = NUL"
    using query_stage_ok [OF q(2,3)] unfolding f_def by blast+
  have p: "fragment_stage s f \<le> length s" "chr_at s (fragment_stage s f) = NUL"
    using fragment_stage_ok [OF f(2,3)] by blast+
  then have pl: "fragment_stage s f = length s"
    using assms(1) by (metis chr_at_def cstring_def le_neq_implies_less nth_mem)
  have fin: "finish_markers s pos m =
      (let m = m\<lparr>m_query := q, m_fragment := f, m_end := text_end s\<rparr> in
       if ascii_is_space (chr_at s (length s - 1)) then clamp_markers m else m)"
    by (simp add: finish_markers_def q_def f_def [unfolded q_def] pl [unfolded f_def q_def] Let_def text_end_def)
  show ?thesis
  proof (cases "ascii_is_space (chr_at s (length s - 1))")
    case True
    then show ?thesis
      using fin q f by (auto simp: Let_def)
  next
    case False
    then have "\<not> ascii_is_space (s ! (length s - 1))"
      using assms(4) by (simp add: chr_at_def)
    then have "length s - 1 < text_end s"
      using assms(4) unfolding text_end_def by (intro trim_end_less) simp_all
    then have "text_end s = length s"
      using trim_end_le [of s "length s"] by (simp add: text_end_def)
    then show ?thesis
      using fin q f False by (auto simp: Let_def)
  qed
qed

lemma clamp_end_all:
  "f \<le> e \<Longrightarrow> q \<le> f \<Longrightarrow> m_path m \<le> q \<Longrightarrow> m_colon_last m \<le> q \<Longrightarrow> m_at m \<le> q \<Longrightarrow>
     clamp_markers (m\<lparr>m_query := q, m_fragment := f, m_end := e\<rparr>) = m\<lparr>m_query := q, m_fragment := f, m_end := e\<rparr>"
  by (simp add: clamp_markers_def Let_def min_absorb1)

lemma colon_mark_clamp:
  assumes "colon_mark s auth path x" and "auth \<le> e" and "\<And>i. i < length s \<Longrightarrow> s ! i = CHR '':'' \<Longrightarrow> i < e"
    and "path \<le> length s"
  shows "colon_mark s auth (min path e) x \<and> min x e = x"
  using assms by (auto simp: colon_mark_def)

lemma finish_markers_ok:
  assumes "cstring s" and "stage_ok s start pos m" and "marks_ok s (m_path m) m"
    and "m_path m = m_authority m \<or> section_stop (chr_at s pos)"
    and "start < length s" and "\<not> ascii_is_space (s ! start)"
  shows "markers_ordered s (finish_markers s pos m) \<and>
    marks_ok s (m_path (finish_markers s pos m)) (finish_markers s pos m)"
proof -
  let ?e = "text_end s"
  have pos: "pos \<le> length s" "m_path m \<le> length s" "s \<noteq> []"
    using assms(2,5) by (auto simp: stage_ok_def)
  obtain q f where qf: "pos \<le> q" "q \<le> f" "f \<le> length s"
      "finish_markers s pos m = clamp_markers (m\<lparr>m_query := q, m_fragment := f, m_end := ?e\<rparr>) \<or>
       ?e = length s \<and> finish_markers s pos m = m\<lparr>m_query := q, m_fragment := f, m_end := ?e\<rparr>"
    using finish_markers_shape [OF assms(1) pos(1) assms(4) pos(3)] by (auto simp: Let_def)
  have e: "i < ?e" if "i < length s" "\<not> ascii_is_space (s ! i)" for i
    using that unfolding text_end_def by (intro trim_end_less) simp_all
  have le: "?e \<le> length s"
    by (simp add: text_end_def trim_end_le)
  have auth: "m_authority m \<le> ?e"
  proof (cases "m_authority m = start")
    case True
    then show ?thesis
      using e [OF assms(5,6)] by simp
  next
    case False
    then have "0 < m_authority m" "m_authority m \<le> length s" "\<not> ascii_is_space (s ! (m_authority m - 1))"
      using assms(2) by (auto simp: stage_ok_def anchored_def)
    then have "m_authority m - 1 < ?e"
      by (intro e) simp_all
    then show ?thesis by simp
  qed
  have mark: "i < ?e" if "i < length s" "s ! i = CHR '':'' \<or> s ! i = CHR ''@''" for i
    using e [OF that(1)] that(2) by (auto simp: ascii_is_space_def)
  have clamped: "finish_markers s pos m = clamp_markers (m\<lparr>m_query := q, m_fragment := f, m_end := ?e\<rparr>)"
    using qf assms(2,3) clamp_end_all [of f ?e q m]
    by (auto simp: stage_ok_def marks_ok_def colon_mark_def)
  note cm = colon_mark_clamp [OF _ auth _ pos(2)]
  have "markers_ordered s (finish_markers s pos m)"
    using assms(2) qf(1-3) auth le
    by (auto simp: clamped clamp_markers_def Let_def markers_ordered_def stage_ok_def)
  moreover have "marks_ok s (min (m_path m) ?e) (finish_markers s pos m)"
    using assms(2,3) cm [of "m_colon_first m"] cm [of "m_colon_last m"] mark auth pos(2)
    by (auto simp: clamped clamp_markers_def Let_def marks_ok_def stage_ok_def)
  ultimately show ?thesis
    by (simp add: clamped clamp_markers_def Let_def)
qed

lemma markers_correct:
  assumes "cstring s" and m: "m = nsurl__get_string_markers s joining"
  shows "markers_ordered s m \<and> marks_ok s (m_path m) m"
proof -
  define start where "start = skip_while ascii_is_space s 0"
  let ?m0 = "blank_markers start"
  have start: "start \<le> length s"
    by (simp add: start_def skip_while_le)
  show ?thesis
  proof (cases "chr_at s start = NUL")
    case True
    then have "m = ?m0"
      by (simp add: m nsurl__get_string_markers_def start_def [symmetric] Let_def)
    then show ?thesis
      using start by (simp add: markers_ordered_def marks_ok_def colon_mark_def blank_markers_def)
  next
    case False
    obtain p1 h m1 where 1: "scheme_stage s joining start ?m0 = (p1, h, m1)"
      by (metis prod_cases3)
    obtain p2 m2 where 2: "authority_stage s joining h p1 m1 = (p2, m2)"
      by (cases "authority_stage s joining h p1 m1")
    have fin: "m = finish_markers s p2 m2"
      unfolding m nsurl__get_string_markers_def Let_def start_def [symmetric] 1 prod.case 2
      by (simp only: False if_False)
    have "stage_ok s start start ?m0"
      using start by (simp add: stage_ok_def blank_markers_def anchored_def)
    then have ok1: "stage_ok s start p1 m1"
      by (rule scheme_stage_ok [OF 1]) (simp_all add: blank_markers_def)
    have same: "m_path m1 = m_authority m1" "m_at m1 = m_authority m1" "m_colon_first m1 = m_authority m1"
        "m_colon_last m1 = m_authority m1"
      using 1 by (auto simp: scheme_stage_def blank_markers_def peg_at_def Let_def split: if_splits)
    have "\<not> ascii_is_space (s ! start)" "start < length s"
      using skip_while_stop [of s ascii_is_space 0] False chr_at_not_NUL [OF False] by (simp_all add: start_def)
    then show ?thesis
      using finish_markers_ok [OF assms(1), of start p2 m2] authority_stage_ok [OF 2 ok1 same(1)]
        authority_stage_marks [OF 2 same] ok1 by (simp add: fin stage_ok_def)
  qed
qed

section \<open>Normalised sections\<close>

text \<open>
  The bytes a normalised path, query or fragment can have: those the code never escapes, and
  the percent sign of an escape.
\<close>

definition url_char :: "char \<Rightarrow> bool" where
  "url_char c \<longleftrightarrow> nsurl__is_no_escape (ord_char c) \<or> c = CHR ''%''"

lemma url_char_simps [simp]:
  "url_char CHR ''%''" "nsurl__is_no_escape (ord_char c) \<Longrightarrow> url_char c"
  by (simp_all add: url_char_def)

lemma hex_value_range:
  "(ascii_is_hex c \<and> 0 \<le> ascii_hex_to_value c \<and> ascii_hex_to_value c \<le> 15) \<or> ascii_hex_to_value c = - 256"
proof -
  consider (digit) "ascii_is_digit c" | (af) "\<not> ascii_is_digit c" "ascii_is_af_lower c"
    | (AF) "\<not> ascii_is_digit c" "\<not> ascii_is_af_lower c" "ascii_is_af_upper c"
    | (none) "\<not> ascii_is_digit c" "\<not> ascii_is_af_lower c" "\<not> ascii_is_af_upper c"
    by blast
  then show ?thesis
  proof cases
    case digit
    then show ?thesis
      by (simp add: ascii_hex_to_value_def ascii_is_hex_def) (simp add: ascii_is_digit_def)
  next
    case af
    then show ?thesis
      by (simp add: ascii_hex_to_value_def ascii_is_hex_def) (simp add: ascii_is_af_lower_def)
  next
    case AF
    then show ?thesis
      by (simp add: ascii_hex_to_value_def ascii_is_hex_def) (simp add: ascii_is_af_upper_def)
  next
    case none
    then show ?thesis
      by (simp add: ascii_hex_to_value_def)
  qed
qed

lemma hex_2_chars_range:
  assumes "0 \<le> ascii_hex_to_value_2_chars c1 c2"
  shows "ascii_is_hex c1 \<and> ascii_is_hex c2 \<and> ascii_hex_to_value_2_chars c1 c2 < 256"
proof -
  have v: "0 \<le> 16 * ascii_hex_to_value c1 + ascii_hex_to_value c2"
    using assms by (simp add: ascii_hex_to_value_2_chars_def)
  have "ascii_hex_to_value c1 \<noteq> - 256" "ascii_hex_to_value c2 \<noteq> - 256"
    using v hex_value_range [of c1] hex_value_range [of c2] by linarith+
  then have "ascii_is_hex c1" "ascii_is_hex c2" "ascii_hex_to_value c1 \<le> 15" "ascii_hex_to_value c2 \<le> 15"
    using hex_value_range [of c1] hex_value_range [of c2] by blast+
  then show ?thesis
    by (simp add: ascii_hex_to_value_2_chars_def)
qed

lemma hex_url_char: "ascii_is_hex c \<Longrightarrow> url_char c"
  unfolding ascii_is_hex_def ascii_is_digit_def ascii_is_af_upper_def ascii_is_af_lower_def
    url_char_def nsurl__is_no_escape_def
  by (elim disjE conjE) simp_all

lemma digit_url_char:
  assumes "n < 16"
  shows "url_char (digit2uppercase_hex n)"
proof -
  have "list_all ascii_is_hex ''0123456789ABCDEF''"
    by code_simp
  then have "ascii_is_hex (''0123456789ABCDEF'' ! n)"
    using assms by (simp only: list_all_length) simp
  then show ?thesis
    by (simp add: digit2uppercase_hex_def hex_url_char)
qed

lemma unreserved_no_escape: "nsurl__is_unreserved n \<Longrightarrow> nsurl__is_no_escape n"
  unfolding nsurl__is_unreserved_def nsurl__is_no_escape_def by (elim disjE) simp_all

lemma decoded_url_char:
  assumes "0 \<le> ascii_hex_to_value_2_chars a b" and "nsurl__is_unreserved (nat (ascii_hex_to_value_2_chars a b))"
  shows "url_char (char_of (nat (ascii_hex_to_value_2_chars a b)))"
proof -
  have "nat (ascii_hex_to_value_2_chars a b) < 256"
    using hex_2_chars_range [OF assms(1)] by linarith
  then show ?thesis
    using unreserved_no_escape [OF assms(2)] by simp
qed

lemma normalise_loop_no_escape:
  assumes "\<not> (c = CHR ''%'' \<and> 2 \<le> length rest)"
  shows "normalise_loop sect (c # rest) (out, len) =
    (if \<not> lower_section sect \<and> \<not> nsurl__is_no_escape (ord_char c) then
       normalise_loop sect rest
         (out @ [CHR ''%'', digit2uppercase_hex (ord_char c div 16), digit2uppercase_hex (ord_char c mod 16)],
          len + 2)
     else if lower_section sect \<and> ascii_is_alpha_upper c then
       normalise_loop sect rest (out @ [ascii_to_lower c], len)
     else normalise_loop sect rest (out @ [c], len))"
  unfolding normalise_loop.simps prod.case if_not_P [OF assms] ..

end
