(* ===== verification/Nsurl_Create.thy ===== *)
theory Nsurl_Create
  imports Nsurl_Parse
begin

text \<open>
  What \<^verbatim>\<open>nsurl_create\<close> and \<^verbatim>\<open>nsurl_join\<close> promise: well-formed objects, no buffer overrun, exact
  books, and canonical URL strings that parse to their own components.
\<close>

section \<open>The shape of a normalised section\<close>

lemma normalise_loop_shape:
  "\<exists>norm len'. normalise_loop sect rest (out, len) = (out @ norm, len') \<and> length norm \<le> 3 * length rest \<and>
     (len = length out + length rest \<longrightarrow> len' = length (out @ norm)) \<and>
     (lower_section sect \<or> list_all url_char norm)"
proof (induction rest arbitrary: out len rule: length_induct)
  case (1 rest)
  show ?case
  proof (cases rest)
    case (Cons c t)
    have step: "\<exists>norm len'. normalise_loop sect r (out @ w, l) = (out @ norm, len') \<and> length norm \<le> 3 * length rest \<and>
        (len = length out + length rest \<longrightarrow> len' = length (out @ norm)) \<and>
        (lower_section sect \<or> list_all url_char norm)"
      if less: "length r < length rest" and w: "length w + 3 * length r \<le> 3 * length rest"
        "len = length out + length rest \<longrightarrow> l = length (out @ w) + length r"
        "lower_section sect \<or> list_all url_char w" for r w l
    proof -
      obtain norm len' where n: "normalise_loop sect r (out @ w, l) = ((out @ w) @ norm, len')"
          "length norm \<le> 3 * length r" "l = length (out @ w) + length r \<longrightarrow> len' = length ((out @ w) @ norm)"
          "lower_section sect \<or> list_all url_char norm"
        using 1 [rule_format, OF less, of "out @ w" l] by auto
      then show ?thesis
        using w by (intro exI [of _ "w @ norm"] exI [of _ len']) auto
    qed
    let ?off = "ascii_hex_to_value_2_chars (t ! 0) (t ! 1)"
    consider (bad) "c = CHR ''%'' \<and> 2 \<le> length t" "?off < 0"
      | (keep) "c = CHR ''%'' \<and> 2 \<le> length t" "0 \<le> ?off" "\<not> lower_section sect \<and> \<not> nsurl__is_unreserved (nat ?off)"
      | (decode) "c = CHR ''%'' \<and> 2 \<le> length t" "0 \<le> ?off" "\<not> (\<not> lower_section sect \<and> \<not> nsurl__is_unreserved (nat ?off))"
      | (escape) "\<not> (c = CHR ''%'' \<and> 2 \<le> length t)" "\<not> lower_section sect \<and> \<not> nsurl__is_no_escape (ord_char c)"
      | (lower) "\<not> (c = CHR ''%'' \<and> 2 \<le> length t)" "lower_section sect \<and> ascii_is_alpha_upper c"
      | (plain) "\<not> (c = CHR ''%'' \<and> 2 \<le> length t)" "\<not> (\<not> lower_section sect \<and> \<not> nsurl__is_no_escape (ord_char c))"
          "\<not> (lower_section sect \<and> ascii_is_alpha_upper c)"
      by linarith
    then show ?thesis
    proof cases
      case bad
      then show ?thesis
        using step [of t "[c]" len] by (simp add: Cons normalise_loop.simps Let_def)
    next
      case keep
      obtain a b u where t: "t = a # b # u"
        using keep(1) by (cases t; cases "tl t") auto
      then show ?thesis
        using step [of u "[c, a, b]" len] keep hex_2_chars_range [of a b]
        by (simp add: Cons normalise_loop.simps Let_def hex_url_char)
    next
      case decode
      obtain a b u where t: "t = a # b # u"
        using decode(1) by (cases t; cases "tl t") auto
      then show ?thesis
        using step [of u "[char_of (nat ?off)]" "len - 2"] decode decoded_url_char [of a b]
        by (cases "lower_section sect") (simp_all add: Cons normalise_loop.simps Let_def)
    next
      case escape
      have "ord_char c div 16 < 16"
        using nat_of_char_less_256 [of c] by (intro less_mult_imp_div_less) simp
      from digit_url_char [OF this] show ?thesis
        using step [of t "[CHR ''%'', digit2uppercase_hex (ord_char c div 16), digit2uppercase_hex (ord_char c mod 16)]"
            "len + 2"] escape
        by (simp add: Cons normalise_loop_no_escape digit_url_char)
    next
      case lower
      then show ?thesis
        using step [of t "[ascii_to_lower c]" len] by (simp add: Cons normalise_loop_no_escape)
    next
      case plain
      then show ?thesis
        using step [of t "[c]" len] by (auto simp: Cons normalise_loop_no_escape)
    qed
  qed simp
qed

lemma section_text_length:
  assumes "markers_ordered s m"
  shows "length (section_text s sect m) \<le> nsurl__get_longest_section m"
    and "section_bounds s sect m = (a, b) \<Longrightarrow> length (section_text s sect m) = b - a"
proof -
  have longest: "m_scheme_end m - m_start m \<le> nsurl__get_longest_section m"
    "m_at m - m_authority m \<le> nsurl__get_longest_section m" "m_path m - m_at m \<le> nsurl__get_longest_section m"
    "m_query m - m_path m \<le> nsurl__get_longest_section m" "m_fragment m - m_query m \<le> nsurl__get_longest_section m"
    "m_end m - m_fragment m \<le> nsurl__get_longest_section m"
    by (simp_all add: nsurl__get_longest_section_def Let_def)
  obtain a' b' where ab: "section_bounds s sect m = (a', b')"
    by (cases "section_bounds s sect m")
  have b': "b' \<le> length s"
    using ab assms by (cases sect) (auto simp: section_bounds_def markers_ordered_def split: if_splits)
  then have len: "length (section_text s sect m) = b' - a'"
    by (auto simp: section_text_def ab)
  then show "section_bounds s sect m = (a, b) \<Longrightarrow> length (section_text s sect m) = b - a"
    using ab by simp
  have "b' - a' \<le> nsurl__get_longest_section m"
    using ab longest by (cases sect) (auto simp: section_bounds_def split: if_splits)
  then show "length (section_text s sect m) \<le> nsurl__get_longest_section m"
    using len by simp
qed

lemma normalise_section_shape:
  assumes "markers_ordered s m" and "normalise_section s sect m = (norm, len)"
  shows "len = length norm \<and> length norm \<le> 3 * length (section_text s sect m) \<and>
    (lower_section sect \<or> list_all url_char norm)"
proof -
  obtain a b where ab: "section_bounds s sect m = (a, b)"
    by (cases "section_bounds s sect m")
  show ?thesis
    using assms(2) normalise_loop_shape [of sect "section_text s sect m" "[]" "b - a"]
      section_text_length(2) [OF assms(1) ab]
    by (auto simp: normalise_section_def ab)
qed

section \<open>Books of the parser\<close>

named_theorems section_ok_elims \<open>what a section that succeeds has done\<close>

lemma intern_into_ok:
  assumes "intern_into s f m k = Some (NSERROR_OK, c', m')"
  shows "\<exists>x m1. s = Some x \<and> held m1 = held m + a_ref \<and> k (f (Some x)) m1 = Some (NSERROR_OK, c', m')"
proof -
  obtain x where x: "s = Some x"
    using assms by (cases s) (auto simp: intern_into_def)
  obtain r m1 where i: "lwc_intern_string x m = (r, m1)"
    by (cases "lwc_intern_string x m")
  obtain y where y: "r = Some y"
    using assms by (cases r) (auto simp: intern_into_def x i)
  have r: "r = Some x"
    using lwc_intern_string_Some [OF i [unfolded y]] y by simp
  show ?thesis
    using assms lwc_intern_string_held [OF i] by (auto simp: intern_into_def x i r)
qed

lemma section_ok_ok: "section_ok c m = Some (e, c', m') \<longleftrightarrow> e = NSERROR_OK \<and> c' = c \<and> m' = m"
  by (auto simp: section_ok_def)

lemma create_scheme_ok:
  "create_scheme norm len c m = Some (NSERROR_OK, c', m') \<Longrightarrow>
     \<exists>x. c' = c\<lparr>uc_scheme := Some x\<rparr> \<and> held m' = held m + a_ref"
  by (fastforce simp: create_scheme_def section_ok_ok dest!: intern_into_ok split: if_splits)

lemma create_path_ok:
  "create_path norm len c m = Some (NSERROR_OK, c', m') \<Longrightarrow>
     \<exists>x. c' = c\<lparr>uc_path := x\<rparr> \<and> held m' = held m + component_foot x"
  by (fastforce simp: create_path_def section_ok_ok dest!: intern_into_ok split: if_splits)

lemma create_query_ok:
  "create_query norm len c m = Some (NSERROR_OK, c', m') \<Longrightarrow>
     \<exists>x. c' = c\<lparr>uc_query := x\<rparr> \<and> held m' = held m + component_foot x"
  by (fastforce simp: create_query_def section_ok_ok dest!: intern_into_ok split: if_splits)

lemma create_fragment_ok:
  "create_fragment norm len c m = Some (NSERROR_OK, c', m') \<Longrightarrow>
     \<exists>x. c' = c\<lparr>uc_fragment := x\<rparr> \<and> held m' = held m + component_foot x"
  by (fastforce simp: create_fragment_def section_ok_ok dest!: intern_into_ok split: if_splits)

lemma create_username_ok:
  assumes "create_username norm n c m = Some (NSERROR_OK, c', m')"
  shows "\<exists>u. c' = c\<lparr>uc_username := u\<rparr> \<and> held m' = held m + component_foot u"
proof -
  obtain x m1 where "held m1 = held m + a_ref" "c' = c\<lparr>uc_username := Some x\<rparr>" "m' = m1"
    using intern_into_ok [OF assms [unfolded create_username_def]] by (auto simp: section_ok_ok)
  then show ?thesis
    by (intro exI [of _ "Some x"]) simp
qed

lemma create_credentials_ok:
  assumes "create_credentials pegs norm len c m = Some (NSERROR_OK, c', m')"
  shows "\<exists>u p. c' = c\<lparr>uc_username := u, uc_password := p\<rparr> \<and>
    held m' = held m + component_foot u + component_foot p"
proof -
  let ?c = "c\<lparr>uc_username := None, uc_password := None\<rparr>"
  consider (nothing) "section_ok ?c m = Some (NSERROR_OK, c', m')"
    | (user) n where "create_username norm n ?c m = Some (NSERROR_OK, c', m')"
    | (both) n pw where "intern_into pw (\<lambda>x. ?c\<lparr>uc_password := x\<rparr>) m (create_username norm n) =
        Some (NSERROR_OK, c', m')"
    using assms unfolding create_credentials_def Let_def by (auto split: if_split_asm)
  then show ?thesis
  proof cases
    case nothing
    then show ?thesis
      by (intro exI [of _ None]) (simp add: section_ok_ok)
  next
    case user
    from create_username_ok [OF this] obtain u where
      "c' = ?c\<lparr>uc_username := u\<rparr> \<and> held m' = held m + component_foot u" ..
    then show ?thesis
      by (intro exI [of _ u] exI [of _ None]) simp
  next
    case both
    from intern_into_ok [OF this] obtain p m1 where
      1: "held m1 = held m + a_ref" "create_username norm n (?c\<lparr>uc_password := Some p\<rparr>) m1 = Some (NSERROR_OK, c', m')"
      by blast
    from create_username_ok [OF 1(2)] obtain u where
      "c' = ?c\<lparr>uc_password := Some p, uc_username := u\<rparr> \<and> held m' = held m1 + component_foot u" ..
    then show ?thesis
      using 1(1) by (intro exI [of _ u] exI [of _ "Some p"]) (simp add: algebra_simps)
  qed
qed

lemma create_host_name_ok:
  assumes "create_host_name norm n c m = Some (NSERROR_OK, c', m')"
  shows "\<exists>h. c' = c\<lparr>uc_host := h\<rparr> \<and> held m' = held m + component_foot h"
proof -
  obtain name r m1 where n: "buf_slice norm 0 n = Some name" "idna_encode norm (nat n) m = Some (r, m1)"
    using assms by (auto simp: create_host_name_def split: option.splits)
  note m1 = idna_encode_held [OF n(2)]
  consider (bad) e where "r = Inl e" | (null) k where "r = Inr (None, k)" | (name) host k where "r = Inr (Some host, k)"
    by (cases r) (auto, metis option.exhaust)
  then show ?thesis
  proof cases
    case bad
    then have "intern_into (Some name) (\<lambda>x. c\<lparr>uc_host := x\<rparr>) m1 section_ok = Some (NSERROR_OK, c', m')"
      using assms n by (simp add: create_host_name_def)
    from intern_into_ok [OF this] show ?thesis
      using m1 bad by (intro exI [of _ "Some name"]) (auto simp: section_ok_ok)
  next
    case null
    then show ?thesis
      using assms n by (simp add: create_host_name_def)
  next
    case name
    then have "intern_into (buf_slice host 0 (int k)) (\<lambda>x. c\<lparr>uc_host := x\<rparr>) m1 (\<lambda>c m2. section_ok c (free_block m2)) =
        Some (NSERROR_OK, c', m')"
      using assms n by (simp add: create_host_name_def)
    from intern_into_ok [OF this] obtain x where "c' = c\<lparr>uc_host := Some x\<rparr>" "held m' = held m1 + a_ref - a_block"
      by (auto simp: section_ok_ok)
    then show ?thesis
      using m1 name by (intro exI [of _ "Some x"]) (auto simp: algebra_simps)
  qed
qed

lemma create_host_ok:
  assumes "create_host pegs norm len c m = Some (NSERROR_OK, c', m')"
  shows "\<exists>h p. c' = c\<lparr>uc_host := h, uc_port := p\<rparr> \<and>
    held m' = held m + component_foot h + component_foot p"
proof -
  let ?c = "c\<lparr>uc_host := None, uc_port := None\<rparr>"
  consider (nothing) "section_ok ?c m = Some (NSERROR_OK, c', m')"
    | (host) n where "create_host_name norm n ?c m = Some (NSERROR_OK, c', m')"
    | (port) n po where "intern_into po (\<lambda>x. ?c\<lparr>uc_port := x\<rparr>) m (create_host_name norm n) =
        Some (NSERROR_OK, c', m')"
    using assms(1) unfolding create_host_def Let_def by (auto split: if_split_asm option.split_asm)
  then show ?thesis
  proof cases
    case nothing
    then show ?thesis
      by (intro exI [of _ None]) (simp add: section_ok_ok)
  next
    case host
    from create_host_name_ok [OF this] obtain h where
      "c' = ?c\<lparr>uc_host := h\<rparr> \<and> held m' = held m + component_foot h" ..
    then show ?thesis
      by (intro exI [of _ h] exI [of _ None]) simp
  next
    case port
    from intern_into_ok [OF this] obtain p m1 where
      1: "held m1 = held m + a_ref" "create_host_name norm n (?c\<lparr>uc_port := Some p\<rparr>) m1 = Some (NSERROR_OK, c', m')"
      by blast
    from create_host_name_ok [OF 1(2)] obtain h where
      "c' = ?c\<lparr>uc_port := Some p, uc_host := h\<rparr> \<and> held m' = held m1 + component_foot h" ..
    then show ?thesis
      using 1(1) by (intro exI [of _ h] exI [of _ "Some p"]) (simp add: algebra_simps)
  qed
qed

text \<open>A section that succeeds sets its own fields and accounts for them.\<close>

definition section_effect :: "url_section \<Rightarrow> nsurl_components \<Rightarrow> mem \<Rightarrow> nsurl_components \<Rightarrow> mem \<Rightarrow> bool" where
  "section_effect sect c m c' m' = (case sect of
     URL_SCHEME \<Rightarrow> (\<exists>x. c' = c\<lparr>uc_scheme := Some x\<rparr> \<and> held m' = held m + a_ref)
   | URL_CREDENTIALS \<Rightarrow> (\<exists>u p. c' = c\<lparr>uc_username := u, uc_password := p\<rparr> \<and>
       held m' = held m + component_foot u + component_foot p)
   | URL_HOST \<Rightarrow> (\<exists>h p. c' = c\<lparr>uc_host := h, uc_port := p\<rparr> \<and>
       held m' = held m + component_foot h + component_foot p)
   | URL_PATH \<Rightarrow> (\<exists>x. c' = c\<lparr>uc_path := x\<rparr> \<and> held m' = held m + component_foot x)
   | URL_QUERY \<Rightarrow> (\<exists>x. c' = c\<lparr>uc_query := x\<rparr> \<and> held m' = held m + component_foot x)
   | URL_FRAGMENT \<Rightarrow> (\<exists>x. c' = c\<lparr>uc_fragment := x\<rparr> \<and> held m' = held m + component_foot x))"

lemma section_ok_effect:
  "nsurl__create_from_section s sect pegs c m = Some (NSERROR_OK, c', m') \<Longrightarrow>
     section_effect sect c m c' m'"
  by (cases sect)
    (auto simp: nsurl__create_from_section_def section_effect_def split: prod.splits
      dest: create_scheme_ok create_credentials_ok create_host_ok create_path_ok create_query_ok create_fragment_ok)

lemma create_sections_error:
  "create_sections s pegs sects e c m = Some (e', c', m') \<Longrightarrow> e \<noteq> NSERROR_OK \<Longrightarrow> e' = e"
  by (induction s pegs sects e c m rule: create_sections.induct)
    (auto split: option.splits prod.splits)

lemma create_sections_ok:
  assumes "create_sections s pegs (sect # sects) NSERROR_OK c m = Some (NSERROR_OK, c', m')"
   
  shows "\<exists>c1 m1. section_effect sect c m c1 m1 \<and>
    create_sections s pegs sects NSERROR_OK c1 m1 = Some (NSERROR_OK, c', m')"
proof -
  obtain e c1 m1 where 1: "nsurl__create_from_section s sect pegs c m = Some (e, c1, m1)"
    using assms(1) by (auto split: option.splits prod.splits)
  have "e = NSERROR_OK"
    using assms(1) create_sections_error by (fastforce simp: 1)
  then show ?thesis
    using assms section_ok_effect [OF 1 [unfolded \<open>e = NSERROR_OK\<close>]] by (auto simp: 1)
qed

lemma all_sections_ok:
  assumes "create_sections s pegs [URL_SCHEME, URL_CREDENTIALS, URL_HOST, URL_PATH, URL_QUERY, URL_FRAGMENT]
    NSERROR_OK (null_components t) m = Some (NSERROR_OK, c, m')"
  shows "uc_scheme c \<noteq> None \<and> uc_scheme_type c = t \<and> held m' = held m + components_foot c"
proof -
  obtain c1 m1 where 1: "section_effect URL_SCHEME (null_components t) m c1 m1"
      "create_sections s pegs [URL_CREDENTIALS, URL_HOST, URL_PATH, URL_QUERY, URL_FRAGMENT] NSERROR_OK c1 m1 =
         Some (NSERROR_OK, c, m')"
    using create_sections_ok [OF assms] by blast
  obtain c2 m2 where 2: "section_effect URL_CREDENTIALS c1 m1 c2 m2"
      "create_sections s pegs [URL_HOST, URL_PATH, URL_QUERY, URL_FRAGMENT] NSERROR_OK c2 m2 =
         Some (NSERROR_OK, c, m')"
    using create_sections_ok [OF 1(2)] by blast
  obtain c3 m3 where 3: "section_effect URL_HOST c2 m2 c3 m3"
      "create_sections s pegs [URL_PATH, URL_QUERY, URL_FRAGMENT] NSERROR_OK c3 m3 = Some (NSERROR_OK, c, m')"
    using create_sections_ok [OF 2(2)] by blast
  obtain c4 m4 where 4: "section_effect URL_PATH c3 m3 c4 m4"
      "create_sections s pegs [URL_QUERY, URL_FRAGMENT] NSERROR_OK c4 m4 = Some (NSERROR_OK, c, m')"
    using create_sections_ok [OF 3(2)] by blast
  obtain c5 m5 where 5: "section_effect URL_QUERY c4 m4 c5 m5"
      "create_sections s pegs [URL_FRAGMENT] NSERROR_OK c5 m5 = Some (NSERROR_OK, c, m')"
    using create_sections_ok [OF 4(2)] by blast
  have 6: "section_effect URL_FRAGMENT c5 m5 c m'"
    using create_sections_ok [OF 5(2)] by auto
  show ?thesis
    using 1(1) 2(1) 3(1) 4(1) 5(1) 6
    by (auto simp: section_effect_def components_foot_def null_components_def algebra_simps)
qed

lemma url_text_scheme: "uc_scheme c \<noteq> None \<Longrightarrow> url_text c NSURL_WITH_FRAGMENT \<noteq> []"
  using prefix_text_scheme [of c "the (uc_scheme c)"] by (auto simp: whole_text after_scheme_text_def)

lemma from_components:
  assumes "nsurl_from_components c m = (r, m')" and "uc_scheme c \<noteq> None"
  shows "case r of
      Inr url \<Rightarrow> nsurl_wf url \<and> url_components url = c \<and> url_count url = 1 \<and> held m' = held m + a_block
    | Inl e \<Rightarrow> e = NSERROR_NOMEM \<and> held m' = held m"
  using assms url_text_scheme [OF assms(2)]
  by (auto simp: nsurl_from_components_def components_to_string nsurl_wf_def
      dest!: malloc_held split: prod.splits sum.splits if_splits)

section \<open>Joining\<close>

lemma section_then_ok:
  "section_then r k = Some (NSERROR_OK, c', m') \<Longrightarrow>
     \<exists>c1 m1. r = Some (NSERROR_OK, c1, m1) \<and> k c1 m1 = Some (NSERROR_OK, c', m')"
  by (auto simp: section_then_def split: option.splits prod.splits if_splits)

lemma join_scheme_ok:
  assumes "join_scheme b rel pegs parts m = Some (NSERROR_OK, c', m')" and "uc_scheme b \<noteq> None"
   
  shows "\<exists>x t. c' = (null_components t)\<lparr>uc_scheme := Some x\<rparr> \<and> held m' = held m + a_ref \<and>
    (base_scheme parts \<longrightarrow> Some x = uc_scheme b \<and> t = uc_scheme_type b)"
proof (cases "base_scheme parts")
  case True
  then show ?thesis
    using assms(1,2) by (auto simp: join_scheme_def section_ok_ok)
next
  case False
  then show ?thesis
    using assms(1) section_ok_effect [of rel URL_SCHEME]
    by (fastforce simp: join_scheme_def section_effect_def)
qed

lemma join_authority_ok:
  assumes "join_authority b rel pegs parts c m = Some (NSERROR_OK, c', m')"
  shows "\<exists>u p h po. c' = c\<lparr>uc_username := u, uc_password := p, uc_host := h, uc_port := po\<rparr> \<and>
    held m' = held m + component_foot u + component_foot p + component_foot h + component_foot po \<and>
    (base_authority parts \<longrightarrow> u = uc_username b \<and> p = uc_password b \<and> h = uc_host b \<and> po = uc_port b)"
proof (cases "base_authority parts")
  case True
  then show ?thesis
    using assms(1) by (auto simp: join_authority_def section_ok_ok algebra_simps)
next
  case False
  then obtain c1 m1 where
      1: "nsurl__create_from_section rel URL_CREDENTIALS pegs c m = Some (NSERROR_OK, c1, m1)"
      "nsurl__create_from_section rel URL_HOST pegs c1 m1 = Some (NSERROR_OK, c', m')"
    using assms(1) section_then_ok by (fastforce simp: join_authority_def)
  obtain u p h po where "c1 = c\<lparr>uc_username := u, uc_password := p\<rparr>"
      "held m1 = held m + component_foot u + component_foot p"
      "c' = c1\<lparr>uc_host := h, uc_port := po\<rparr>" "held m' = held m1 + component_foot h + component_foot po"
    using section_ok_effect [OF 1(1)] section_ok_effect [OF 1(2)]
    by (auto simp: section_effect_def)
  then show ?thesis
    using False by (intro exI [of _ u] exI [of _ p] exI [of _ h] exI [of _ po]) (simp add: algebra_simps)
qed

lemma join_path_ok:
  assumes "join_path path c m = Some (NSERROR_OK, c', m')"
  shows "\<exists>x. c' = c\<lparr>uc_path := x\<rparr> \<and> held m' = held m + component_foot x"
  using section_ok_effect [OF assms [unfolded join_path_def Let_def]]
  by (simp add: section_effect_def)

lemma join_paths_ok:
  assumes "join_paths b rel pegs parts c m = Some (NSERROR_OK, c', m')"
  shows "\<exists>x. c' = c\<lparr>uc_path := x\<rparr> \<and> held m' = held m + component_foot x \<and>
    (base_path parts \<longrightarrow> x = uc_path b)"
  using assms join_path_ok
  by (auto simp: join_paths_def section_ok_ok Let_def split: if_splits option.splits)

lemma join_query_ok:
  assumes "join_query b rel pegs parts c m = Some (NSERROR_OK, c', m')"
  shows "\<exists>x. c' = c\<lparr>uc_query := x\<rparr> \<and> held m' = held m + component_foot x \<and>
    (base_query parts \<longrightarrow> x = uc_query b)"
proof (cases "base_query parts")
  case True
  then show ?thesis
    using assms(1) by (auto simp: join_query_def section_ok_ok)
next
  case False
  then show ?thesis
    using assms(1) section_ok_effect [of rel URL_QUERY pegs c m c' m']
    by (simp add: join_query_def section_effect_def)
qed

text \<open>The transformation of RFC 3986, section 5.2.2: what the result has from the base.\<close>

definition from_base :: "joined_parts \<Rightarrow> nsurl_components \<Rightarrow> nsurl_components \<Rightarrow> bool" where
  "from_base parts b c \<longleftrightarrow>
     (base_scheme parts \<longrightarrow> uc_scheme c = uc_scheme b \<and> uc_scheme_type c = uc_scheme_type b) \<and>
     (base_authority parts \<longrightarrow> uc_username c = uc_username b \<and> uc_password c = uc_password b \<and>
        uc_host c = uc_host b \<and> uc_port c = uc_port b) \<and>
     (base_path parts \<longrightarrow> uc_path c = uc_path b) \<and> (base_query parts \<longrightarrow> uc_query c = uc_query b)"

lemma join_ok:
  assumes "nsurl_wf base"
    and "nsurl_join base rel m = Some (Inr url, m')"
  shows "nsurl_wf url \<and> url_count url = 1 \<and> held m' = held m + url_foot url \<and>
    from_base (joined_parts_of rel (nsurl__get_string_markers rel True)) (url_components base) (url_components url)"
proof -
  let ?pegs = "nsurl__get_string_markers rel True" and ?b = "url_components base"
  let ?parts = "joined_parts_of rel ?pegs"
  obtain m1 e c m2 where m1: "malloc m = (True, m1)" and
    chain: "section_then (join_scheme ?b rel ?pegs ?parts m1) (\<lambda>c m.
       section_then (join_authority ?b rel ?pegs ?parts c m) (\<lambda>c m.
       section_then (join_paths ?b rel ?pegs ?parts c m) (\<lambda>c m.
       section_then (join_query ?b rel ?pegs ?parts c m)
         (nsurl__create_from_section rel URL_FRAGMENT ?pegs)))) = Some (e, c, m2)" and
    e: "e = NSERROR_OK" and out: "nsurl_from_components c (free_block m2) = (Inr url, m')"
    using assms(2) unfolding nsurl_join_def Let_def
    by (auto split: prod.split_asm option.split_asm if_split_asm)
  have b: "uc_scheme ?b \<noteq> None"
    using assms(1) by (simp add: nsurl_wf_def)
  obtain c1 n1 where 1: "join_scheme ?b rel ?pegs ?parts m1 = Some (NSERROR_OK, c1, n1)"
    "section_then (join_authority ?b rel ?pegs ?parts c1 n1) (\<lambda>c m.
       section_then (join_paths ?b rel ?pegs ?parts c m) (\<lambda>c m.
       section_then (join_query ?b rel ?pegs ?parts c m)
         (nsurl__create_from_section rel URL_FRAGMENT ?pegs))) = Some (NSERROR_OK, c, m2)"
    using section_then_ok [OF chain [unfolded e]] by blast
  obtain c2 n2 where 2: "join_authority ?b rel ?pegs ?parts c1 n1 = Some (NSERROR_OK, c2, n2)"
    "section_then (join_paths ?b rel ?pegs ?parts c2 n2) (\<lambda>c m.
       section_then (join_query ?b rel ?pegs ?parts c m)
         (nsurl__create_from_section rel URL_FRAGMENT ?pegs)) = Some (NSERROR_OK, c, m2)"
    using section_then_ok [OF 1(2)] by blast
  obtain c3 n3 where 3: "join_paths ?b rel ?pegs ?parts c2 n2 = Some (NSERROR_OK, c3, n3)"
    "section_then (join_query ?b rel ?pegs ?parts c3 n3)
       (nsurl__create_from_section rel URL_FRAGMENT ?pegs) = Some (NSERROR_OK, c, m2)"
    using section_then_ok [OF 2(2)] by blast
  obtain c4 n4 where 4: "join_query ?b rel ?pegs ?parts c3 n3 = Some (NSERROR_OK, c4, n4)"
    "nsurl__create_from_section rel URL_FRAGMENT ?pegs c4 n4 = Some (NSERROR_OK, c, m2)"
    using section_then_ok [OF 3(2)] by blast
  obtain x t where s: "c1 = (null_components t)\<lparr>uc_scheme := Some x\<rparr>" "held n1 = held m1 + a_ref"
      "base_scheme ?parts \<longrightarrow> Some x = uc_scheme ?b \<and> t = uc_scheme_type ?b"
    using join_scheme_ok [OF 1(1) b] by blast
  obtain u p h po where a: "c2 = c1\<lparr>uc_username := u, uc_password := p, uc_host := h, uc_port := po\<rparr>"
      "held n2 = held n1 + component_foot u + component_foot p + component_foot h + component_foot po"
      "base_authority ?parts \<longrightarrow> u = uc_username ?b \<and> p = uc_password ?b \<and> h = uc_host ?b \<and> po = uc_port ?b"
    using join_authority_ok [OF 2(1)] by blast
  obtain pa where pa: "c3 = c2\<lparr>uc_path := pa\<rparr>" "held n3 = held n2 + component_foot pa"
      "base_path ?parts \<longrightarrow> pa = uc_path ?b"
    using join_paths_ok [OF 3(1)] by blast
  obtain q where q: "c4 = c3\<lparr>uc_query := q\<rparr>" "held n4 = held n3 + component_foot q"
      "base_query ?parts \<longrightarrow> q = uc_query ?b"
    using join_query_ok [OF 4(1)] by blast
  obtain f where f: "c = c4\<lparr>uc_fragment := f\<rparr>" "held m2 = held n4 + component_foot f"
    using section_ok_effect [OF 4(2)] by (auto simp: section_effect_def)
  have c: "uc_scheme c \<noteq> None \<and> held m2 = held m1 + components_foot c \<and> from_base ?parts ?b c"
    using s(3) a(3) pa(3) q(3)
    by (simp add: s(1,2) a(1,2) pa(1,2) q(1,2) f components_foot_def null_components_def from_base_def
        algebra_simps)
  then show ?thesis
    using from_components [OF out] malloc_held [OF m1] by (auto simp: url_foot_def algebra_simps)
qed

section \<open>No undefined reads without escapes and credentials\<close>

lemma ascii_to_lower_if: "ascii_to_lower c = (if ascii_is_alpha_upper c then ascii_to_lower c else c)"
  by (simp add: ascii_to_lower_def)

lemma normalise_lower:
  "CHR ''%'' \<notin> set rest \<Longrightarrow> lower_section sect \<Longrightarrow>
     normalise_loop sect rest (out, len) = (out @ map ascii_to_lower rest, len)"
proof (induction rest arbitrary: out len)
  case (Cons c rest)
  then show ?case
    using ascii_to_lower_if [of c] by (auto simp: normalise_loop_no_escape)
qed simp

lemma normalise_plain:
  "list_all (\<lambda>c. nsurl__is_no_escape (ord_char c)) rest \<Longrightarrow> \<not> lower_section sect \<Longrightarrow>
     normalise_loop sect rest (out, len) = (out @ rest, len)"
proof (induction rest arbitrary: out len)
  case (Cons c rest)
  then have "c \<noteq> CHR ''%''"
    by (auto simp: nsurl__is_no_escape_def)
  with Cons show ?case
    by (auto simp: normalise_loop_no_escape)
qed simp

text \<open>With memory in plenty no null pointer is returned.\<close>

definition defined :: "section_result \<Rightarrow> bool" where
  "defined r \<longleftrightarrow> (\<exists>e c m. r = Some (e, c, m) \<and> plenty m)"

lemma intern_into_defined:
  assumes "plenty m" and "\<And>c m. plenty m \<Longrightarrow> defined (k c m)"
  shows "defined (intern_into (Some x) f m k)"
proof -
  obtain m1 where "lwc_intern_string x m = (Some x, m1)" "plenty m1"
    using intern_ok [OF assms(1)] by blast
  then show ?thesis
    using assms(2) by (simp add: intern_into_def)
qed

lemma section_ok_defined: "plenty m \<Longrightarrow> defined (section_ok c m)"
  by (simp add: section_ok_def defined_def)

lemma buf_slice_defined:
  "0 \<le> off \<Longrightarrow> 0 \<le> n \<Longrightarrow> off + n \<le> int (length norm) \<Longrightarrow>
     buf_slice norm off n = Some (take (nat n) (drop (nat off) norm))"
  by (simp add: buf_slice_def)

lemma create_host_name_defined:
  assumes "0 \<le> n" and "n \<le> int (length norm)" and few: "n \<le> 255" and stop: "peek (drop (nat n) norm) = NUL \<or> peek (drop (nat n) norm) = CHR '':''"
    and m: "plenty m"
  shows "defined (create_host_name norm n c m)"
proof -
  obtain r m1 where r: "idna_encode norm (nat n) m = Some (r, m1)"
    using idna_encode_defined [OF _ stop, of m] few nat_mono [OF few] by (cases "idna_encode norm (nat n) m") auto
  have m1: "plenty m1"
    using idna_encode_plenty [OF r m] .
  show ?thesis
  proof (cases r)
    case (Inl e)
    then show ?thesis
      using assms(1,2) r m1 by (simp add: create_host_name_def buf_slice_defined intern_into_defined section_ok_defined)
  next
    case (Inr p)
    then obtain name k where "r = Inr (Some name, k)"
      using idna_encode_name r m by (cases p) fastforce
    then show ?thesis
      using assms(1,2) r m1 idna_encode_length [of norm "nat n" m name k m1]
      by (simp add: create_host_name_def buf_slice_defined intern_into_defined section_ok_defined)
  qed
qed

lemma create_host_defined:
  assumes "m_at pegs = m_authority pegs" and few: "length norm \<le> 255" and m: "plenty m"
    and colon: "\<And>colon. host_colon pegs = Some colon \<Longrightarrow>
      m_at pegs \<le> colon \<and> colon < m_at pegs + length norm \<and> norm ! (colon - m_at pegs) = CHR '':''"
  shows "defined (create_host pegs norm (length norm) c m)"
proof -
  let ?c = "c\<lparr>uc_host := None, uc_port := None\<rparr>"
  have whole: "defined (create_host_name norm (int (length norm)) ?c m)"
    using few m by (intro create_host_name_defined) simp_all
  show ?thesis
  proof (cases "host_colon pegs")
    case None
    then show ?thesis
      using whole section_ok_defined [OF m] by (simp add: create_host_def Let_def)
  next
    case (Some colon)
    let ?off = "int colon - int (m_at pegs)"
    have off: "0 \<le> ?off" "?off < int (length norm)"
      using colon [OF Some] by auto
    have "drop (nat ?off) norm = CHR '':'' # drop (nat ?off + 1) norm"
      using colon [OF Some] off by (subst Cons_nth_drop_Suc [symmetric]) (auto simp: nat_diff_distrib)
    then have host: "defined (create_host_name norm ?off c' m')" if "plenty m'" for c' m'
      using off few that by (intro create_host_name_defined) simp_all
    have port: "defined (intern_into (buf_slice norm (?off + 1) (int (length norm) - (?off + 1)))
        (\<lambda>x. ?c\<lparr>uc_port := x\<rparr>) m (create_host_name norm ?off))"
      if "\<not> int (length norm) \<le> ?off + 1"
      using that off m by (subst buf_slice_defined) (auto intro!: intern_into_defined host)
    show ?thesis
      using off(1) whole host [OF m] port section_ok_defined [OF m] assms(1)
      unfolding create_host_def Let_def Some option.case by simp
  qed
qed

lemma whole_slice: "buf_slice norm 0 (int (length norm)) = Some norm"
  by (simp add: buf_slice_def)

lemma section_defined:
  assumes "cstring s" and "CHR ''%'' \<notin> set s" and "CHR ''@'' \<notin> set s"
    and pegs: "pegs = nsurl__get_string_markers s joining"
    and few: "length (section_text s URL_HOST pegs) \<le> 255" and m: "plenty m"
  shows "defined (nsurl__create_from_section s sect pegs c m)"
proof -
  have ord: "markers_ordered s pegs" and marks: "marks_ok s (m_path pegs) pegs"
    using markers_correct [OF assms(1) pegs] by simp_all
  obtain norm len where n: "normalise_section s sect pegs = (norm, len)"
    by (cases "normalise_section s sect pegs")
  note len = normalise_section_shape [OF ord n, THEN conjunct1]
  have "m_at pegs < length s \<longrightarrow> s ! m_at pegs \<noteq> CHR ''@''"
    using assms(3) nth_mem by metis
  then have at: "m_at pegs = m_authority pegs" "chr_at s (m_at pegs) \<noteq> CHR ''@''"
    using marks ord by (auto simp: marks_ok_def markers_ordered_def chr_at_def)
  show ?thesis
  proof (cases sect)
    case URL_HOST
    have b: "section_bounds s URL_HOST pegs = (m_at pegs, m_path pegs)"
      using at by (simp add: section_bounds_def)
    have "CHR ''%'' \<notin> set (section_text s URL_HOST pegs)"
      using assms(2) by (auto simp: section_text_def b dest: in_set_takeD in_set_dropD)
    then have norm: "norm = map ascii_to_lower (section_text s URL_HOST pegs)"
      using n normalise_lower [of "section_text s URL_HOST pegs" URL_HOST "[]"]
      by (auto simp: normalise_section_def b lower_section_def URL_HOST)
    have host_text: "section_text s URL_HOST pegs = take (m_path pegs - m_at pegs) (drop (m_at pegs) s)"
      by (simp add: section_text_def b)
    have length: "length norm = m_path pegs - m_at pegs"
      using norm section_text_length(2) [OF ord b] by simp
    have colon: "m_at pegs \<le> colon \<and> colon < m_path pegs \<and> s ! colon = CHR '':''" if "host_colon pegs = Some colon" for colon
      using that marks at(1) by (auto simp: host_colon_def marks_ok_def colon_mark_def split: if_splits)
    have bounds: "m_at pegs \<le> m_path pegs" "m_path pegs \<le> length s"
      using ord by (auto simp: markers_ordered_def)
    have "norm ! (colon - m_at pegs) = CHR '':''" if "host_colon pegs = Some colon" for colon
    proof -
      have "colon - m_at pegs < m_path pegs - m_at pegs"
        using colon [OF that] by linarith
      then have "section_text s URL_HOST pegs ! (colon - m_at pegs) = s ! colon"
        using colon [OF that] bounds unfolding host_text by simp
      moreover have "colon - m_at pegs < length (section_text s URL_HOST pegs)"
        using \<open>colon - m_at pegs < m_path pegs - m_at pegs\<close> norm length by simp
      ultimately show ?thesis
        using colon [OF that] unfolding norm by (simp add: ascii_to_lower_def ascii_is_alpha_upper_def)
    qed
    then have "defined (create_host pegs norm (length norm) c m)"
      using colon length bounds few norm m by (intro create_host_defined at) auto
    then show ?thesis
      using n len by (simp add: nsurl__create_from_section_def URL_HOST)
  next
    case URL_CREDENTIALS
    then have "norm = []"
      using n at(1) by (auto simp: normalise_section_def section_bounds_def section_text_def)
    then show ?thesis
      using n len section_ok_defined [OF m]
      by (simp add: nsurl__create_from_section_def URL_CREDENTIALS create_credentials_def Let_def)
  qed (use n len in \<open>auto simp: nsurl__create_from_section_def create_scheme_def create_path_def create_query_def
        create_fragment_def whole_slice intro!: section_ok_defined intern_into_defined m\<close>)
qed

lemma create_sections_defined:
  "(\<And>sect c m. plenty m \<Longrightarrow> defined (nsurl__create_from_section s sect pegs c m)) \<Longrightarrow> plenty m \<Longrightarrow>
     defined (create_sections s pegs sects e c m)"
proof (induction sects arbitrary: e c m)
  case (Cons sect sects)
  obtain e1 c1 m1 where "nsurl__create_from_section s sect pegs c m = Some (e1, c1, m1)" "plenty m1"
    using Cons.prems(1) [OF Cons.prems(2), of sect c] by (auto simp: defined_def)
  then show ?case
    using Cons.IH [OF Cons.prems(1)] by simp
qed (simp add: defined_def)

section \<open>Properties\<close>

text \<open>
  C21. The markers cut any NUL-terminated string into consecutive sections inside the string,
  and normalising a section never overruns the buffer \<^verbatim>\<open>nsurl_create\<close> allocates for it (three
  bytes per byte of the longest section, and the NUL); the length the code tracks is the
  number of bytes written; and a normalised path, query, fragment or credentials section
  has only bytes that need no escape, and percent signs.
\<close>

theorem normalise_fits_buffer:
  assumes "cstring url_s" and "pegs = nsurl__get_string_markers url_s joining"
    and "normalise_section url_s sect pegs = (norm, len)"
  shows "markers_ordered url_s pegs \<and> len = length norm \<and>
    length norm + 1 \<le> nsurl__get_longest_section pegs * 3 + 1 \<and>
    (lower_section sect \<or> list_all url_char norm)"
proof -
  have ord: "markers_ordered url_s pegs"
    using markers_correct [OF assms(1,2)] by simp
  then show ?thesis
    using normalise_section_shape [OF ord assms(3)] section_text_length(1) [OF ord, of sect] by auto
qed

theorem normalise_fits_buffer_witness:
  "cstring ''http://h/a b'' \<and>
   normalise_section ''http://h/a b'' URL_PATH (nsurl__get_string_markers ''http://h/a b'' False) = (''/a%20b'', 6) \<and>
   list_all url_char ''/a%20b''"
proof -
  have c: "cstring ''http://h/a b''"
    by (simp add: cstring_def)
  have n: "normalise_section ''http://h/a b'' URL_PATH (nsurl__get_string_markers ''http://h/a b'' False) =
      (''/a%20b'', 6)"
    by code_simp
  show ?thesis
    using c n normalise_fits_buffer [OF c refl n] by (auto simp: lower_section_def)
qed

lemma create_ok:
  assumes "nsurl_create url_s m = Some (r, m')"
  shows "case r of
      Inr url \<Rightarrow> nsurl_wf url \<and> url_count url = 1 \<and> held m' = held m + url_foot url \<and>
        (uc_scheme (url_components url) \<in> {Some ''http'', Some ''https''} \<longrightarrow> uc_host (url_components url) \<noteq> None)
    | Inl e \<Rightarrow> e = NSERROR_NOMEM \<or> e = NSERROR_BAD_URL \<and> held m' = held m"
proof -
  let ?pegs = "nsurl__get_string_markers url_s False"
  let ?sections = "\<lambda>m. create_sections url_s ?pegs
    [URL_SCHEME, URL_CREDENTIALS, URL_HOST, URL_PATH, URL_QUERY, URL_FRAGMENT] NSERROR_OK
    (null_components (m_scheme_type ?pegs)) m"
  consider (nomem) "r = Inl NSERROR_NOMEM"
    | (bad) m1 c m2 where "malloc m = (True, m1)" "?sections m1 = Some (NSERROR_OK, c, m2)"
        "r = Inl NSERROR_BAD_URL" "m' = nsurl__components_destroy c (free_block m2)"
    | (made) m1 c m2 where "malloc m = (True, m1)" "?sections m1 = Some (NSERROR_OK, c, m2)"
        "\<not> ((uc_scheme c = Some ''http'' \<or> uc_scheme c = Some ''https'') \<and> uc_host c = None)"
        "nsurl_from_components c (free_block m2) = (r, m')"
    using assms unfolding nsurl_create_def Let_def
    by (auto split: prod.split_asm option.split_asm if_split_asm)
  then show ?thesis
  proof cases
    case bad
    then show ?thesis
      using all_sections_ok [OF bad(2)] malloc_held [OF bad(1)] by simp
  next
    case made
    then show ?thesis
      using all_sections_ok [OF made(2)] malloc_held [OF made(1)] from_components [OF made(4)]
      by (auto simp: url_foot_def algebra_simps split: sum.splits)
  qed simp
qed

text \<open>
  C1. A URL string is turned into a well-formed object with one reference (its string is the
  text of its components, its hash theirs), an http or https URL has a host, and the object
  is exactly what is held more afterwards; the errors are out of memory and bad URL, and
  rejecting a URL as bad leaves nothing held.
\<close>

theorem nsurl_create_correct:
  assumes "nsurl_create url_s m = Some (r, m')"
  shows "case r of
      Inr url \<Rightarrow> nsurl_wf url \<and> url_count url = 1 \<and> held m' = held m + url_foot url \<and>
        (uc_scheme (url_components url) \<in> {Some ''http'', Some ''https''} \<longrightarrow> uc_host (url_components url) \<noteq> None)
    | Inl e \<Rightarrow> e = NSERROR_NOMEM \<or> e = NSERROR_BAD_URL \<and> held m' = held m"
  by (rule create_ok [OF assms])

theorem nsurl_create_correct_witness:
  "\<exists>url m'. nsurl_create ''HTTP://Ex.org'' (fresh_mem []) = Some (Inr url, m') \<and> nsurl_wf url \<and>
     url_string url = ''http://ex.org/'' \<and> held m' = held (fresh_mem []) + url_foot url"
proof -
  have s: "(case nsurl_create ''HTTP://Ex.org'' (fresh_mem []) of
      Some (Inr url, _) \<Rightarrow> url_string url | _ \<Rightarrow> []) = ''http://ex.org/''"
    by code_simp
  then obtain url m' where u: "nsurl_create ''HTTP://Ex.org'' (fresh_mem []) = Some (Inr url, m')"
    by (auto split: option.splits prod.splits sum.splits)
  show ?thesis
    using nsurl_create_correct [OF u] u s by auto
qed

text \<open>
  C3. On a string without percent escapes and without an at sign whose host section has at most 255
  bytes, and when memory does not run out, the parser never reads a byte of its buffer that it has
  not written, never computes a negative length, never writes behind the array the name is encoded
  into and never reads a null pointer.
\<close>

theorem nsurl_create_defined:
  assumes "cstring url_s" and "CHR ''%'' \<notin> set url_s" and "CHR ''@'' \<notin> set url_s"
    and "length (section_text url_s URL_HOST (nsurl__get_string_markers url_s False)) \<le> 255" and "plenty m"
  shows "\<exists>r m'. nsurl_create url_s m = Some (r, m')"
proof -
  let ?pegs = "nsurl__get_string_markers url_s False"
  obtain m1 where m1: "malloc m = (True, m1)" "plenty m1"
    using malloc_ok [OF assms(5)] .
  have "defined (create_sections url_s ?pegs
      [URL_SCHEME, URL_CREDENTIALS, URL_HOST, URL_PATH, URL_QUERY, URL_FRAGMENT] NSERROR_OK
      (null_components (m_scheme_type ?pegs)) m1)"
    by (intro create_sections_defined section_defined [OF assms(1-3) refl assms(4)] m1(2))
  then obtain e c m2 where c: "create_sections url_s ?pegs
      [URL_SCHEME, URL_CREDENTIALS, URL_HOST, URL_PATH, URL_QUERY, URL_FRAGMENT] NSERROR_OK
      (null_components (m_scheme_type ?pegs)) m1 = Some (e, c, m2)"
    by (auto simp: defined_def)
  show ?thesis
    unfolding nsurl_create_def Let_def m1 prod.case c option.case
    by (cases "nsurl_from_components c (free_block m2)") simp
qed

theorem nsurl_create_defined_witness:
  "\<exists>r m'. nsurl_create ''http://h:8080/x'' (fresh_mem []) = Some (r, m')"
proof (rule nsurl_create_defined)
  show "length (section_text ''http://h:8080/x'' URL_HOST (nsurl__get_string_markers ''http://h:8080/x'' False)) \<le> 255"
    by code_simp
qed (simp_all add: cstring_def plenty_def fresh_mem_def)

text \<open>
  With two colons before the at sign the port test starts before the buffer; with escapes in
  the host the port offsets, taken from the raw string, point past the normalised bytes.
\<close>

lemma nsurl_create_two_colons: "nsurl_create ''http://a:b:c@h/'' (fresh_mem []) = None"
  by code_simp

lemma nsurl_create_escaped_host: "nsurl_create ''http://%41%41%41:80/'' (fresh_mem []) = None"
  by code_simp

text \<open>The password is cut out of the escaped user name by the offsets of the raw string.\<close>

lemma nsurl_create_escaped_credentials:
  "(case nsurl_create ''http://us er:pw@host/'' (fresh_mem []) of
      Some (Inr url, _) \<Rightarrow> (uc_username (url_components url), uc_password (url_components url))) =
   (Some ''us%20er'', Some ''r:'')"
  by code_simp

text \<open>With credentials the first byte of the port is not tested for being a digit.\<close>

lemma nsurl_create_port_letter:
  "(case nsurl_create ''http://u@h:x1/'' (fresh_mem []) of
      Some (Inr url, _) \<Rightarrow> uc_port (url_components url)) = Some ''x1''"
  by code_simp

text \<open>Without a scheme the authority is only assumed up to a slash or the end.\<close>

lemma nsurl_create_no_scheme_query:
  "map_option fst (nsurl_create ''localhost?x'' (fresh_mem [])) = Some (Inl NSERROR_BAD_URL)"
  by code_simp



end
