(* ===== verification/Fs_Store.thy ===== *)
theory Fs_Store
  imports Hash_Map Nsurl
begin

unbundle bit_operations_syntax

text \<open>
  \<^verbatim>\<open>src/content/fs_backing_store.c\<close>: the disc cache behind the low-level cache. Each URL has an
  entry of two elements, the object's data and its metadata. An element of at most a
  block's size is kept in a block of one of the block files, whose bits in a use map say
  which blocks are taken; a larger one is a file of its own, named after the URL's hash.
  While the cache uses an element its bytes are in memory, with a count of the users.

  The entries are a hash map from URLs (\<open>Hash_Map\<close>); its callbacks are shown to satisfy the
  interface \<open>hashmap_callbacks\<close>. An entry is only reached through the map, so writing
  through a \<^verbatim>\<open>struct store_entry *\<close> is \<open>hashmap_modify\<close>. URL objects are shared handles: a
  reference to one is counted in the allocator state.

  The file system is a map from file names to bytes; an open descriptor is the name. What a
  system call does is decided by an oracle (\<open>w_io\<close>) of errors and short transfers, so that
  the theorems cover every pattern of them. The indices into the block files are in range
  by the invariant of \<open>Fs_Store_Props\<close>. Not modelled: the scheduling of the periodic write of
  the index, and the format of the files \<^verbatim>\<open>entries\<close>, \<^verbatim>\<open>control\<close> and \<^verbatim>\<open>CACHEDIR.TAG\<close>.
\<close>

section \<open>Data\<close>

datatype elem_idx = ENTRY_ELEM_DATA | ENTRY_ELEM_META

definition ENTRY_ELEM_COUNT :: nat where
  "ENTRY_ELEM_COUNT = 2"

definition elem_number :: "elem_idx \<Rightarrow> nat" where
  "elem_number e = (case e of ENTRY_ELEM_DATA \<Rightarrow> 0 | ENTRY_ELEM_META \<Rightarrow> 1)"

definition BLOCK_ADDR_LEN :: nat where
  "BLOCK_ADDR_LEN = 16"

definition BLOCK_ENTRY_COUNT :: nat where
  "BLOCK_ENTRY_COUNT = 10"

definition BLOCK_FILE_COUNT :: nat where
  "BLOCK_FILE_COUNT = BLOCK_ADDR_LEN - BLOCK_ENTRY_COUNT"

definition BLOCK_USE_MAP_SIZE :: nat where
  "BLOCK_USE_MAP_SIZE = 2 ^ (BLOCK_ENTRY_COUNT - 3)"

definition log2_block_size :: "elem_idx \<Rightarrow> nat" where
  "log2_block_size e = (case e of ENTRY_ELEM_DATA \<Rightarrow> 13 | ENTRY_ELEM_META \<Rightarrow> 13)"

definition ENTRY_ELEM_FLAG_HEAP :: "8 word" where
  "ENTRY_ELEM_FLAG_HEAP = 0x1"

definition ENTRY_ELEM_FLAG_MMAP :: "8 word" where
  "ENTRY_ELEM_FLAG_MMAP = 0x2"

definition ENTRY_FLAGS_INVALID :: "8 word" where
  "ENTRY_FLAGS_INVALID = 1"

text \<open>
  \<open>el_data\<close> is the allocation that the pointer points to; once it is freed (the heap flag is
  cleared) it stands for the dangling pointer and is not read.
\<close>

record store_entry_element =
  el_data :: "8 word list"
  el_size :: "32 word"
  el_block :: "16 word"
  el_ref :: "8 word"
  el_flags :: "8 word"

record store_entry =
  se_url :: nsurl
  se_last_used :: int
  se_use_count :: "16 word"
  se_flags :: "8 word"
  se_data :: store_entry_element
  se_meta :: store_entry_element

definition elem :: "elem_idx \<Rightarrow> store_entry \<Rightarrow> store_entry_element" where
  "elem e bse = (case e of ENTRY_ELEM_DATA \<Rightarrow> se_data bse | ENTRY_ELEM_META \<Rightarrow> se_meta bse)"

definition elem_update ::
  "elem_idx \<Rightarrow> (store_entry_element \<Rightarrow> store_entry_element) \<Rightarrow> store_entry \<Rightarrow> store_entry" where
  "elem_update e f bse = (case e of
     ENTRY_ELEM_DATA \<Rightarrow> bse\<lparr>se_data := f (se_data bse)\<rparr>
   | ENTRY_ELEM_META \<Rightarrow> bse\<lparr>se_meta := f (se_meta bse)\<rparr>)"

record block_file =
  bf_fd :: "string option"
  bf_use_map :: "8 word list"

record store_state =
  ss_path :: string
  ss_limit :: "64 word"
  ss_hysteresis :: "64 word"
  ss_entries :: "(nsurl, store_entry) hashmap"
  ss_entries_dirty :: bool
  ss_blocks :: "elem_idx \<Rightarrow> block_file list"
  ss_blocks_dirty :: bool
  ss_blocks_opened :: bool
  ss_total_alloc :: "64 word"
  ss_hit_count :: "64 word"
  ss_hit_size :: "64 word"
  ss_miss_count :: "64 word"

section \<open>The entries' callbacks\<close>

definition entries_hashmap_key_eq :: "nsurl \<Rightarrow> nsurl \<Rightarrow> bool" where
  "entries_hashmap_key_eq key1 key2 = nsurl_compare key1 key2 NSURL_COMPLETE"

definition zero_element :: store_entry_element where
  "zero_element = \<lparr>el_data = [], el_size = 0, el_block = 0, el_ref = 0, el_flags = 0\<rparr>"

definition entries_hashmap_value_alloc :: "nsurl \<Rightarrow> mem \<Rightarrow> store_entry option \<times> mem" where
  "entries_hashmap_value_alloc key m =
     (case malloc m of (ok, m1) \<Rightarrow>
        if ok then (Some \<lparr>se_url = key, se_last_used = 0, se_use_count = 0, se_flags = 0,
                          se_data = zero_element, se_meta = zero_element\<rparr>, url_handle_ref m1)
        else (None, m1))"

definition entries_hashmap_value_destroy :: "store_entry \<Rightarrow> mem \<Rightarrow> mem" where
  "entries_hashmap_value_destroy ent m = free_block (url_handle_unref m)"

definition entries_hashmap_parameters :: "(nsurl, store_entry) hashmap_parameters" where
  "entries_hashmap_parameters =
     \<lparr>key_clone = (\<lambda>key m. (Some key, url_handle_ref m)), key_hash = nsurl_hash,
      key_eq = entries_hashmap_key_eq, key_destroy = (\<lambda>key m. url_handle_unref m),
      value_alloc = entries_hashmap_value_alloc, value_destroy = entries_hashmap_value_destroy\<rparr>"

text \<open>A URL whose stored hash is that of its components; well-formed URLs are such.\<close>

definition hash_valid :: "nsurl \<Rightarrow> bool" where
  "hash_valid url \<longleftrightarrow> url_hash url = nsurl__calc_hash (url_components url)"

lemma hash_valid_wf: "nsurl_wf url \<Longrightarrow> hash_valid url"
  by (simp add: nsurl_wf_def hash_valid_def)

interpretation entries: hashmap_callbacks hash_valid entries_hashmap_parameters a_ref "a_block + a_ref"
proof (unfold_locales, goal_cases)
  case (1 k) show ?case by (simp add: entries_hashmap_parameters_def entries_hashmap_key_eq_def compare_iff)
next
  case (2 k k') then show ?case by (simp add: entries_hashmap_parameters_def entries_hashmap_key_eq_def compare_iff)
next
  case (3 k k' k'') then show ?case by (simp add: entries_hashmap_parameters_def entries_hashmap_key_eq_def compare_iff)
next
  case (4 k k') then show ?case
    using compare_complete_hash [of k k']
    by (simp add: entries_hashmap_parameters_def entries_hashmap_key_eq_def hash_valid_def nsurl_hash_def)
next
  case (5 k m k' m') then show ?case
    by (simp add: entries_hashmap_parameters_def entries_hashmap_key_eq_def compare_iff)
qed (auto simp: entries_hashmap_parameters_def entries_hashmap_value_alloc_def
    entries_hashmap_value_destroy_def algebra_simps dest!: malloc_held split: prod.splits if_splits)

section \<open>The file system\<close>

text \<open>What the next system call does: it works, it fails, or it transfers at most so many bytes.\<close>

datatype io = IO_ok | IO_error | IO_short nat

record world =
  w_mem :: mem
  w_files :: "string \<Rightarrow> 8 word list option"
  w_io :: "io list"
  w_now :: int

definition io_next :: "world \<Rightarrow> io \<times> world" where
  "io_next w = (case w_io w of [] \<Rightarrow> (IO_ok, w) | io # ios \<Rightarrow> (io, w\<lparr>w_io := ios\<rparr>))"

definition io_count :: "io \<Rightarrow> nat \<Rightarrow> nat option" where
  "io_count io n = (case io of IO_ok \<Rightarrow> Some n | IO_error \<Rightarrow> None | IO_short k \<Rightarrow> Some (min k n))"

definition file_bytes :: "world \<Rightarrow> string \<Rightarrow> 8 word list" where
  "file_bytes w fname = (case w_files w fname of None \<Rightarrow> [] | Some bytes \<Rightarrow> bytes)"

definition put_bytes :: "8 word list \<Rightarrow> nat \<Rightarrow> 8 word list \<Rightarrow> 8 word list" where
  "put_bytes bytes off data = (if data = [] then bytes else
     take off (bytes @ replicate (off - length bytes) 0) @ data @ drop (off + length data) bytes)"

definition nsu_pwrite :: "string \<Rightarrow> 8 word list \<Rightarrow> nat \<Rightarrow> world \<Rightarrow> nat option \<times> world" where
  "nsu_pwrite fd data offset w =
     (case io_next w of (io, w1) \<Rightarrow>
        case io_count io (length data) of
          None \<Rightarrow> (None, w1)
        | Some n \<Rightarrow> (Some n, w1\<lparr>w_files := (w_files w1)(fd \<mapsto> put_bytes (file_bytes w1 fd) offset (take n data))\<rparr>))"

definition nsu_pread :: "string \<Rightarrow> nat \<Rightarrow> nat \<Rightarrow> world \<Rightarrow> 8 word list option \<times> world" where
  "nsu_pread fd len offset w =
     (case io_next w of (io, w1) \<Rightarrow>
        let avail = take len (drop offset (file_bytes w1 fd)) in
        (map_option (\<lambda>n. take n avail) (io_count io (length avail)), w1))"

definition unlink_file :: "string \<Rightarrow> world \<Rightarrow> world" where
  "unlink_file fname w =
     (case io_next w of (io, w1) \<Rightarrow> if io = IO_error then w1 else w1\<lparr>w_files := (w_files w1)(fname := None)\<rparr>)"

definition with_mem :: "(mem \<Rightarrow> 'a \<times> mem) \<Rightarrow> world \<Rightarrow> 'a \<times> world" where
  "with_mem f w = (case f (w_mem w) of (x, m) \<Rightarrow> (x, w\<lparr>w_mem := m\<rparr>))"

definition world_free :: "world \<Rightarrow> world" where
  "world_free w = w\<lparr>w_mem := free_block (w_mem w)\<rparr>"

section \<open>File names\<close>

text \<open>
  \<^verbatim>\<open>vsnstrjoin\<close> of \<^verbatim>\<open>utils.c\<close>, which \<^verbatim>\<open>neosurf_mkpath\<close> calls with a slash: each element is
  followed by a separator unless the text so far ends in one; the last separator is
  overwritten by the NUL. (An empty first element makes the code read the byte before the
  buffer; the store's path is not empty.)
\<close>

definition join_element :: "char \<Rightarrow> string \<Rightarrow> string \<Rightarrow> string" where
  "join_element sep acc element =
     (let s = acc @ element in if s \<noteq> [] \<and> last s = sep then s else s @ [sep])"

definition vsnstrjoin :: "char \<Rightarrow> string list \<Rightarrow> mem \<Rightarrow> string result \<times> mem" where
  "vsnstrjoin sep elms m =
     (if length elms = 0 \<or> length elms > 16 then (Inl NSERROR_BAD_PARAMETER, m)
      else (case malloc m of (ok, m1) \<Rightarrow>
        if ok then (Inr (butlast (foldl (join_element sep) [] elms)), m1) else (Inl NSERROR_NOMEM, m1)))"

definition base_dir_table :: "string list" where
  "base_dir_table = [''d'', ''m'', ''dblk'', ''mblk'']"

definition encoding_table :: "string list" where
  "encoding_table =
     [''A'', ''B'', ''C'', ''D'', ''E'', ''F'', ''G'', ''H'', ''I'', ''J'', ''K'', ''L'', ''M'', ''N'', ''O'', ''P'',
      ''Q'', ''R'', ''S'', ''T'', ''U'', ''V'', ''W'', ''X'', ''Y'', ''Z'', ''2'', ''3'', ''4'', ''5'', ''6'', ''7'',
      ''BA'', ''BB'', ''BC'', ''BD'', ''BE'', ''BF'', ''BG'', ''BH'', ''BI'', ''BJ'', ''BK'', ''BL'', ''BM'',
      ''BN'', ''BO'', ''BP'', ''BQ'', ''BR'', ''BS'', ''BT'', ''BU'', ''BV'', ''BW'', ''BX'', ''BY'', ''BZ'',
      ''B2'', ''B3'', ''B4'', ''B5'', ''B6'', ''B7'']"

definition ident_char :: "32 word \<Rightarrow> nat \<Rightarrow> char" where
  "ident_char ident k = hd (encoding_table ! unat (drop_bit k ident AND 0x1f))"

definition ident_dir :: "32 word \<Rightarrow> nat \<Rightarrow> string" where
  "ident_dir ident k = encoding_table ! unat (drop_bit k ident AND 0x3f)"

definition store_fname :: "store_state \<Rightarrow> 32 word \<Rightarrow> nat \<Rightarrow> mem \<Rightarrow> string option \<times> mem" where
  "store_fname st ident elem_idx m =
     (let b32u_i = map (ident_char ident) [0, 5, 10, 15, 20, 25, 30];
          b32u_d = (base_dir_table ! elem_idx) # map (ident_dir ident) [0, 6, 12, 18, 24] in
      case (if elem_idx < ENTRY_ELEM_COUNT then vsnstrjoin (CHR ''/'') (ss_path st # b32u_d @ [b32u_i]) m
            else vsnstrjoin (CHR ''/'') (ss_path st # take 2 b32u_d) m) of
        (Inl e, m1) \<Rightarrow> (None, m1)
      | (Inr fname, m1) \<Rightarrow> (Some fname, m1))"

text \<open>\<^verbatim>\<open>O_CREAT\<close> is the only flag that matters here; making the directories may fail too.\<close>

definition store_open :: "store_state \<Rightarrow> 32 word \<Rightarrow> nat \<Rightarrow> bool \<Rightarrow> world \<Rightarrow> string option \<times> world" where
  "store_open st ident elem_idx creat w =
     (case with_mem (store_fname st ident elem_idx) w of
        (None, w1) \<Rightarrow> (None, w1)
      | (Some fname, w1) \<Rightarrow>
          (case (if creat then io_next w1 else (IO_ok, w1)) of (mkdir_all, w2) \<Rightarrow>
             if mkdir_all = IO_error then (None, world_free w2)
             else (case io_next w2 of (io, w3) \<Rightarrow>
               if io = IO_error \<or> \<not> creat \<and> w_files w3 fname = None then (None, world_free w3)
               else (Some fname, world_free (w3\<lparr>w_files := (w_files w3)(fname \<mapsto> file_bytes w3 fname)\<rparr>)))))"

section \<open>Blocks\<close>

definition block_file_of :: "16 word \<Rightarrow> nat" where
  "block_file_of block = unat (drop_bit BLOCK_ENTRY_COUNT block AND (2 ^ BLOCK_FILE_COUNT - 1))"

definition block_index_of :: "16 word \<Rightarrow> nat" where
  "block_index_of block = unat (block AND (2 ^ BLOCK_ENTRY_COUNT - 1))"

fun first_clear_bit :: "8 word \<Rightarrow> nat list \<Rightarrow> nat option" where
  "first_clear_bit byte [] = None"
| "first_clear_bit byte (b # bits) =
     (if byte AND push_bit b 1 = 0 then Some b else first_clear_bit byte bits)"

fun first_clear_in_map :: "8 word list \<Rightarrow> nat \<Rightarrow> (nat \<times> nat) option" where
  "first_clear_in_map [] idx = None"
| "first_clear_in_map (byte # bytes) idx =
     (case (if byte \<noteq> 0xff then first_clear_bit byte [0..<8] else None) of
        Some b \<Rightarrow> Some (idx, b)
      | None \<Rightarrow> first_clear_in_map bytes (idx + 1))"

fun first_clear_block :: "block_file list \<Rightarrow> nat \<Rightarrow> (nat \<times> nat \<times> nat) option" where
  "first_clear_block [] bf = None"
| "first_clear_block (f # fs) bf =
     (case first_clear_in_map (bf_use_map f) 0 of
        Some (idx, b) \<Rightarrow> Some (bf, idx, b)
      | None \<Rightarrow> first_clear_block fs (bf + 1))"

definition alloc_block :: "store_state \<Rightarrow> elem_idx \<Rightarrow> 16 word \<times> store_state" where
  "alloc_block st e =
     (case first_clear_block (ss_blocks st e) 0 of
        None \<Rightarrow> (0, st)
      | Some (bf, idx, b) \<Rightarrow>
          (let f = ss_blocks st e ! bf;
               use_map = (bf_use_map f)[idx := bf_use_map f ! idx OR push_bit b 1] in
           (word_of_nat ((bf * BLOCK_USE_MAP_SIZE + idx) * 8 + b),
            st\<lparr>ss_blocks := (ss_blocks st)(e := (ss_blocks st e)[bf := f\<lparr>bf_use_map := use_map\<rparr>]),
               ss_blocks_dirty := True\<rparr>)))"

definition block_in_use :: "block_file list \<Rightarrow> 16 word \<Rightarrow> bool" where
  "block_in_use fs block =
     (bf_use_map (fs ! block_file_of block) ! (block_index_of block div 8)
        AND push_bit (block_index_of block mod 8) 1 \<noteq> 0)"

section \<open>Entries\<close>

abbreviation entry_lookup :: "store_state \<Rightarrow> nsurl \<Rightarrow> store_entry option" where
  "entry_lookup st url \<equiv> hashmap_lookup entries_hashmap_parameters (ss_entries st) url"

definition write_entry_at :: "nsurl \<Rightarrow> (store_entry \<Rightarrow> store_entry) \<Rightarrow> store_state \<Rightarrow> store_state" where
  "write_entry_at url f st =
     st\<lparr>ss_entries := hashmap_modify entries_hashmap_parameters (ss_entries st) url f\<rparr>"

definition get_store_entry :: "store_state \<Rightarrow> nsurl \<Rightarrow> int \<Rightarrow> store_entry result \<times> store_state" where
  "get_store_entry st url now =
     (case entry_lookup st url of
        None \<Rightarrow> (Inl NSERROR_NOT_FOUND, st)
      | Some ent \<Rightarrow>
          (let ent' = ent\<lparr>se_last_used := now, se_use_count := se_use_count ent + 1\<rparr> in
           (Inr ent', (write_entry_at url (\<lambda>_. ent') st)\<lparr>ss_entries_dirty := True\<rparr>)))"

definition free_use_bit :: "elem_idx \<Rightarrow> 16 word \<Rightarrow> store_state \<Rightarrow> store_state" where
  "free_use_bit e block st =
     (let bf = block_file_of block; bi = block_index_of block;
          f = ss_blocks st e ! bf;
          use_map = (bf_use_map f)[bi div 8 := bf_use_map f ! (bi div 8) AND NOT (push_bit (bi mod 8) 1)] in
      st\<lparr>ss_blocks := (ss_blocks st)(e := (ss_blocks st e)[bf := f\<lparr>bf_use_map := use_map\<rparr>])\<rparr>)"

definition invalidate_element ::
  "store_state \<Rightarrow> store_entry \<Rightarrow> elem_idx \<Rightarrow> world \<Rightarrow> nserror \<times> store_state \<times> world" where
  "invalidate_element st bse e w =
     (let el = elem e bse;
          (ret, st1, w1) =
            (if el_block el \<noteq> 0 then (NSERROR_OK, free_use_bit e (el_block el) st, w)
             else (case with_mem (store_fname st (nsurl_hash (se_url bse)) (elem_number e)) w of
                 (None, w1) \<Rightarrow> (NSERROR_NOMEM, st, w1)
               | (Some fname, w1) \<Rightarrow> (NSERROR_OK, st, world_free (unlink_file fname w1)))) in
      if ret \<noteq> NSERROR_OK then (ret, st1, w1)
      else (NSERROR_OK, st1\<lparr>ss_total_alloc := ss_total_alloc st1 - ucast (el_size el)\<rparr>, w1))"

definition in_use :: "store_entry_element \<Rightarrow> bool" where
  "in_use el \<longleftrightarrow> el_flags el AND (ENTRY_ELEM_FLAG_HEAP OR ENTRY_ELEM_FLAG_MMAP) \<noteq> 0"

definition invalidate_entry ::
  "store_state \<Rightarrow> store_entry \<Rightarrow> world \<Rightarrow> nserror \<times> store_state \<times> world" where
  "invalidate_entry st bse w =
     (let bse1 = bse\<lparr>se_flags := se_flags bse OR ENTRY_FLAGS_INVALID\<rparr>;
          st1 = write_entry_at (se_url bse) (\<lambda>_. bse1) st in
      if in_use (se_data bse1) \<or> in_use (se_meta bse1) then (NSERROR_OK, st1, w)
      else (case invalidate_element st1 bse1 ENTRY_ELEM_META w of (ret, st2, w2) \<Rightarrow>
        case invalidate_element st2 bse1 ENTRY_ELEM_DATA w2 of (ret', st3, w3) \<Rightarrow>
          (case hashmap_remove entries_hashmap_parameters (ss_entries st3) (se_url bse1) (w_mem w3) of
             (found, entries', m) \<Rightarrow>
               (NSERROR_OK, st3\<lparr>ss_entries := entries'\<rparr>, w3\<lparr>w_mem := m\<rparr>))))"

definition compar :: "store_entry \<Rightarrow> store_entry \<Rightarrow> int" where
  "compar a b =
     (if el_flags (se_data a) = 0 \<and> el_flags (se_data b) \<noteq> 0 then -1
      else if el_flags (se_data a) \<noteq> 0 \<and> el_flags (se_data b) = 0 then 1
      else if el_flags (se_meta a) = 0 \<and> el_flags (se_meta b) \<noteq> 0 then -1
      else if el_flags (se_meta a) \<noteq> 0 \<and> el_flags (se_meta b) = 0 then 1
      else if se_use_count a < se_use_count b then -1
      else if se_use_count a > se_use_count b then 1
      else if se_last_used a < se_last_used b then -1
      else if se_last_used a > se_last_used b then 1
      else 0)"

definition entry_eviction_iterator_cb ::
  "nsurl \<Rightarrow> store_entry \<Rightarrow> store_entry list \<Rightarrow> bool \<times> store_entry list" where
  "entry_eviction_iterator_cb key ent elist = (False, elist @ [ent])"

fun evict_entries ::
  "store_entry list \<Rightarrow> 64 word \<Rightarrow> store_state \<Rightarrow> world \<Rightarrow> nserror \<times> store_state \<times> world" where
  "evict_entries [] removed st w = (NSERROR_OK, st, w)"
| "evict_entries (bse # elist) removed st w =
     (let removed = removed + ucast (el_size (se_data bse)) + ucast (el_size (se_meta bse)) in
      case invalidate_entry st bse w of (ret, st1, w1) \<Rightarrow>
        if ret \<noteq> NSERROR_OK then (ret, st1, w1)
        else if removed > ss_hysteresis st1 then (NSERROR_OK, st1, w1)
        else evict_entries elist removed st1 w1)"

text \<open>
  \<^verbatim>\<open>qsort\<close> is the library's: an argument, of which the proofs assume that it returns a sorted
  permutation (the order of entries that compare equal is not specified).
\<close>

definition store_evict ::
  "((store_entry \<Rightarrow> store_entry \<Rightarrow> int) \<Rightarrow> store_entry list \<Rightarrow> store_entry list) \<Rightarrow> store_state \<Rightarrow> world \<Rightarrow>
     nserror \<times> store_state \<times> world" where
  "store_evict qsort st w =
     (if ss_total_alloc st < ss_limit st then (NSERROR_OK, st, w)
      else (case with_mem malloc w of (ok, w1) \<Rightarrow>
        if \<not> ok then (NSERROR_NOMEM, st, w1)
        else (case hashmap_iterate (ss_entries st) entry_eviction_iterator_cb [] of (stopped, elist) \<Rightarrow>
          if stopped then (NSERROR_UNKNOWN, st, world_free w1)
          else if hashmap_count (ss_entries st) \<noteq> length elist then (NSERROR_UNKNOWN, st, world_free w1)
          else (case evict_entries (qsort compar elist) 0 st w1 of (ret, st2, w2) \<Rightarrow>
                  (ret, st2, world_free w2)))))"

definition find_or_insert :: "store_state \<Rightarrow> nsurl \<Rightarrow> world \<Rightarrow> store_entry option \<times> store_state \<times> world" where
  "find_or_insert st url w =
     (case entry_lookup st url of
        Some se \<Rightarrow> (Some se, st, w)
      | None \<Rightarrow> (case hashmap_insert entries_hashmap_parameters (ss_entries st) url (w_mem w) of
          (r, entries', m) \<Rightarrow> (r, st\<lparr>ss_entries := entries'\<rparr>, w\<lparr>w_mem := m\<rparr>)))"

definition set_element ::
  "elem_idx \<Rightarrow> 8 word list \<Rightarrow> int \<Rightarrow> store_entry \<Rightarrow> store_state \<Rightarrow> store_entry \<times> store_state" where
  "set_element e data now se st =
     (let el = elem e se;
          size = of_nat (length data) :: 32 word;
          st1 = st\<lparr>ss_total_alloc := ss_total_alloc st - ucast (el_size el) + ucast size\<rparr>;
          (block, st2) = (if size \<le> push_bit (log2_block_size e) 1 then alloc_block st1 e else (el_block el, st1));
          el' = \<lparr>el_data = data, el_size = size, el_block = block, el_ref = 1,
                 el_flags = el_flags el OR ENTRY_ELEM_FLAG_HEAP\<rparr> in
      (elem_update e (\<lambda>_. el') (se\<lparr>se_use_count := 1, se_last_used := now\<rparr>), st2))"

definition set_store_entry ::
  "((store_entry \<Rightarrow> store_entry \<Rightarrow> int) \<Rightarrow> store_entry list \<Rightarrow> store_entry list) \<Rightarrow> store_state \<Rightarrow> nsurl \<Rightarrow>
     elem_idx \<Rightarrow> 8 word list \<Rightarrow> world \<Rightarrow> store_entry result \<times> store_state \<times> world" where
  "set_store_entry qsort st url e data w =
     (case store_evict qsort st w of (ret, st1, w1) \<Rightarrow>
        if ret \<noteq> NSERROR_OK then (Inl ret, st1, w1)
        else (case find_or_insert st1 url w1 of
            (None, st2, w2) \<Rightarrow> (Inl NSERROR_NOMEM, st2, w2)
          | (Some se, st2, w2) \<Rightarrow>
              if in_use (elem e se) then (Inl NSERROR_PERMISSION, st2, w2)
              else (case set_element e data (w_now w2) se st2 of (se', st3) \<Rightarrow>
                (Inr se', (write_entry_at url (\<lambda>_. se') st3)\<lparr>ss_entries_dirty := True\<rparr>, w2))))"

section \<open>Reading and writing elements\<close>

definition open_block_file ::
  "store_state \<Rightarrow> nat \<Rightarrow> elem_idx \<Rightarrow> world \<Rightarrow> string option \<times> store_state \<times> world" where
  "open_block_file st bf e w =
     (case bf_fd (ss_blocks st e ! bf) of
        Some fd \<Rightarrow> (Some fd, st, w)
      | None \<Rightarrow> (case store_open st (word_of_nat bf) (elem_number e + ENTRY_ELEM_COUNT) True w of
            (None, w1) \<Rightarrow> (None, st, w1)
          | (Some fd, w1) \<Rightarrow>
              (Some fd, st\<lparr>ss_blocks := (ss_blocks st)(e := (ss_blocks st e)[bf :=
                            (ss_blocks st e ! bf)\<lparr>bf_fd := Some fd\<rparr>]), ss_blocks_opened := True\<rparr>, w1)))"

definition element_bytes :: "store_entry_element \<Rightarrow> 8 word list" where
  "element_bytes el = take (unat (el_size el)) (el_data el)"

definition block_offset :: "elem_idx \<Rightarrow> 16 word \<Rightarrow> nat" where
  "block_offset e block = block_index_of block * 2 ^ log2_block_size e"

definition store_write_block ::
  "store_state \<Rightarrow> store_entry \<Rightarrow> elem_idx \<Rightarrow> world \<Rightarrow> nserror \<times> store_state \<times> world" where
  "store_write_block st bse e w =
     (let el = elem e bse in
      case open_block_file st (block_file_of (el_block el)) e w of
        (None, st1, w1) \<Rightarrow> (NSERROR_SAVE_FAILED, st1, w1)
      | (Some fd, st1, w1) \<Rightarrow>
          (case nsu_pwrite fd (element_bytes el) (block_offset e (el_block el)) w1 of (wr, w2) \<Rightarrow>
             (if wr \<noteq> Some (unat (el_size el)) then NSERROR_SAVE_FAILED else NSERROR_OK, st1, w2)))"

definition store_write_file ::
  "store_state \<Rightarrow> store_entry \<Rightarrow> elem_idx \<Rightarrow> world \<Rightarrow> nserror \<times> world" where
  "store_write_file st bse e w =
     (case store_open st (nsurl_hash (se_url bse)) (elem_number e) True w of
        (None, w1) \<Rightarrow> (NSERROR_SAVE_FAILED, w1)
      | (Some fd, w1) \<Rightarrow>
          (case nsu_pwrite fd (element_bytes (elem e bse)) 0 w1 of (wr, w2) \<Rightarrow>
             (if wr \<noteq> Some (unat (el_size (elem e bse))) then NSERROR_SAVE_FAILED else NSERROR_OK, w2)))"

definition store_read_block ::
  "store_state \<Rightarrow> store_entry \<Rightarrow> elem_idx \<Rightarrow> world \<Rightarrow> 8 word list result \<times> store_state \<times> world" where
  "store_read_block st bse e w =
     (let el = elem e bse in
      case open_block_file st (block_file_of (el_block el)) e w of
        (None, st1, w1) \<Rightarrow> (Inl NSERROR_SAVE_FAILED, st1, w1)
      | (Some fd, st1, w1) \<Rightarrow>
          (case nsu_pread fd (unat (el_size el)) (block_offset e (el_block el)) w1 of
             (Some bytes, w2) \<Rightarrow>
               (if length bytes \<noteq> unat (el_size el) then Inl NSERROR_SAVE_FAILED else Inr bytes, st1, w2)
           | (None, w2) \<Rightarrow> (Inl NSERROR_SAVE_FAILED, st1, w2)))"

text \<open>The loop of \<^verbatim>\<open>read\<close> calls; \<open>acc\<close> is what was read so far, at the start of the buffer.\<close>

function read_loop :: "string \<Rightarrow> nat \<Rightarrow> 8 word list \<Rightarrow> world \<Rightarrow> 8 word list result \<times> world" where
  "read_loop fd len acc w =
     (if length acc < len then
        (case nsu_pread fd (len - length acc) (length acc) w of
           (Some bytes, w1) \<Rightarrow> if bytes = [] then (Inl NSERROR_NOT_FOUND, w1) else read_loop fd len (acc @ bytes) w1
         | (None, w1) \<Rightarrow> (Inl NSERROR_NOT_FOUND, w1))
      else (Inr acc, w))"
  by pat_completeness auto
termination
  by (relation "measure (\<lambda>(fd, len, acc, w). len - length acc)") (auto simp: diff_less_mono2 neq_Nil_conv)

declare read_loop.simps [simp del]

definition store_read_file ::
  "store_state \<Rightarrow> store_entry \<Rightarrow> elem_idx \<Rightarrow> world \<Rightarrow> 8 word list result \<times> world" where
  "store_read_file st bse e w =
     (case store_open st (nsurl_hash (se_url bse)) (elem_number e) False w of
        (None, w1) \<Rightarrow> (Inl NSERROR_NOT_FOUND, w1)
      | (Some fd, w1) \<Rightarrow> read_loop fd (unat (el_size (elem e bse))) [] w1)"

section \<open>The operations of the backing store\<close>

definition BACKING_STORE_META :: "8 word" where
  "BACKING_STORE_META = 1"

definition element_index :: "8 word \<Rightarrow> elem_idx" where
  "element_index bsflags =
     (if bsflags AND BACKING_STORE_META \<noteq> 0 then ENTRY_ELEM_META else ENTRY_ELEM_DATA)"

definition store ::
  "((store_entry \<Rightarrow> store_entry \<Rightarrow> int) \<Rightarrow> store_entry list \<Rightarrow> store_entry list) \<Rightarrow> store_state \<Rightarrow> nsurl \<Rightarrow>
     8 word \<Rightarrow> 8 word list \<Rightarrow> world \<Rightarrow> nserror \<times> store_state \<times> world" where
  "store qsort st url bsflags data w =
     (let e = element_index bsflags in
      case set_store_entry qsort st url e data w of
        (Inl ret, st1, w1) \<Rightarrow> (ret, st1, w1)
      | (Inr bse, st1, w1) \<Rightarrow>
          if el_block (elem e bse) \<noteq> 0 then store_write_block st1 bse e w1
          else (case store_write_file st1 bse e w1 of (ret, w2) \<Rightarrow> (ret, st1, w2)))"

definition entry_release_alloc :: "store_entry_element \<Rightarrow> mem \<Rightarrow> store_entry_element \<times> mem" where
  "entry_release_alloc el m =
     (if el_flags el AND ENTRY_ELEM_FLAG_HEAP \<noteq> 0 then
        (let el1 = el\<lparr>el_ref := el_ref el - 1\<rparr> in
         if el_ref el1 = 0 then (el1\<lparr>el_flags := el_flags el1 AND NOT ENTRY_ELEM_FLAG_HEAP\<rparr>, free_block m)
         else (el1, m))
      else (el, m))"

definition release_element :: "nsurl \<Rightarrow> elem_idx \<Rightarrow> store_entry \<Rightarrow> store_state \<Rightarrow> world \<Rightarrow> store_entry \<times> store_state \<times> world" where
  "release_element url e bse st w =
     (case entry_release_alloc (elem e bse) (w_mem w) of (el, m) \<Rightarrow>
        let bse' = elem_update e (\<lambda>_. el) bse in
        (bse', write_entry_at url (\<lambda>_. bse') st, w\<lparr>w_mem := m\<rparr>))"

definition fetch ::
  "store_state \<Rightarrow> nsurl \<Rightarrow> 8 word \<Rightarrow> world \<Rightarrow> 8 word list result \<times> store_state \<times> world" where
  "fetch st url bsflags w =
     (case get_store_entry st url (w_now w) of
        (Inl ret, st1) \<Rightarrow> (Inl ret, st1\<lparr>ss_miss_count := ss_miss_count st1 + 1\<rparr>, w)
      | (Inr bse, st1) \<Rightarrow>
          (let st2 = st1\<lparr>ss_hit_count := ss_hit_count st1 + 1\<rparr>;
               e = element_index bsflags;
               el = elem e bse;
               served = (\<lambda>st. st\<lparr>ss_hit_size := ss_hit_size st + ucast (el_size el)\<rparr>) in
           if el_flags el AND ENTRY_ELEM_FLAG_HEAP \<noteq> 0 then
             (Inr (element_bytes el),
              served (write_entry_at url (elem_update e (\<lambda>el. el\<lparr>el_ref := el_ref el + 1\<rparr>)) st2), w)
           else (case with_mem malloc w of (ok, w1) \<Rightarrow>
             if \<not> ok then (Inl NSERROR_NOMEM, st2, w1)
             else (let bse' = elem_update e (\<lambda>el. el\<lparr>el_flags := el_flags el OR ENTRY_ELEM_FLAG_HEAP, el_ref := 1\<rparr>) bse;
                       st3 = write_entry_at url (\<lambda>_. bse') st2;
                       (r, st4, w2) = (if el_block el \<noteq> 0 then store_read_block st3 bse' e w1
                          else (case store_read_file st3 bse' e w1 of (r, w2) \<Rightarrow> (r, st3, w2))) in
                   case r of
                     Inl ret \<Rightarrow> (case release_element url e bse' st4 w2 of (bse'', st5, w3) \<Rightarrow> (Inl ret, st5, w3))
                   | Inr bytes \<Rightarrow>
                       (Inr bytes, served (write_entry_at url (elem_update e (\<lambda>el. el\<lparr>el_data := bytes\<rparr>)) st4), w2)))))"

definition release :: "store_state \<Rightarrow> nsurl \<Rightarrow> 8 word \<Rightarrow> world \<Rightarrow> nserror \<times> store_state \<times> world" where
  "release st url bsflags w =
     (case get_store_entry st url (w_now w) of
        (Inl ret, st1) \<Rightarrow> (ret, st1, w)
      | (Inr bse, st1) \<Rightarrow>
          (case release_element url (element_index bsflags) bse st1 w of (bse', st2, w2) \<Rightarrow>
             if se_flags bse' AND ENTRY_FLAGS_INVALID \<noteq> 0 then invalidate_entry st2 bse' w2
             else (NSERROR_OK, st2, w2)))"

definition invalidate :: "store_state \<Rightarrow> nsurl \<Rightarrow> world \<Rightarrow> nserror \<times> store_state \<times> world" where
  "invalidate st url w =
     (case get_store_entry st url (w_now w) of
        (Inl ret, st1) \<Rightarrow> (ret, st1, w)
      | (Inr bse, st1) \<Rightarrow> invalidate_entry st1 bse w)"

text \<open>An empty store, with the given block files, for the witnesses.\<close>

definition example_store :: "block_file list \<Rightarrow> store_state" where
  "example_store fs =
     \<lparr>ss_path = ''cache'', ss_limit = 2 ^ 20, ss_hysteresis = 2 ^ 16,
      ss_entries = \<lparr>hm_buckets = replicate (unat DEFAULT_HASHMAP_BUCKETS) [], hm_bucket_count = DEFAULT_HASHMAP_BUCKETS,
                    hm_entry_count = 0\<rparr>,
      ss_entries_dirty = False, ss_blocks = (\<lambda>_. fs), ss_blocks_dirty = False, ss_blocks_opened = False,
      ss_total_alloc = 0, ss_hit_count = 0, ss_hit_size = 0, ss_miss_count = 0\<rparr>"

end
