(* ===== verification/Fs_Blocks.thy ===== *)
theory Fs_Blocks
  imports Fs_Store
begin

unbundle bit_operations_syntax

text \<open>
  The block allocator of the disc cache: use maps as sets of block numbers, and what
  allocating and freeing a block does to them.
\<close>

definition BLOCKS :: nat where
  "BLOCKS = BLOCK_FILE_COUNT * 2 ^ BLOCK_ENTRY_COUNT"

lemmas block_constants = BLOCK_FILE_COUNT_def BLOCK_ENTRY_COUNT_def BLOCK_ADDR_LEN_def
  BLOCK_USE_MAP_SIZE_def

lemma BLOCKS_eq: "BLOCKS = 6144"
  by (simp add: BLOCKS_def block_constants)

definition blocks_wf :: "block_file list \<Rightarrow> bool" where
  "blocks_wf fs \<longleftrightarrow> length fs = BLOCK_FILE_COUNT \<and> (\<forall>f \<in> set fs. length (bf_use_map f) = BLOCK_USE_MAP_SIZE)"

lemma blocks_wf_iff: "blocks_wf fs \<longleftrightarrow> length fs = 6 \<and> (\<forall>f \<in> set fs. length (bf_use_map f) = 128)"
  by (simp add: blocks_wf_def block_constants)

text \<open>Whether block \<open>n\<close> is taken.\<close>

definition used :: "block_file list \<Rightarrow> nat \<Rightarrow> bool" where
  "used fs n \<longleftrightarrow> bit (bf_use_map (fs ! (n div 1024)) ! (n mod 1024 div 8)) (n mod 8)"

lemma and_low_bits: "(n :: nat) AND (2 ^ k - 1) = n mod 2 ^ k"
  using take_bit_eq_mask [of k n] by (simp add: mask_eq_exp_minus_1 take_bit_eq_mod)

lemma block_file_of_eq: "block_file_of block = unat block div 1024"
proof -
  have "unat block < 65536"
    using unsigned_less [of block] by simp
  then have "unat block div 1024 < 64"
    by simp
  then show ?thesis
    using and_low_bits [of "unat block div 1024" 6]
    by (simp add: block_file_of_def block_constants unsigned_and_eq drop_bit_eq_div unat_div)
qed

lemma block_index_of_eq: "block_index_of block = unat block mod 1024"
  using and_low_bits [of "unat block" 10]
  by (simp add: block_index_of_def block_constants unsigned_and_eq)

lemma bit_test: "byte AND push_bit b 1 \<noteq> 0 \<longleftrightarrow> bit (byte :: 8 word) b"
  by (simp only: bit_iff_and_push_bit_not_eq_0)

lemma block_in_use_iff: "block_in_use fs block \<longleftrightarrow> used fs (unat block)"
proof -
  have "unat block mod 1024 mod 8 = unat block mod 8"
    by (rule mod_mod_cancel) simp
  then show ?thesis
    by (simp only: block_in_use_def used_def block_file_of_eq block_index_of_eq bit_test)
qed

section \<open>Finding a free block\<close>

lemma first_clear_bit_Some: "first_clear_bit byte bits = Some b \<Longrightarrow> b \<in> set bits \<and> \<not> bit byte b"
  by (induction bits) (auto simp: bit_iff_and_push_bit_not_eq_0 split: if_splits)

lemma first_clear_bit_None: "first_clear_bit byte bits = None \<Longrightarrow> b \<in> set bits \<Longrightarrow> bit byte b"
  by (induction bits) (auto simp: bit_iff_and_push_bit_not_eq_0 split: if_splits)

lemma full_byte: "b < 8 \<Longrightarrow> bit (0xff :: 8 word) b"
proof -
  have "(0xff :: 8 word) = mask 8"
    by (simp add: mask_eq_exp_minus_1)
  then show "b < 8 \<Longrightarrow> bit (0xff :: 8 word) b"
    by (simp only: bit_mask_iff) simp
qed

lemma first_clear_in_map_Some:
  "first_clear_in_map bytes i = Some (idx, b) \<Longrightarrow>
     i \<le> idx \<and> idx < i + length bytes \<and> b < 8 \<and> \<not> bit (bytes ! (idx - i)) b"
proof (induction bytes arbitrary: i)
  case (Cons byte bytes)
  show ?case
  proof (cases "if byte \<noteq> 0xff then first_clear_bit byte [0..<8] else None")
    case None
    then show ?thesis
      using Cons.IH [of "i + 1"] Cons.prems by (auto simp: nth_Cons')
  next
    case (Some b')
    then show ?thesis
      using Cons.prems first_clear_bit_Some [of byte "[0..<8]" b'] by (auto split: if_splits)
  qed
qed simp

lemma first_clear_in_map_None:
  "first_clear_in_map bytes i = None \<Longrightarrow> k < length bytes \<Longrightarrow> b < 8 \<Longrightarrow> bit (bytes ! k) b"
proof (induction bytes arbitrary: i k)
  case (Cons byte bytes)
  then have n: "(if byte \<noteq> 0xff then first_clear_bit byte [0..<8] else None) = None"
    by (auto split: option.splits if_splits)
  show ?case
  proof (cases k)
    case 0
    then show ?thesis
      using n Cons.prems(3) full_byte first_clear_bit_None [of byte "[0..<8]" b] by (auto split: if_splits)
  next
    case (Suc j)
    then show ?thesis
      using n Cons.IH [of "i + 1" j] Cons.prems by simp
  qed
qed simp

lemma first_clear_block_Some:
  "first_clear_block fs i = Some (bf, idx, b) \<Longrightarrow>
     i \<le> bf \<and> bf < i + length fs \<and> first_clear_in_map (bf_use_map (fs ! (bf - i))) 0 = Some (idx, b)"
proof (induction fs arbitrary: i)
  case (Cons f fs)
  show ?case
  proof (cases "first_clear_in_map (bf_use_map f) 0")
    case None
    then show ?thesis
      using Cons.IH [of "i + 1"] Cons.prems by (auto simp: nth_Cons')
  next
    case (Some p)
    then show ?thesis
      using Cons.prems by (auto split: prod.splits)
  qed
qed simp

lemma first_clear_block_None:
  "first_clear_block fs i = None \<Longrightarrow> f \<in> set fs \<Longrightarrow> first_clear_in_map (bf_use_map f) 0 = None"
  by (induction fs arbitrary: i) (auto split: option.splits prod.splits)

section \<open>What changes in a use map\<close>

lemma byte_position:
  fixes m n :: nat
  shows "m div 1024 = n div 1024 \<and> m mod 1024 div 8 = n mod 1024 div 8 \<longleftrightarrow> m div 8 = n div 8"
proof -
  have a: "k div 1024 = k div 8 div 128" "k mod 1024 div 8 = k div 8 mod 128" for k :: nat
    by (simp_all add: div_mult2_eq [of k 8 128, simplified] mod_mult2_eq [of k 8 128, simplified])
  show ?thesis
    unfolding a by (metis div_mult_mod_eq)
qed

lemma wf_index:
  assumes "blocks_wf fs" and "n < BLOCKS"
  shows "n div 1024 < length fs" and "n mod 1024 div 8 < length (bf_use_map (fs ! (n div 1024)))"
proof -
  have "n div 1024 < 6"
    using assms(2) by (simp add: BLOCKS_eq less_mult_imp_div_less)
  then show "n div 1024 < length fs"
    using assms(1) by (simp add: blocks_wf_iff)
  with assms(1) show "n mod 1024 div 8 < length (bf_use_map (fs ! (n div 1024)))"
    by (simp add: blocks_wf_iff less_mult_imp_div_less)
qed

definition set_byte :: "block_file list \<Rightarrow> nat \<Rightarrow> 8 word \<Rightarrow> block_file list" where
  "set_byte fs n x =
     (let f = fs ! (n div 1024) in
      fs[n div 1024 := f\<lparr>bf_use_map := (bf_use_map f)[n mod 1024 div 8 := x]\<rparr>])"

lemma used_set_byte:
  assumes "blocks_wf fs" and "n < BLOCKS"
  shows "used (set_byte fs n x) m \<longleftrightarrow> (if m div 8 = n div 8 then bit x (m mod 8) else used fs m)"
proof (cases "m div 1024 = n div 1024")
  case True
  then have "m div 8 = n div 8 \<longleftrightarrow> m mod 1024 div 8 = n mod 1024 div 8"
    using byte_position [of m n] by simp
  then show ?thesis
    using wf_index [OF assms] True by (simp add: used_def set_byte_def Let_def nth_list_update)
next
  case False
  then have "m div 8 \<noteq> n div 8"
    using byte_position [of m n] by blast
  then show ?thesis
    using wf_index [OF assms] False by (simp add: used_def set_byte_def Let_def nth_list_update)
qed

lemma set_byte_wf: "blocks_wf fs \<Longrightarrow> blocks_wf (set_byte fs n x)"
  by (cases "n div 1024 < length fs")
    (auto simp: blocks_wf_iff set_byte_def Let_def nth_list_update all_set_conv_all_nth)

lemma set_byte_fd: "bf_fd (set_byte fs n x ! i) = bf_fd (fs ! i)"
  by (cases "n div 1024 < length fs")
    (auto simp: set_byte_def Let_def nth_list_update list_update_beyond)

definition byte_of :: "block_file list \<Rightarrow> nat \<Rightarrow> 8 word" where
  "byte_of fs n = bf_use_map (fs ! (n div 1024)) ! (n mod 1024 div 8)"

lemma used_byte_of: "m div 8 = n div 8 \<Longrightarrow> used fs m \<longleftrightarrow> bit (byte_of fs n) (m mod 8)"
  using byte_position [of m n] by (simp add: used_def byte_of_def)

lemma same_number: "(m :: nat) div 8 = n div 8 \<Longrightarrow> m mod 8 = n mod 8 \<longleftrightarrow> m = n"
  by (metis div_mult_mod_eq)

lemma take_block:
  assumes "blocks_wf fs" and "n < BLOCKS"
  shows "used (set_byte fs n (byte_of fs n OR push_bit (n mod 8) 1)) m \<longleftrightarrow> used fs m \<or> m = n"
proof (cases "m div 8 = n div 8")
  case True
  then show ?thesis
    using used_byte_of [OF True, of fs] same_number [OF True]
    by (auto simp: used_set_byte [OF assms] bit_or_iff bit_exp_iff)
next
  case False
  then show ?thesis
    by (auto simp: used_set_byte [OF assms])
qed

lemma free_block_bit:
  assumes "blocks_wf fs" and "n < BLOCKS"
  shows "used (set_byte fs n (byte_of fs n AND NOT (push_bit (n mod 8) 1))) m \<longleftrightarrow> used fs m \<and> m \<noteq> n"
proof (cases "m div 8 = n div 8")
  case True
  then show ?thesis
    using used_byte_of [OF True, of fs] same_number [OF True]
    by (auto simp: used_set_byte [OF assms] bit_and_iff bit_not_iff bit_exp_iff)
next
  case False
  then show ?thesis
    by (auto simp: used_set_byte [OF assms])
qed

section \<open>Allocating and freeing\<close>

lemma block_number:
  fixes bf idx b :: nat
  assumes "idx < 128" and "b < 8"
  shows "((bf * 128 + idx) * 8 + b) div 1024 = bf" and "((bf * 128 + idx) * 8 + b) mod 1024 div 8 = idx"
    and "((bf * 128 + idx) * 8 + b) mod 8 = b"
proof -
  have n: "(bf * 128 + idx) * 8 + b = 1024 * bf + (8 * idx + b)"
    by simp
  have "8 * idx + b < 1024"
    using assms by simp
  then show "((bf * 128 + idx) * 8 + b) div 1024 = bf" and "((bf * 128 + idx) * 8 + b) mod 1024 div 8 = idx"
    using assms(2) unfolding n by simp_all
  have "(8 * (bf * 128 + idx) + b) mod 8 = b"
    using assms(2) by (simp only: mod_mult_self4 mod_less)
  then show "((bf * 128 + idx) * 8 + b) mod 8 = b"
    by (simp only: mult.commute)
qed

lemma alloc_block_cases:
  assumes wf: "blocks_wf (ss_blocks st e)" and a: "alloc_block st e = (block, st')"
  obtains (full) "\<forall>n < BLOCKS. used (ss_blocks st e) n" and "block = 0" and "st' = st"
  | (found) n where "n < BLOCKS" and "\<not> used (ss_blocks st e) n" and "unat block = n"
      and "st' = st\<lparr>ss_blocks := (ss_blocks st)(e := set_byte (ss_blocks st e) n
             (byte_of (ss_blocks st e) n OR push_bit (n mod 8) 1)), ss_blocks_dirty := True\<rparr>"
proof (cases "first_clear_block (ss_blocks st e) 0")
  case None
  have "used (ss_blocks st e) n" if n: "n < BLOCKS" for n
  proof -
    have "ss_blocks st e ! (n div 1024) \<in> set (ss_blocks st e)"
      using wf_index(1) [OF wf n] by simp
    from first_clear_block_None [OF None this] show ?thesis
      using wf_index(2) [OF wf n] unfolding used_def by (intro first_clear_in_map_None [where i = 0]) simp_all
  qed
  then show ?thesis
    using a None by (intro full) (simp_all add: alloc_block_def)
next
  case (Some p)
  then obtain bf idx b where p: "first_clear_block (ss_blocks st e) 0 = Some (bf, idx, b)"
    by (cases p) auto
  have bf: "bf < length (ss_blocks st e)" and m: "first_clear_in_map (bf_use_map (ss_blocks st e ! bf)) 0 = Some (idx, b)"
    using first_clear_block_Some [OF p] by simp_all
  have len: "length (bf_use_map (ss_blocks st e ! bf)) = 128" "bf < 6"
    using wf bf by (auto simp: blocks_wf_iff)
  have idx: "idx < 128" "b < 8" "\<not> bit (bf_use_map (ss_blocks st e ! bf) ! idx) b"
    using first_clear_in_map_Some [OF m] len by simp_all
  let ?n = "(bf * 128 + idx) * 8 + b"
  have lt: "?n < BLOCKS"
    using idx len by (simp add: BLOCKS_eq)
  show ?thesis
  proof (rule found [of ?n])
    have "block = word_of_nat ?n"
      using a p by (simp add: alloc_block_def Let_def block_constants del: of_nat_add of_nat_mult)
    moreover have "unat (word_of_nat ?n :: 16 word) = ?n"
      using lt unfolding BLOCKS_eq unat_of_nat by simp
    ultimately show "unat block = ?n"
      by simp
    show "\<not> used (ss_blocks st e) ?n"
      using idx(3) by (simp only: used_def block_number [OF idx(1,2)] not_False_eq_True)
    show "st' = st\<lparr>ss_blocks := (ss_blocks st)(e := set_byte (ss_blocks st e) ?n
             (byte_of (ss_blocks st e) ?n OR push_bit (?n mod 8) 1)), ss_blocks_dirty := True\<rparr>"
      using a p unfolding set_byte_def byte_of_def block_number [OF idx(1,2)]
      by (simp add: alloc_block_def Let_def)
  qed (rule lt)
qed

lemma free_use_bit_eq:
  "free_use_bit e block st = (let fs = ss_blocks st e; n = unat block in
     st\<lparr>ss_blocks := (ss_blocks st)(e := set_byte fs n (byte_of fs n AND NOT (push_bit (n mod 8) 1)))\<rparr>)"
proof -
  have "unat block mod 1024 mod 8 = unat block mod 8"
    by (rule mod_mod_cancel) simp
  then show ?thesis
    by (simp only: free_use_bit_def Let_def set_byte_def byte_of_def block_file_of_eq block_index_of_eq)
qed

section \<open>Properties\<close>

text \<open>
  C28. Allocating a block of the disc cache takes one that was free and marks that one and no other;
  it answers 0 and changes nothing when all blocks are taken. Freeing the block gives back
  the set of taken blocks of before.
\<close>

theorem alloc_block_correct:
  assumes "blocks_wf (ss_blocks st e)" and "alloc_block st e = (block, st')"
  shows "((\<forall>n < BLOCKS. used (ss_blocks st e) n) \<and> block = 0 \<and> st' = st) \<or>
    (unat block < BLOCKS \<and> \<not> block_in_use (ss_blocks st e) block \<and> blocks_wf (ss_blocks st' e) \<and>
     (\<forall>n. used (ss_blocks st' e) n \<longleftrightarrow> used (ss_blocks st e) n \<or> n = unat block) \<and>
     (\<forall>n. used (ss_blocks (free_use_bit e block st') e) n \<longleftrightarrow> used (ss_blocks st e) n))"
  using assms
proof (cases rule: alloc_block_cases)
  case (found n)
  have wf: "blocks_wf (ss_blocks st' e)"
    using assms(1) by (simp add: found(4) set_byte_wf)
  have taken: "used (ss_blocks st' e) m \<longleftrightarrow> used (ss_blocks st e) m \<or> m = n" for m
    by (simp add: found(4) take_block [OF assms(1) found(1)] del: push_bit_of_1)
  have "used (ss_blocks (free_use_bit e block st') e) m \<longleftrightarrow> used (ss_blocks st' e) m \<and> m \<noteq> n" for m
    by (simp add: free_use_bit_eq Let_def found(3) free_block_bit [OF wf found(1)] del: push_bit_of_1)
  then show ?thesis
    using found wf taken by (auto simp: block_in_use_iff)
qed simp

definition example_blocks :: "block_file list" where
  "example_blocks = replicate 6 \<lparr>bf_fd = None, bf_use_map = 0x17 # replicate 127 0\<rparr>"

lemma example_blocks_wf: "blocks_wf example_blocks"
  by (simp add: example_blocks_def blocks_wf_iff)

theorem alloc_block_correct_witness:
  "\<exists>st'. alloc_block (example_store example_blocks) ENTRY_ELEM_DATA = (3, st') \<and>
     (\<forall>n. used (ss_blocks st' ENTRY_ELEM_DATA) n \<longleftrightarrow> used example_blocks n \<or> n = 3)"
proof -
  let ?st = "example_store example_blocks"
  have "fst (alloc_block ?st ENTRY_ELEM_DATA) = 3"
    by code_simp
  then obtain st' where a: "alloc_block ?st ENTRY_ELEM_DATA = (3, st')"
    by (metis prod.collapse)
  have "blocks_wf (ss_blocks ?st ENTRY_ELEM_DATA)"
    by (simp add: example_store_def example_blocks_wf)
  from alloc_block_correct [OF this a] a show ?thesis
    by (simp add: example_store_def)
qed

end
