(* ===== verification/Fs_Names.thy ===== *)
theory Fs_Names
  imports Fs_Store
begin

unbundle bit_operations_syntax

text \<open>
  The file names of the disc cache: different elements, different identifiers and different
  block files have different names.
\<close>

definition name_parts :: "32 word \<Rightarrow> nat \<Rightarrow> string list" where
  "name_parts ident k =
     (let dirs = base_dir_table ! k # map (ident_dir ident) [0, 6, 12, 18, 24] in
      if k < ENTRY_ELEM_COUNT then dirs @ [map (ident_char ident) [0, 5, 10, 15, 20, 25, 30]] else take 2 dirs)"

definition fname_text :: "string \<Rightarrow> 32 word \<Rightarrow> nat \<Rightarrow> string" where
  "fname_text path ident k = butlast (foldl (join_element (CHR ''/'')) [] (path # name_parts ident k))"

lemma store_fname_eq:
  "store_fname st ident k m =
     (case malloc m of (ok, m1) \<Rightarrow> (if ok then Some (fname_text (ss_path st) ident k) else None, m1))"
  by (auto simp: store_fname_def vsnstrjoin_def fname_text_def name_parts_def Let_def ENTRY_ELEM_COUNT_def
      split: prod.split)

section \<open>Joining\<close>

abbreviation plain_part :: "string \<Rightarrow> bool" where
  "plain_part c \<equiv> c \<noteq> [] \<and> CHR ''/'' \<notin> set c"

lemma join_parts:
  assumes "\<forall>c \<in> set cs. plain_part c" and "acc \<noteq> []" and "last acc = CHR ''/''"
  shows "foldl (join_element (CHR ''/'')) acc cs = acc @ concat (map (\<lambda>c. c @ ''/'') cs)"
  using assms
proof (induction cs arbitrary: acc)
  case (Cons c cs)
  then have "last c \<noteq> CHR ''/''"
    using last_in_set [of c] by (metis list.set_intros(1))
  then have "join_element (CHR ''/'') acc c = acc @ c @ ''/''"
    using Cons.prems by (simp add: join_element_def Let_def)
  then show ?case
    using Cons.IH [of "acc @ c @ ''/''"] Cons.prems by simp
qed simp

lemma split_parts:
  assumes "\<forall>c \<in> set cs. plain_part c" and "\<forall>d \<in> set ds. plain_part d"
    and "concat (map (\<lambda>c. c @ ''/'') cs) = concat (map (\<lambda>c. c @ ''/'') ds)"
  shows "cs = ds"
  using assms
proof (induction cs arbitrary: ds)
  case Nil
  then show ?case by (cases ds) auto
next
  case (Cons c cs)
  then obtain d ds' where ds: "ds = d # ds'"
    by (cases ds) auto
  let ?rest = "\<lambda>cs. concat (map (\<lambda>c. c @ ''/'') cs)"
  have eq: "c @ CHR ''/'' # ?rest cs = d @ CHR ''/'' # ?rest ds'"
    using Cons.prems(3) by (simp add: ds)
  have "takeWhile (\<lambda>x. x \<noteq> CHR ''/'') (c @ CHR ''/'' # ?rest cs) = c"
    "takeWhile (\<lambda>x. x \<noteq> CHR ''/'') (d @ CHR ''/'' # ?rest ds') = d"
    using Cons.prems(1,2) by (auto simp: ds intro!: takeWhile_append_stop)
  then have "c = d"
    using eq by simp
  then show ?case
    using Cons.IH [of ds'] Cons.prems eq by (simp add: ds)
qed

section \<open>The parts of a name\<close>

lemma encoding_table_plain: "i < 64 \<Longrightarrow> plain_part (encoding_table ! i)"
proof -
  have "length encoding_table = 64 \<and> list_all (\<lambda>c. plain_part c) encoding_table"
    by code_simp
  then show "i < 64 \<Longrightarrow> plain_part (encoding_table ! i)"
    by (simp add: list_all_length)
qed

lemma encoding_table_chars: "i < 32 \<Longrightarrow> j < 32 \<Longrightarrow> hd (encoding_table ! i) = hd (encoding_table ! j) \<Longrightarrow> i = j"
proof -
  have "distinct (map hd (take 32 encoding_table)) \<and> length (map hd (take 32 encoding_table)) = 32"
    by code_simp
  then show "i < 32 \<Longrightarrow> j < 32 \<Longrightarrow> hd (encoding_table ! i) = hd (encoding_table ! j) \<Longrightarrow> i = j"
    using nth_eq_iff_index_eq [of "map hd (take 32 encoding_table)" i j] by simp
qed

lemma low_bits_less: "unat (w AND 0x3f :: 32 word) < 64" "unat (w AND 0x1f :: 32 word) < 32"
proof -
  have "w AND 0x3f = take_bit 6 w" "w AND 0x1f = take_bit 5 w"
    by (simp_all add: take_bit_eq_mask mask_eq_exp_minus_1)
  then show "unat (w AND 0x3f) < 64" "unat (w AND 0x1f) < 32"
    using take_bit_nat_less_exp [of 6 "unat w"] take_bit_nat_less_exp [of 5 "unat w"]
    by (simp_all add: unsigned_take_bit_eq)
qed

lemma ident_dir_plain: "plain_part (ident_dir ident k)"
  using encoding_table_plain [OF low_bits_less(1)] by (simp add: ident_dir_def)

lemma ident_char_plain: "ident_char ident k \<noteq> CHR ''/''"
proof -
  have "plain_part (encoding_table ! unat (drop_bit k ident AND 0x1f))"
    using low_bits_less(2) [of "drop_bit k ident"] by (intro encoding_table_plain) simp
  then show ?thesis
    by (metis ident_char_def hd_in_set)
qed

lemma ident_char_bits:
  assumes "ident_char i k = ident_char j k" and "n < 5" and "k + n < 32"
  shows "bit i (k + n) \<longleftrightarrow> bit j (k + n)"
proof -
  have "drop_bit k i AND 0x1f = drop_bit k j AND 0x1f"
    using assms(1) encoding_table_chars [OF low_bits_less(2) low_bits_less(2)]
    unfolding ident_char_def by (metis word_unat_eq_iff)
  then have "take_bit 5 (drop_bit k i) = take_bit 5 (drop_bit k j)"
    by (simp add: take_bit_eq_mask mask_eq_exp_minus_1)
  then have "bit (take_bit 5 (drop_bit k i)) n = bit (take_bit 5 (drop_bit k j)) n"
    by simp
  then show ?thesis
    using assms(2) by (simp add: bit_take_bit_iff bit_drop_bit_eq add.commute)
qed

lemma ident_chars_inj:
  assumes "map (ident_char i) [0, 5, 10, 15, 20, 25, 30] = map (ident_char j) [0, 5, 10, 15, 20, 25, 30]"
  shows "i = j"
proof (rule bit_word_eqI)
  fix n
  assume "n < LENGTH(32)"
  then have n: "n < 32" by simp
  let ?k = "5 * (n div 5)"
  have "n div 5 < 7"
    using n by simp
  then have "n div 5 \<in> set [0, 1, 2, 3, 4, 5, 6]"
    by auto
  then have "?k \<in> set [0, 5, 10, 15, 20, 25, 30]"
    by auto
  then have "ident_char i ?k = ident_char j ?k"
    using assms by auto
  then show "bit i n = bit j n"
    using ident_char_bits [of i ?k j "n mod 5"] n by simp
qed

lemma base_dir_plain: "k < 4 \<Longrightarrow> plain_part (base_dir_table ! k)"
  by (auto simp: base_dir_table_def less_Suc_eq numeral_eq_Suc)

lemma base_dir_inj: "k < 4 \<Longrightarrow> l < 4 \<Longrightarrow> base_dir_table ! k = base_dir_table ! l \<Longrightarrow> k = l"
  by (auto simp: base_dir_table_def less_Suc_eq numeral_eq_Suc)

lemma name_parts_plain: "k < 4 \<Longrightarrow> \<forall>c \<in> set (name_parts ident k). plain_part c"
  using base_dir_plain [of k] ident_dir_plain [of ident] ident_char_plain [of ident, THEN not_sym]
  by (simp add: name_parts_def Let_def)

lemma name_parts_inj:
  assumes "k < 4" and "l < 4" and "name_parts i k = name_parts j l"
  shows "k = l" and "k < 2 \<Longrightarrow> i = j" and "ident_dir i 0 = ident_dir j 0"
proof -
  have "hd (name_parts i k) = base_dir_table ! k" "hd (name_parts j l) = base_dir_table ! l"
    by (simp_all add: name_parts_def Let_def)
  with assms show kl: "k = l"
    using base_dir_inj by metis
  show "i = j" if "k < 2"
    using assms(3) that by (intro ident_chars_inj) (simp add: name_parts_def Let_def kl ENTRY_ELEM_COUNT_def)
  have "name_parts i k ! 1 = ident_dir i 0" "name_parts j l ! 1 = ident_dir j 0"
    by (simp_all add: name_parts_def Let_def)
  then show "ident_dir i 0 = ident_dir j 0"
    using assms(3) by simp
qed

lemma fname_text_eq:
  assumes "path \<noteq> []" and "k < 4"
  shows "fname_text path i k =
    butlast (join_element (CHR ''/'') [] path @ concat (map (\<lambda>c. c @ ''/'') (name_parts i k)))"
proof -
  have "join_element (CHR ''/'') [] path \<noteq> []" "last (join_element (CHR ''/'') [] path) = CHR ''/''"
    using assms(1) by (simp_all add: join_element_def Let_def)
  from join_parts [OF name_parts_plain [OF assms(2)] this] show ?thesis
    by (simp add: fname_text_def)
qed

lemma fname_text_parts:
  assumes "path \<noteq> []" and "k < 4" and "l < 4" and "fname_text path i k = fname_text path j l"
  shows "name_parts i k = name_parts j l"
proof -
  let ?text = "\<lambda>i k. concat (map (\<lambda>c. c @ ''/'') (name_parts i k))" and ?p = "join_element (CHR ''/'') [] path"
  have last: "?text i k \<noteq> [] \<and> last (?text i k) = CHR ''/''" if "k < 4" for i k
  proof -
    obtain cs c where "name_parts i k = cs @ [c]"
      by (cases "name_parts i k" rule: rev_cases) (auto simp: name_parts_def Let_def split: if_splits)
    then show ?thesis by simp
  qed
  have "butlast (?p @ ?text i k) = butlast (?p @ ?text j l)"
    using assms(4) by (simp only: fname_text_eq [OF assms(1,2)] fname_text_eq [OF assms(1,3)])
  moreover have "x = butlast x @ ''/''" if "x = ?p @ ?text i k" "k < 4" for x i k
    using last [OF that(2), of i] append_butlast_last_id [of x] by (simp add: that(1))
  ultimately have "?p @ ?text i k = ?p @ ?text j l"
    using assms(2,3) by metis
  then have "?text i k = ?text j l"
    by simp
  then show ?thesis
    using name_parts_plain assms(2,3) by (intro split_parts) simp_all
qed

lemma small_ident_dir: "n < 64 \<Longrightarrow> ident_dir (word_of_nat n) 0 = encoding_table ! n"
proof -
  assume n: "n < 64"
  have "word_of_nat n AND (0x3f :: 32 word) = take_bit 6 (word_of_nat n)"
    by (simp add: take_bit_eq_mask mask_eq_exp_minus_1)
  moreover have "unat (take_bit 6 (word_of_nat n) :: 32 word) = n"
    using n by (simp add: unsigned_take_bit_eq unat_of_nat) (simp add: take_bit_eq_mod)
  ultimately show ?thesis
    by (simp add: ident_dir_def)
qed

lemma encoding_table_inj: "i < 64 \<Longrightarrow> j < 64 \<Longrightarrow> encoding_table ! i = encoding_table ! j \<Longrightarrow> i = j"
proof -
  have "distinct encoding_table \<and> length encoding_table = 64"
    by code_simp
  then show "i < 64 \<Longrightarrow> j < 64 \<Longrightarrow> encoding_table ! i = encoding_table ! j \<Longrightarrow> i = j"
    using nth_eq_iff_index_eq [of encoding_table i j] by simp
qed

section \<open>Property\<close>

text \<open>
  C38. The name of a file of the disc cache determines what is in it: the names of two elements are
  equal only for the same kind of element and the same 32-bit identifier, those of two block
  files only for the same kind and the same file number, and no block file has the name of
  an element.
\<close>

theorem store_fname_injective:
  assumes "ss_path st \<noteq> []" and "k < 4" and "l < 4"
    and "store_fname st i k m = (Some fname, m')" and "store_fname st j l n = (Some fname, n')"
  shows "k = l \<and> (k < ENTRY_ELEM_COUNT \<longrightarrow> i = j) \<and>
    (\<forall>a b. i = word_of_nat a \<and> j = word_of_nat b \<and> a < 64 \<and> b < 64 \<longrightarrow> a = b)"
proof -
  have "fname_text (ss_path st) i k = fname_text (ss_path st) j l"
    using assms(4,5) by (auto simp: store_fname_eq split: prod.splits if_splits)
  note same = name_parts_inj [OF assms(2,3) fname_text_parts [OF assms(1-3) this]]
  have "a = b" if "i = word_of_nat a" "j = word_of_nat b" "a < 64" "b < 64" for a b
    using same(3) small_ident_dir [OF that(3)] small_ident_dir [OF that(4)] encoding_table_inj [OF that(3,4)] that(1,2)
    by simp
  then show ?thesis
    using same(1,2) by (simp add: ENTRY_ELEM_COUNT_def)
qed

theorem store_fname_injective_witness:
  "store_fname (example_store []) 0x12345678 0 (fresh_mem []) =
     (Some ''cache/d/BY/Z/F/N/S/YTVIDJA'', snd (malloc (fresh_mem []))) \<and>
   fst (store_fname (example_store []) 0x12345679 0 (fresh_mem [])) \<noteq> Some ''cache/d/BY/Z/F/N/S/YTVIDJA''"
proof -
  let ?st = "example_store []"
  have a: "store_fname ?st 0x12345678 0 (fresh_mem []) = (Some ''cache/d/BY/Z/F/N/S/YTVIDJA'', snd (malloc (fresh_mem [])))"
    by code_simp
  have "fst (store_fname ?st 0x12345679 0 (fresh_mem [])) \<noteq> Some ''cache/d/BY/Z/F/N/S/YTVIDJA''"
  proof
    assume "fst (store_fname ?st 0x12345679 0 (fresh_mem [])) = Some ''cache/d/BY/Z/F/N/S/YTVIDJA''"
    then obtain n' where b: "store_fname ?st 0x12345679 0 (fresh_mem []) = (Some ''cache/d/BY/Z/F/N/S/YTVIDJA'', n')"
      by (metis prod.collapse)
    show False
      using store_fname_injective [OF _ _ _ a b] by (simp add: example_store_def ENTRY_ELEM_COUNT_def)
  qed
  with a show ?thesis
    by simp
qed

end
