(* ===== verification/Fs_Cache.thy ===== *)
theory Fs_Cache
  imports Fs_Blocks Fs_Names
begin

unbundle bit_operations_syntax

text \<open>
  The invariant of the disc cache and what it promises: which bytes an element holds, and that
  every operation keeps that promise for every element, whatever system calls and
  allocations fail.

  Two things are assumed of a history. Different URLs have different 32-bit hashes
  (\<open>urls_ok\<close>), since the hash is the name of the file. And an element is either always
  stored with at most a block's size or always with more (\<open>large\<close>), since storing more
  than a block into an element that has one writes over the blocks behind it.
\<close>

section \<open>Definitions\<close>

abbreviation same_url :: "nsurl \<Rightarrow> nsurl \<Rightarrow> bool" where
  "same_url \<equiv> entries_hashmap_key_eq"

lemma entries_key [simp]:
  "key_eq entries_hashmap_parameters = entries_hashmap_key_eq"
  "key_hash entries_hashmap_parameters = nsurl_hash"
  by (simp_all add: entries_hashmap_parameters_def)

definition urls_ok :: "nsurl set \<Rightarrow> bool" where
  "urls_ok U \<longleftrightarrow> (\<forall>u \<in> U. hash_valid u \<and> (\<forall>v \<in> U. nsurl_hash u = nsurl_hash v \<longrightarrow> same_url u v))"

definition large_ok :: "(nsurl \<Rightarrow> elem_idx \<Rightarrow> bool) \<Rightarrow> bool" where
  "large_ok large \<longleftrightarrow> (\<forall>u v. same_url u v \<longrightarrow> large u = large v)"

definition entry_inv ::
  "nsurl set \<Rightarrow> (nsurl \<Rightarrow> elem_idx \<Rightarrow> bool) \<Rightarrow> (elem_idx \<Rightarrow> block_file list) \<Rightarrow> nsurl \<Rightarrow> store_entry \<Rightarrow> bool" where
  "entry_inv U large blocks u ent \<longleftrightarrow>
     se_url ent \<in> U \<and> same_url u (se_url ent) \<and>
     (\<forall>e. el_block (elem e ent) \<noteq> 0 \<longrightarrow>
        unat (el_block (elem e ent)) < BLOCKS \<and> used (blocks e) (unat (el_block (elem e ent))) \<and>
        unat (el_size (elem e ent)) \<le> 2 ^ log2_block_size e \<and> \<not> large u e)"

definition block_name :: "string \<Rightarrow> elem_idx \<Rightarrow> nat \<Rightarrow> string" where
  "block_name path e bf = fname_text path (word_of_nat bf) (elem_number e + ENTRY_ELEM_COUNT)"

definition files_inv :: "string \<Rightarrow> (elem_idx \<Rightarrow> block_file list) \<Rightarrow> bool" where
  "files_inv path blocks \<longleftrightarrow> path \<noteq> [] \<and>
     (\<forall>e. blocks_wf (blocks e) \<and>
       (\<forall>bf fd. bf < BLOCK_FILE_COUNT \<longrightarrow> bf_fd (blocks e ! bf) = Some fd \<longrightarrow> fd = block_name path e bf))"

definition store_inv :: "nsurl set \<Rightarrow> (nsurl \<Rightarrow> elem_idx \<Rightarrow> bool) \<Rightarrow> store_state \<Rightarrow> bool" where
  "store_inv U large st \<longleftrightarrow>
     hashmap_inv hash_valid entries_hashmap_parameters (ss_entries st) \<and> files_inv (ss_path st) (ss_blocks st) \<and>
     (\<forall>u ent. hash_valid u \<longrightarrow> entry_lookup st u = Some ent \<longrightarrow> entry_inv U large (ss_blocks st) u ent) \<and>
     (\<forall>u v ent ent' e. hash_valid u \<longrightarrow> hash_valid v \<longrightarrow> entry_lookup st u = Some ent \<longrightarrow>
        entry_lookup st v = Some ent' \<longrightarrow> el_block (elem e ent) \<noteq> 0 \<longrightarrow>
        el_block (elem e ent) = el_block (elem e ent') \<longrightarrow> same_url u v)"

text \<open>Where the bytes of an element are.\<close>

definition elem_file :: "string \<Rightarrow> elem_idx \<Rightarrow> store_entry \<Rightarrow> string" where
  "elem_file path e ent =
     (if el_block (elem e ent) \<noteq> 0 then block_name path e (block_file_of (el_block (elem e ent)))
      else fname_text path (nsurl_hash (se_url ent)) (elem_number e))"

definition elem_offset :: "elem_idx \<Rightarrow> store_entry \<Rightarrow> nat" where
  "elem_offset e ent = (if el_block (elem e ent) \<noteq> 0 then block_offset e (el_block (elem e ent)) else 0)"

definition on_disc :: "string \<Rightarrow> world \<Rightarrow> elem_idx \<Rightarrow> store_entry \<Rightarrow> 8 word list" where
  "on_disc path w e ent =
     take (unat (el_size (elem e ent))) (drop (elem_offset e ent) (file_bytes w (elem_file path e ent)))"

text \<open>
  What the history of an element promises: nothing was ever stored (so it is empty), a write
  failed and nothing is known, or these bytes were stored last and are in memory, when it
  is in use, and on the disc.
\<close>

datatype promise = Never | Tainted | Stored "8 word list"

definition holds :: "string \<Rightarrow> world \<Rightarrow> elem_idx \<Rightarrow> store_entry \<Rightarrow> 8 word list \<Rightarrow> bool" where
  "holds path w e ent data \<longleftrightarrow>
     length data = unat (el_size (elem e ent)) \<and> on_disc path w e ent = data \<and>
     (el_flags (elem e ent) AND ENTRY_ELEM_FLAG_HEAP \<noteq> 0 \<longrightarrow> el_data (elem e ent) = data)"

definition promise_ok :: "promise \<Rightarrow> string \<Rightarrow> world \<Rightarrow> elem_idx \<Rightarrow> store_entry \<Rightarrow> bool" where
  "promise_ok g path w e ent = (case g of
     Never \<Rightarrow> el_size (elem e ent) = 0
   | Tainted \<Rightarrow> True
   | Stored data \<Rightarrow> el_size (elem e ent) = 0 \<or> holds path w e ent data)"

definition coherent :: "(nsurl \<Rightarrow> elem_idx \<Rightarrow> promise) \<Rightarrow> store_state \<Rightarrow> world \<Rightarrow> bool" where
  "coherent G st w \<longleftrightarrow>
     (\<forall>u ent e. hash_valid u \<longrightarrow> entry_lookup st u = Some ent \<longrightarrow> promise_ok (G u e) (ss_path st) w e ent)"

definition good ::
  "nsurl set \<Rightarrow> (nsurl \<Rightarrow> elem_idx \<Rightarrow> bool) \<Rightarrow> (nsurl \<Rightarrow> elem_idx \<Rightarrow> promise) \<Rightarrow> store_state \<Rightarrow> world \<Rightarrow> bool" where
  "good U large G st w \<longleftrightarrow> store_inv U large st \<and> coherent G st w"

section \<open>Elements\<close>

lemma elem_simps [simp]:
  "elem e (elem_update e f ent) = f (elem e ent)"
  "e \<noteq> e' \<Longrightarrow> elem e (elem_update e' f ent) = elem e ent"
  "se_url (elem_update e f ent) = se_url ent"
  "se_flags (elem_update e f ent) = se_flags ent"
  "elem e (ent\<lparr>se_last_used := t\<rparr>) = elem e ent"
  "elem e (ent\<lparr>se_use_count := n\<rparr>) = elem e ent"
  "elem e (ent\<lparr>se_flags := fl\<rparr>) = elem e ent"
  by (cases e; cases e'; simp add: elem_def elem_update_def)+

lemma elem_update_same [simp]: "elem e' (elem_update e f ent) = (if e' = e then f (elem e ent) else elem e' ent)"
  by simp

lemma elem_number_inj [simp]: "elem_number e = elem_number e' \<longleftrightarrow> e = e'"
  by (cases e; cases e') (simp_all add: elem_number_def)

lemma elem_number_less: "elem_number e < ENTRY_ELEM_COUNT"
  by (cases e) (simp_all add: elem_number_def ENTRY_ELEM_COUNT_def)

lemma same_url_refl [simp]: "same_url u u"
  using entries.eq_refl [of u] by simp

lemma same_url_sym: "same_url u v \<Longrightarrow> same_url v u"
  using entries.eq_sym [of u v] by simp

lemma same_url_trans: "same_url u v \<Longrightarrow> same_url v x \<Longrightarrow> same_url u x"
  using entries.eq_trans [of u v x] by simp

lemma same_url_left: "same_url u v \<Longrightarrow> same_url u x \<longleftrightarrow> same_url v x"
  using entries.eq_left [of u v x] by simp

text \<open>Entries as seen through the map.\<close>

lemma lookup_write:
  assumes "hashmap_inv hash_valid entries_hashmap_parameters (ss_entries st)" and "hash_valid url" and "hash_valid u"
  shows "entry_lookup (write_entry_at url f st) u =
    (if same_url url u then map_option f (entry_lookup st url) else entry_lookup st u)"
  using entries.hashmap_modify_lookup [OF assms, of f] by (simp add: write_entry_at_def)

lemma lookup_cong:
  assumes "hashmap_inv hash_valid entries_hashmap_parameters (ss_entries st)"
    and "same_url u v" and "hash_valid u" and "hash_valid v"
  shows "entry_lookup st u = entry_lookup st v"
  using entries.hashmap_modify_lookup [OF assms(1) assms(3,3), of id]
    entries.hashmap_modify_lookup [OF assms(1) assms(3,4), of id] assms(2)
    entries.chain_lookup_cong [of u v] entries.eq_hash [of u v] assms(3,4)
  by (simp add: hashmap_lookup_chain)

lemma write_entry_fields [simp]:
  "ss_path (write_entry_at url f st) = ss_path st"
  "ss_blocks (write_entry_at url f st) = ss_blocks st"
  "ss_total_alloc (write_entry_at url f st) = ss_total_alloc st"
  "ss_limit (write_entry_at url f st) = ss_limit st"
  "ss_hysteresis (write_entry_at url f st) = ss_hysteresis st"
  by (simp_all add: write_entry_at_def)

section \<open>Changing the map\<close>

lemma store_invD:
  assumes "store_inv U large st"
  shows "hashmap_inv hash_valid entries_hashmap_parameters (ss_entries st)" and "files_inv (ss_path st) (ss_blocks st)"
    and "\<And>u ent. hash_valid u \<Longrightarrow> entry_lookup st u = Some ent \<Longrightarrow> entry_inv U large (ss_blocks st) u ent"
    and "\<And>u v ent ent' e. hash_valid u \<Longrightarrow> hash_valid v \<Longrightarrow> entry_lookup st u = Some ent \<Longrightarrow>
      entry_lookup st v = Some ent' \<Longrightarrow> el_block (elem e ent) \<noteq> 0 \<Longrightarrow>
      el_block (elem e ent) = el_block (elem e ent') \<Longrightarrow> same_url u v"
  using assms unfolding store_inv_def by blast+

lemma entry_inv_used:
  "entry_inv U large blocks u ent \<Longrightarrow> el_block (elem e ent) \<noteq> 0 \<Longrightarrow> used (blocks e) (unat (el_block (elem e ent)))"
  by (simp add: entry_inv_def)

lemma store_inv_write:
  assumes inv: "store_inv U large st" and url: "hash_valid url" and ent: "entry_lookup st url = Some ent"
    and st': "ss_entries st' = ss_entries (write_entry_at url (\<lambda>_. ent') st)" "ss_path st' = ss_path st"
    and files: "files_inv (ss_path st) (ss_blocks st')"
    and mono: "\<And>e n. used (ss_blocks st e) n \<Longrightarrow> used (ss_blocks st' e) n"
    and new: "\<And>u. same_url u url \<Longrightarrow> entry_inv U large (ss_blocks st') u ent'"
    and fresh: "\<And>e. el_block (elem e ent') \<noteq> 0 \<Longrightarrow> el_block (elem e ent') = el_block (elem e ent) \<or>
      \<not> used (ss_blocks st e) (unat (el_block (elem e ent')))"
  shows "store_inv U large st'"
proof -
  note invD = store_invD [OF inv]
  have look: "entry_lookup st' u = (if same_url url u then Some ent' else entry_lookup st u)" if "hash_valid u" for u
    using lookup_write [OF invD(1) url that] by (simp add: st' ent)
  have old: "entry_inv U large (ss_blocks st') u e" if "entry_inv U large (ss_blocks st) u e" for u e
    using that mono unfolding entry_inv_def by blast
  have apart: "el_block (elem e ent') \<noteq> el_block (elem e x)"
    if "hash_valid v" "\<not> same_url url v" "entry_lookup st v = Some x" "el_block (elem e ent') \<noteq> 0" for v x e
  proof
    assume eq: "el_block (elem e ent') = el_block (elem e x)"
    have "used (ss_blocks st e) (unat (el_block (elem e x)))"
      using invD(3) [OF that(1,3)] that(4) eq by (auto intro: entry_inv_used)
    then have "el_block (elem e ent) = el_block (elem e x)"
      using fresh [OF that(4)] eq by auto
    then show False
      using invD(4) [OF url that(1) ent that(3)] that(2,4) eq by auto
  qed
  have distinct: "same_url u v" if "hash_valid u" "hash_valid v" "entry_lookup st' u = Some x" "entry_lookup st' v = Some y"
      "el_block (elem e x) \<noteq> 0" "el_block (elem e x) = el_block (elem e y)" for u v x y e
  proof (cases "same_url url u")
    case u: True
    show ?thesis
    proof (cases "same_url url v")
      case True
      then show ?thesis using u same_url_sym same_url_trans by blast
    next
      case False
      then show ?thesis
        using that u look [OF that(1)] look [OF that(2)] apart [OF that(2), of y e] by simp
    qed
  next
    case u: False
    show ?thesis
    proof (cases "same_url url v")
      case True
      then show ?thesis
        using that u look [OF that(1)] look [OF that(2)] apart [OF that(1), of x e] by simp
    next
      case False
      then show ?thesis
        using that u look [OF that(1)] look [OF that(2)] invD(4) [OF that(1,2), of x y e] by simp
    qed
  qed
  have "hashmap_inv hash_valid entries_hashmap_parameters (ss_entries st')"
    using entries.hashmap_modify_inv [OF invD(1) url] by (simp add: st'(1) write_entry_at_def)
  moreover have "entry_inv U large (ss_blocks st') u x" if "hash_valid u" "entry_lookup st' u = Some x" for u x
  proof (cases "same_url url u")
    case True
    then show ?thesis
      using look [OF that(1)] that(2) new [OF same_url_sym [OF True]] by simp
  next
    case False
    then show ?thesis
      using look [OF that(1)] that(2) old [OF invD(3) [OF that(1)]] by simp
  qed
  ultimately show ?thesis
    unfolding store_inv_def using files st'(2) distinct by auto
qed

text \<open>
  A change of an entry that keeps where its elements are: the promises about its URL are
  those the new entry meets.
\<close>

lemma good_rewrite:
  assumes "good U large G st w" and large: "large_ok large" and url: "hash_valid url"
    and ent: "entry_lookup st url = Some ent"
    and place: "se_url ent' = se_url ent"
      "\<And>e. el_block (elem e ent') = el_block (elem e ent) \<and> el_size (elem e ent') = el_size (elem e ent)"
    and meets: "\<And>u e. hash_valid u \<Longrightarrow> same_url url u \<Longrightarrow> promise_ok (G u e) (ss_path st) w e ent \<Longrightarrow>
      promise_ok (G' u e) (ss_path st) w e ent'"
    and others: "\<And>u. \<not> same_url url u \<Longrightarrow> G' u = G u"
  shows "good U large G' (write_entry_at url (\<lambda>_. ent') st) w"
proof -
  have inv: "store_inv U large st" and co: "coherent G st w"
    using assms(1) by (simp_all add: good_def)
  have old: "entry_inv U large (ss_blocks st) url ent"
    by (rule store_invD(3) [OF inv url ent])
  have "entry_inv U large (ss_blocks st) u ent'" if "same_url u url" for u
    using old place same_url_trans [OF that, of "se_url ent"] large that
    unfolding entry_inv_def large_ok_def by auto
  then have "store_inv U large (write_entry_at url (\<lambda>_. ent') st)"
    using store_invD(2) [OF inv] place
    by (intro store_inv_write [OF inv url ent refl]) simp_all
  moreover have "promise_ok (G' u e) (ss_path st) w e x"
    if u: "hash_valid u" and x: "entry_lookup (write_entry_at url (\<lambda>_. ent') st) u = Some x" for u e x
  proof (cases "same_url url u")
    case True
    then have "entry_lookup st u = Some ent"
      using lookup_cong [OF store_invD(1) [OF inv] True url u] ent by simp
    then have "promise_ok (G u e) (ss_path st) w e ent"
      using co u by (simp add: coherent_def)
    then show ?thesis
      using meets [OF u True] x True lookup_write [OF store_invD(1) [OF inv] url u, of "\<lambda>_. ent'"]
      by (simp add: ent)
  next
    case False
    then show ?thesis
      using co u x others lookup_write [OF store_invD(1) [OF inv] url u, of "\<lambda>_. ent'"]
      by (simp add: coherent_def)
  qed
  ultimately show ?thesis
    by (simp add: good_def coherent_def)
qed

text \<open>A change of an entry that keeps every promise.\<close>

definition entry_keeps :: "string \<Rightarrow> world \<Rightarrow> store_entry \<Rightarrow> world \<Rightarrow> store_entry \<Rightarrow> bool" where
  "entry_keeps path w ent w' ent' \<longleftrightarrow>
     se_url ent' = se_url ent \<and>
     (\<forall>e. el_block (elem e ent') = el_block (elem e ent) \<and> el_size (elem e ent') = el_size (elem e ent)) \<and>
     (\<forall>g e. promise_ok g path w e ent \<longrightarrow> promise_ok g path w' e ent')"

lemma good_write:
  assumes "good U large G st w" and "large_ok large" and "hash_valid url"
    and "entry_lookup st url = Some ent" and "entry_keeps (ss_path st) w ent w ent'"
  shows "good U large G (write_entry_at url (\<lambda>_. ent') st) w"
  using assms(5) by (intro good_rewrite [OF assms(1-4)]) (simp_all add: entry_keeps_def)

section \<open>Where elements are\<close>

lemma log2_block_size_eq [simp]: "log2_block_size e = 13"
  by (cases e) (simp_all add: log2_block_size_def)

lemma elem_number_less4: "elem_number e < 4" "elem_number e + ENTRY_ELEM_COUNT < 4"
  by (cases e; simp add: elem_number_def ENTRY_ELEM_COUNT_def)+

lemma block_file_less: "unat block < BLOCKS \<Longrightarrow> block_file_of block < BLOCK_FILE_COUNT"
  by (simp add: block_file_of_eq BLOCKS_eq block_constants less_mult_imp_div_less)

lemma block_name_inj:
  assumes "path \<noteq> []" and "bf < BLOCK_FILE_COUNT" and "bf' < BLOCK_FILE_COUNT"
    and "block_name path e bf = block_name path e' bf'"
  shows "e = e' \<and> bf = bf'"
proof -
  have less: "bf < 64" "bf' < 64"
    using assms(2,3) by (simp_all add: block_constants)
  note parts = fname_text_parts [OF assms(1) elem_number_less4(2) elem_number_less4(2) assms(4) [unfolded block_name_def]]
  note same = name_parts_inj [OF elem_number_less4(2) elem_number_less4(2) parts]
  have "encoding_table ! bf = encoding_table ! bf'"
    using same(3) by (simp only: small_ident_dir [OF less(1)] small_ident_dir [OF less(2)])
  then show ?thesis
    using same(1) encoding_table_inj [OF less] by simp
qed

lemma block_name_not_element: "path \<noteq> [] \<Longrightarrow> block_name path e bf \<noteq> fname_text path ident (elem_number e')"
proof
  assume "path \<noteq> []" and "block_name path e bf = fname_text path ident (elem_number e')"
  then have "elem_number e + ENTRY_ELEM_COUNT = elem_number e'"
    using name_parts_inj(1) [OF elem_number_less4(2) elem_number_less4(1)
        fname_text_parts [OF _ elem_number_less4(2) elem_number_less4(1)]]
    unfolding block_name_def by blast
  then show False
    using elem_number_less [of e'] by simp
qed

lemma element_name_inj:
  assumes "path \<noteq> []" and "fname_text path i (elem_number e) = fname_text path j (elem_number e')"
  shows "e = e' \<and> i = j"
proof -
  note same = name_parts_inj [OF elem_number_less4(1) elem_number_less4(1)
      fname_text_parts [OF assms(1) elem_number_less4(1) elem_number_less4(1) assms(2)]]
  have "elem_number e < 2"
    using elem_number_less [of e] by (simp add: ENTRY_ELEM_COUNT_def)
  then show ?thesis
    using same(1) same(2) by simp
qed

lemma block_apart:
  assumes "b \<noteq> b'" and "block_file_of b = block_file_of b'" and "e = e'"
  shows "block_offset e b + 2 ^ 13 \<le> block_offset e' b' \<or> block_offset e' b' + 2 ^ 13 \<le> block_offset e b"
proof -
  have "unat b mod 1024 \<noteq> unat b' mod 1024"
    using assms(1,2) unfolding block_file_of_eq by (metis div_mult_mod_eq word_unat_eq_iff)
  then show ?thesis
    by (simp add: block_offset_def block_index_of_eq) linarith
qed

text \<open>Two elements are in different files or in different blocks of a file.\<close>

lemma elements_apart:
  assumes "urls_ok U" and "path \<noteq> []" and x: "entry_inv U large blocks u x" and y: "entry_inv U large blocks v y"
    and other: "\<not> (same_url u v \<and> e = e')"
    and blocks: "\<And>e. el_block (elem e x) \<noteq> 0 \<Longrightarrow> el_block (elem e x) = el_block (elem e y) \<Longrightarrow> same_url u v"
  shows "elem_file path e x \<noteq> elem_file path e' y \<or>
    (el_block (elem e x) \<noteq> 0 \<and> el_block (elem e' y) \<noteq> 0 \<and>
     (elem_offset e x + 2 ^ 13 \<le> elem_offset e' y \<or> elem_offset e' y + 2 ^ 13 \<le> elem_offset e x))"
proof -
  have xu: "same_url u (se_url x)" "se_url x \<in> U" and yv: "same_url v (se_url y)" "se_url y \<in> U"
    using x y by (simp_all add: entry_inv_def)
  consider (files) "el_block (elem e x) = 0" "el_block (elem e' y) = 0"
    | (blocks) "el_block (elem e x) \<noteq> 0" "el_block (elem e' y) \<noteq> 0"
    | (left) "el_block (elem e x) \<noteq> 0" "el_block (elem e' y) = 0"
    | (right) "el_block (elem e x) = 0" "el_block (elem e' y) \<noteq> 0"
    by blast
  then show ?thesis
  proof cases
    case files
    have "elem_file path e x \<noteq> elem_file path e' y"
    proof
      assume "elem_file path e x = elem_file path e' y"
      then have "e = e' \<and> nsurl_hash (se_url x) = nsurl_hash (se_url y)"
        using files element_name_inj [OF assms(2)] by (simp add: elem_file_def)
      then have "e = e'" "same_url (se_url x) (se_url y)"
        using assms(1) xu(2) yv(2) by (simp_all add: urls_ok_def)
      then show False
        using other same_url_trans [OF xu(1)] same_url_trans [OF _ same_url_sym [OF yv(1)]] by blast
    qed
    then show ?thesis by blast
  next
    case blocks: blocks
    have less: "block_file_of (el_block (elem e x)) < BLOCK_FILE_COUNT" "block_file_of (el_block (elem e' y)) < BLOCK_FILE_COUNT"
      using x y blocks by (simp_all add: entry_inv_def block_file_less)
    show ?thesis
    proof (cases "elem_file path e x = elem_file path e' y")
      case True
      then have "block_name path e (block_file_of (el_block (elem e x))) =
          block_name path e' (block_file_of (el_block (elem e' y)))"
        using blocks by (simp add: elem_file_def)
      from block_name_inj [OF assms(2) less this]
      have same: "e = e'" "block_file_of (el_block (elem e x)) = block_file_of (el_block (elem e' y))"
        by blast+
      have "el_block (elem e x) \<noteq> el_block (elem e' y)"
        using other same(1) blocks(1) assms(6) [of e] by auto
      from block_apart [OF this same(2,1)] show ?thesis
        using blocks by (simp add: elem_offset_def)
    qed blast
  next
    case left
    then show ?thesis
      using block_name_not_element [OF assms(2)] by (simp add: elem_file_def)
  next
    case right
    then show ?thesis
      using block_name_not_element [OF assms(2)] by (metis elem_file_def)
  qed
qed

text \<open>A write of at most an element's size at the element's place.\<close>

definition writes_element :: "string \<Rightarrow> elem_idx \<Rightarrow> store_entry \<Rightarrow> world \<Rightarrow> world \<Rightarrow> bool" where
  "writes_element path e x w w' \<longleftrightarrow>
     (\<forall>f. file_bytes w' f = file_bytes w f \<or>
        f = elem_file path e x \<and>
        (\<exists>data. length data \<le> unat (el_size (elem e x)) \<and>
           file_bytes w' f = put_bytes (file_bytes w f) (elem_offset e x) data))"

lemma put_bytes_frame:
  assumes "o' + n \<le> off \<or> off + length data \<le> o'" and "length (take n (drop o' bytes)) = n"
  shows "take n (drop o' (put_bytes bytes off data)) = take n (drop o' bytes)"
proof (cases "data = [] \<or> n = 0")
  case False
  then have inside: "o' + n \<le> length bytes"
    using assms(2) by (simp add: min_def split: if_splits)
  from assms(1) show ?thesis
  proof
    assume before: "o' + n \<le> off"
    then show ?thesis
      using inside False by (simp add: put_bytes_def take_drop min_def)
  next
    assume after: "off + length data \<le> o'"
    then have "drop o' (take off (bytes @ replicate (off - length bytes) 0) @ data @ drop (off + length data) bytes) = drop o' bytes"
      using inside False by (simp add: min_def)
    then show ?thesis
      using False by (simp add: put_bytes_def)
  qed
qed (auto simp: put_bytes_def)

lemma put_bytes_read: "take (length data) (drop off (put_bytes bytes off data)) = data"
  by (cases "off \<le> length bytes") (simp_all add: put_bytes_def min_def)

lemma on_disc_frame:
  assumes "urls_ok U" and "path \<noteq> []" and x: "entry_inv U large blocks u x" and y: "entry_inv U large blocks v y"
    and "\<not> (same_url u v \<and> e = e')"
    and "\<And>e. el_block (elem e x) \<noteq> 0 \<Longrightarrow> el_block (elem e x) = el_block (elem e y) \<Longrightarrow> same_url u v"
    and "writes_element path e x w w'"
    and "length (on_disc path w e' y) = unat (el_size (elem e' y))"
  shows "on_disc path w' e' y = on_disc path w e' y"
proof (cases "file_bytes w' (elem_file path e' y) = file_bytes w (elem_file path e' y)")
  case False
  then obtain data where eq: "elem_file path e' y = elem_file path e x" and data: "length data \<le> unat (el_size (elem e x))"
      "file_bytes w' (elem_file path e' y) = put_bytes (file_bytes w (elem_file path e' y)) (elem_offset e x) data"
    using assms(7) unfolding writes_element_def by metis
  have "el_block (elem e x) \<noteq> 0" "el_block (elem e' y) \<noteq> 0"
    and off: "elem_offset e x + 2 ^ 13 \<le> elem_offset e' y \<or> elem_offset e' y + 2 ^ 13 \<le> elem_offset e x"
    using elements_apart [OF assms(1-6)] eq by auto
  then have "unat (el_size (elem e x)) \<le> 2 ^ 13" "unat (el_size (elem e' y)) \<le> 2 ^ 13"
    using x y by (simp_all add: entry_inv_def)
  then show ?thesis
    using off data assms(8) unfolding on_disc_def data(2) by (intro put_bytes_frame) auto
qed (simp add: on_disc_def)

lemma promise_frame:
  assumes "promise_ok g path w e y"
    and "length (on_disc path w e y) = unat (el_size (elem e y)) \<Longrightarrow> on_disc path w' e y = on_disc path w e y"
  shows "promise_ok g path w' e y"
  using assms by (cases g) (auto simp: promise_ok_def holds_def)

end
