(* ===== verification/Fs_Cache_Ops.thy ===== *)
theory Fs_Cache_Ops
  imports Fs_Cache "HOL-Library.Multiset"
begin

unbundle bit_operations_syntax

text \<open>
  Every operation of the disc cache keeps the invariant and the promises of \<open>Fs_Cache\<close>; a fetch
  that succeeds returns the bytes that were stored last.
\<close>

section \<open>Parts of the state that do not matter\<close>

lemma good_cong:
  assumes "ss_entries st' = ss_entries st" and "ss_path st' = ss_path st" and "ss_blocks st' = ss_blocks st"
    and "file_bytes w' = file_bytes w"
  shows "good U large G st' w' \<longleftrightarrow> good U large G st w"
  using assms by (simp add: good_def store_inv_def coherent_def promise_ok_def holds_def on_disc_def cong: promise.case_cong)

lemma file_bytes_simps [simp]:
  "file_bytes (w\<lparr>w_mem := m\<rparr>) = file_bytes w" "file_bytes (w\<lparr>w_io := ios\<rparr>) = file_bytes w"
  "file_bytes (world_free w) = file_bytes w"
  "w_files (world_free w) = w_files w" "w_now (world_free w) = w_now w"
  by (simp_all add: fun_eq_iff file_bytes_def world_free_def)

lemma io_next_files: "io_next w = (io, w') \<Longrightarrow> w_files w' = w_files w \<and> w_mem w' = w_mem w"
  by (auto simp: io_next_def split: list.splits)

lemma io_next_bytes: "io_next w = (io, w') \<Longrightarrow> file_bytes w' = file_bytes w"
  using io_next_files [of w io w'] by (auto simp: file_bytes_def fun_eq_iff)

lemma with_mem_files: "with_mem f w = (x, w') \<Longrightarrow> w_files w' = w_files w \<and> file_bytes w' = file_bytes w"
  by (auto simp: with_mem_def file_bytes_def fun_eq_iff split: prod.splits)

lemma unlink_bytes: "f \<noteq> fname \<Longrightarrow> file_bytes (unlink_file fname w) f = file_bytes w f"
  by (auto simp: unlink_file_def file_bytes_def split: prod.split dest: io_next_files)

lemma with_store_fname:
  "with_mem (store_fname st i k) w = (Some fname, w') \<Longrightarrow> fname = fname_text (ss_path st) i k"
  by (auto simp: with_mem_def store_fname_eq split: prod.splits if_splits)

section \<open>Looking an entry up\<close>

lemma promise_same_element: "elem e y = elem e x \<Longrightarrow> se_url y = se_url x \<Longrightarrow> promise_ok g path w e y = promise_ok g path w e x"
  by (cases g) (simp_all add: promise_ok_def holds_def on_disc_def elem_offset_def elem_file_def)

lemma entry_keeps_same:
  "se_url y = se_url x \<Longrightarrow> (\<And>e. elem e y = elem e x) \<Longrightarrow> entry_keeps path w x w y"
  unfolding entry_keeps_def by (metis promise_same_element)

lemma get_store_entry_None:
  "get_store_entry st url now = (Inl ret, st') \<Longrightarrow> st' = st \<and> ret = NSERROR_NOT_FOUND \<and> entry_lookup st url = None"
  by (auto simp: get_store_entry_def Let_def split: option.splits)

lemma get_store_entry_Some:
  assumes good: "good U large G st w" and "large_ok large" and url: "hash_valid url"
    and get: "get_store_entry st url now = (Inr bse, st')"
  shows "good U large G st' w \<and> entry_lookup st' url = Some bse \<and> ss_path st' = ss_path st \<and> ss_blocks st' = ss_blocks st \<and>
    (\<exists>ent. entry_lookup st url = Some ent \<and> (\<forall>e. elem e bse = elem e ent) \<and> se_url bse = se_url ent \<and> se_flags bse = se_flags ent)"
proof -
  obtain ent where ent: "entry_lookup st url = Some ent" "bse = ent\<lparr>se_last_used := now, se_use_count := se_use_count ent + 1\<rparr>"
      "st' = (write_entry_at url (\<lambda>_. bse) st)\<lparr>ss_entries_dirty := True\<rparr>"
    using get by (auto simp: get_store_entry_def Let_def split: option.splits)
  have inv: "hashmap_inv hash_valid entries_hashmap_parameters (ss_entries st)"
    using good by (simp add: good_def store_inv_def)
  have "good U large G (write_entry_at url (\<lambda>_. bse) st) w"
    by (intro good_write [OF good assms(2) url ent(1)] entry_keeps_same) (simp_all add: ent(2))
  then have "good U large G st' w"
    unfolding ent(3) by (subst good_cong [where st = "write_entry_at url (\<lambda>_. bse) st" and w = w]) simp_all
  moreover have "entry_lookup st' url = Some bse"
    using lookup_write [OF inv url url, of "\<lambda>_. bse"] by (simp add: ent(1,3))
  ultimately show ?thesis
    using ent by simp
qed

section \<open>Removing an entry\<close>

lemma good_remove:
  assumes good: "good U large G st w" and U: "urls_ok U" and ent: "entry_lookup st (se_url ent) = Some ent"
    and valid: "hash_valid (se_url ent)"
    and rem: "hashmap_remove entries_hashmap_parameters (ss_entries st) (se_url ent) m = (b, ss_entries st', m')"
    and path: "ss_path st' = ss_path st" and files: "files_inv (ss_path st) (ss_blocks st')"
    and used: "\<And>e n. used (ss_blocks st e) n \<Longrightarrow> el_block (elem e ent) = 0 \<or> n \<noteq> unat (el_block (elem e ent)) \<Longrightarrow>
      used (ss_blocks st' e) n"
    and disc: "\<And>f. file_bytes w' f = file_bytes w f \<or> (\<exists>e. el_block (elem e ent) = 0 \<and> f = elem_file (ss_path st) e ent)"
  shows "good U large G st' w' \<and>
    (\<forall>u. hash_valid u \<longrightarrow> entry_lookup st' u = (if same_url (se_url ent) u then None else entry_lookup st u))"
proof -
  have inv: "store_inv U large st" and co: "coherent G st w"
    using good by (simp_all add: good_def)
  note invD = store_invD [OF inv]
  have look: "entry_lookup st' u = (if same_url (se_url ent) u then None else entry_lookup st u)" if "hash_valid u" for u
    using entries.rem_lookup [OF invD(1) valid that rem] by simp
  have other: "\<not> same_url (se_url ent) u \<and> entry_lookup st u = Some x" if "hash_valid u" "entry_lookup st' u = Some x" for u x
    using look [OF that(1)] that(2) by (auto split: if_splits)
  have apart: "el_block (elem e ent) \<noteq> 0 \<Longrightarrow> el_block (elem e ent) = el_block (elem e x) \<Longrightarrow> same_url (se_url ent) u"
    if "hash_valid u" "entry_lookup st' u = Some x" for u x e
    using invD(4) [OF valid that(1) ent] other [OF that] by blast
  have kept: "entry_inv U large (ss_blocks st') u x" if u: "hash_valid u" "entry_lookup st' u = Some x" for u x
  proof -
    have old: "entry_inv U large (ss_blocks st) u x"
      using invD(3) [OF u(1)] other [OF u] by blast
    have "used (ss_blocks st' e) (unat (el_block (elem e x)))" if "el_block (elem e x) \<noteq> 0" for e
    proof (rule used)
      show "used (ss_blocks st e) (unat (el_block (elem e x)))"
        using old that by (rule entry_inv_used)
      show "el_block (elem e ent) = 0 \<or> unat (el_block (elem e x)) \<noteq> unat (el_block (elem e ent))"
        using apart [OF u, of e] other [OF u] that word_unat_eq_iff by metis
    qed
    with old show ?thesis
      unfolding entry_inv_def by blast
  qed
  have "store_inv U large st'"
    unfolding store_inv_def
    using entries.rem_inv [OF invD(1) valid rem] files kept other invD(4) path by metis
  moreover have "coherent G st' w'"
    unfolding coherent_def path
  proof (intro allI impI)
    fix u x e
    assume u: "hash_valid u" and x: "entry_lookup st' u = Some x"
    have old: "promise_ok (G u e) (ss_path st) w e x"
      using co u other [OF u x] by (simp add: coherent_def)
    have "file_bytes w' (elem_file (ss_path st) e x) = file_bytes w (elem_file (ss_path st) e x)"
    proof (rule ccontr)
      assume "\<not> ?thesis"
      then obtain e' where e': "el_block (elem e' ent) = 0" "elem_file (ss_path st) e x = elem_file (ss_path st) e' ent"
        using disc by metis
      show False
        using elements_apart [OF U _ invD(3) [OF valid ent] invD(3) [OF u], of "ss_path st" x e' e]
          other [OF u x] apart [OF u x] e' files by (auto simp: files_inv_def)
    qed
    then show "promise_ok (G u e) (ss_path st) w' e x"
      using old by (intro promise_frame [OF old]) (simp add: on_disc_def)
  qed
  ultimately show ?thesis
    using look by (simp add: good_def)
qed

section \<open>Invalidating\<close>

lemma free_use_bit_effect:
  assumes "files_inv (ss_path st) (ss_blocks st)" and "unat block < BLOCKS"
  shows "files_inv (ss_path st) (ss_blocks (free_use_bit e block st))"
    and "used (ss_blocks (free_use_bit e block st) e') n \<longleftrightarrow> used (ss_blocks st e') n \<and> \<not> (e' = e \<and> n = unat block)"
proof -
  have wf: "blocks_wf (ss_blocks st e)"
    using assms(1) by (simp add: files_inv_def)
  show "files_inv (ss_path st) (ss_blocks (free_use_bit e block st))"
    using assms(1) by (simp add: files_inv_def free_use_bit_eq Let_def set_byte_wf set_byte_fd)
  show "used (ss_blocks (free_use_bit e block st) e') n \<longleftrightarrow> used (ss_blocks st e') n \<and> \<not> (e' = e \<and> n = unat block)"
    using free_block_bit [OF wf assms(2)] by (auto simp: free_use_bit_eq Let_def simp del: push_bit_of_1)
qed

lemma invalidate_element_effect:
  assumes i: "invalidate_element st bse e w = (ret, st', w')"
    and files: "files_inv (ss_path st) (ss_blocks st)"
    and block: "el_block (elem e bse) \<noteq> 0 \<Longrightarrow> unat (el_block (elem e bse)) < BLOCKS"
  shows "ss_entries st' = ss_entries st \<and> ss_path st' = ss_path st \<and> files_inv (ss_path st) (ss_blocks st') \<and>
    (\<forall>e' n. used (ss_blocks st' e') n \<longleftrightarrow>
       used (ss_blocks st e') n \<and> \<not> (e' = e \<and> el_block (elem e bse) \<noteq> 0 \<and> n = unat (el_block (elem e bse)))) \<and>
    (\<forall>f. file_bytes w' f = file_bytes w f \<or> el_block (elem e bse) = 0 \<and> f = elem_file (ss_path st) e bse)"
proof (cases "el_block (elem e bse) = 0")
  case False
  then have "ss_blocks st' = ss_blocks (free_use_bit e (el_block (elem e bse)) st)" "w' = w"
    "ss_entries st' = ss_entries st" "ss_path st' = ss_path st"
    using i by (auto simp: invalidate_element_def Let_def free_use_bit_def)
  then show ?thesis
    using free_use_bit_effect [OF files block [OF False], of e] False by auto
next
  case True
  have state: "ss_entries st' = ss_entries st \<and> ss_path st' = ss_path st \<and> ss_blocks st' = ss_blocks st"
    using i True by (auto simp: invalidate_element_def Let_def split: prod.splits option.splits if_splits)
  have "file_bytes w' f = file_bytes w f \<or> f = elem_file (ss_path st) e bse" for f
  proof (cases "with_mem (store_fname st (nsurl_hash (se_url bse)) (elem_number e)) w")
    case (Pair name w1)
    show ?thesis
    proof (cases name)
      case None
      then show ?thesis
        using i True Pair with_mem_files [OF Pair] by (auto simp: invalidate_element_def Let_def)
    next
      case (Some fname)
      then have "fname = elem_file (ss_path st) e bse"
        using with_store_fname [of st _ _ w fname w1] Pair True by (simp add: elem_file_def)
      moreover have "w' = world_free (unlink_file fname w1)"
        using i True Pair Some by (simp add: invalidate_element_def Let_def)
      ultimately show ?thesis
        using unlink_bytes [of f fname w1] with_mem_files [OF Pair] by auto
    qed
  qed
  then show ?thesis
    using state files True by simp
qed

text \<open>Invalidating an entry only drops it, or marks it when it is in use.\<close>

lemma invalidate_entry_good:
  assumes good: "good U large G st w" and "large_ok large" and U: "urls_ok U"
    and ent: "entry_lookup st (se_url ent) = Some ent" and valid: "hash_valid (se_url ent)"
    and i: "invalidate_entry st ent w = (ret, st', w')"
  shows "ret = NSERROR_OK \<and> good U large G st' w' \<and> ss_path st' = ss_path st \<and>
    ss_hysteresis st' = ss_hysteresis st \<and>
    (\<forall>u. hash_valid u \<longrightarrow> \<not> same_url (se_url ent) u \<longrightarrow> entry_lookup st' u = entry_lookup st u) \<and>
    entry_lookup st' (se_url ent) = (if in_use (se_data ent) \<or> in_use (se_meta ent)
      then Some (ent\<lparr>se_flags := se_flags ent OR ENTRY_FLAGS_INVALID\<rparr>) else None)"
proof -
  let ?ent = "ent\<lparr>se_flags := se_flags ent OR ENTRY_FLAGS_INVALID\<rparr>"
  let ?st = "write_entry_at (se_url ent) (\<lambda>_. ?ent) st"
  have inv: "hashmap_inv hash_valid entries_hashmap_parameters (ss_entries st)"
    using good by (simp add: good_def store_inv_def)
  have good1: "good U large G ?st w"
    by (intro good_write [OF good assms(2) valid ent] entry_keeps_same) simp_all
  have look: "entry_lookup ?st u = (if same_url (se_url ent) u then Some ?ent else entry_lookup st u)" if "hash_valid u" for u
    using lookup_write [OF inv valid that] by (simp add: ent)
  show ?thesis
  proof (cases "in_use (se_data ent) \<or> in_use (se_meta ent)")
    case True
    then show ?thesis
      using i good1 look valid by (auto simp: invalidate_entry_def Let_def)
  next
    case False
    obtain r2 st2 w2 where 2: "invalidate_element ?st ?ent ENTRY_ELEM_META w = (r2, st2, w2)"
      by (cases "invalidate_element ?st ?ent ENTRY_ELEM_META w") auto
    obtain r3 st3 w3 where 3: "invalidate_element st2 ?ent ENTRY_ELEM_DATA w2 = (r3, st3, w3)"
      by (cases "invalidate_element st2 ?ent ENTRY_ELEM_DATA w2") auto
    obtain b entries' m where r: "hashmap_remove entries_hashmap_parameters (ss_entries st3) (se_url ent) (w_mem w3) = (b, entries', m)"
      by (cases "hashmap_remove entries_hashmap_parameters (ss_entries st3) (se_url ent) (w_mem w3)") auto
    have res: "ret = NSERROR_OK" "st' = st3\<lparr>ss_entries := entries'\<rparr>" "w' = w3\<lparr>w_mem := m\<rparr>"
      using i False 2 3 r by (simp_all add: invalidate_entry_def Let_def)
    have inv1: "store_inv U large ?st"
      using good1 by (simp add: good_def)
    have ent1: "entry_lookup ?st (se_url ?ent) = Some ?ent"
      using look [OF valid] by simp
    have blk: "unat (el_block (elem e ?ent)) < BLOCKS" if "el_block (elem e ?ent) \<noteq> 0" for e
      using store_invD(3) [OF inv1, of "se_url ?ent" ?ent] valid ent1 that by (simp add: entry_inv_def)
    note eff2 = invalidate_element_effect [OF 2 store_invD(2) [OF inv1] blk]
    have "files_inv (ss_path st2) (ss_blocks st2)"
      using eff2 by simp
    note eff3 = invalidate_element_effect [OF 3 this blk]
    have "good U large G st' w' \<and>
      (\<forall>u. hash_valid u \<longrightarrow> entry_lookup st' u = (if same_url (se_url ?ent) u then None else entry_lookup ?st u))"
    proof (rule good_remove [OF good1 U ent1])
      show "hash_valid (se_url ?ent)"
        using valid by simp
      show "hashmap_remove entries_hashmap_parameters (ss_entries ?st) (se_url ?ent) (w_mem w3) = (b, ss_entries st', m)"
        using r eff2 eff3 by (simp add: res)
      show "ss_path st' = ss_path ?st" "files_inv (ss_path ?st) (ss_blocks st')"
        using eff2 eff3 by (simp_all add: res)
    next
      fix e n
      assume "used (ss_blocks ?st e) n" "el_block (elem e ?ent) = 0 \<or> n \<noteq> unat (el_block (elem e ?ent))"
      then show "used (ss_blocks st' e) n"
        using eff2 eff3 by (auto simp: res)
    next
      fix f
      show "file_bytes w' f = file_bytes w f \<or>
        (\<exists>e. el_block (elem e ?ent) = 0 \<and> f = elem_file (ss_path ?st) e ?ent)"
        using eff2 eff3 unfolding res file_bytes_simps by metis
    qed
    moreover have "ss_hysteresis st3 = ss_hysteresis st"
      using 2 3 by (auto simp: invalidate_element_def free_use_bit_def Let_def split: if_splits prod.splits option.splits)
    ultimately show ?thesis
      using eff2 eff3 look valid False by (auto simp: res)
  qed
qed

section \<open>Eviction\<close>

text \<open>A symmetric relation between the elements of a list does not depend on their order.\<close>

lemma sorted_wrt_mset:
  assumes sym: "\<And>x y. R x y \<Longrightarrow> R y x"
  shows "sorted_wrt R xs \<longleftrightarrow> (\<forall>a \<in># mset xs. \<forall>b \<in># mset xs - {#a#}. R a b)"
proof (induction xs)
  case (Cons x xs)
  have diff: "mset (x # xs) - {#a#} = add_mset x (mset xs - {#a#})" if "a \<in> set xs" for a
    using that by simp
  have "(\<forall>a \<in># mset (x # xs). \<forall>b \<in># mset (x # xs) - {#a#}. R a b) \<longleftrightarrow>
      (\<forall>b \<in> set xs. R x b) \<and> (\<forall>a \<in> set xs. R a x \<and> (\<forall>b \<in># mset xs - {#a#}. R a b))"
    using diff by auto
  then show ?case
    using Cons.IH sym by auto
qed simp

lemma sorted_wrt_permutation:
  assumes "\<And>x y. R x y \<Longrightarrow> R y x" and "mset xs = mset ys" and "sorted_wrt R xs"
  shows "sorted_wrt R ys"
  using assms sorted_wrt_mset [of R xs] sorted_wrt_mset [of R ys] by simp

definition urls_apart :: "store_entry list \<Rightarrow> bool" where
  "urls_apart = sorted_wrt (\<lambda>a b. \<not> same_url (se_url a) (se_url b))"

lemma eviction_list: "iterate_chain entry_eviction_iterator_cb es seen = (False, seen @ map he_value es)"
  by (induction es arbitrary: seen) (simp_all add: entry_eviction_iterator_cb_def)

lemma eviction_iterate:
  "hashmap_iterate hm entry_eviction_iterator_cb [] = (False, map snd (hashmap_entries hm))"
  by (simp add: hashmap_iterate_def iterate_buckets_concat eviction_list hashmap_entries_def comp_def)

lemma entries_current:
  assumes "store_inv U large st" and "bse \<in> set (map snd (hashmap_entries (ss_entries st)))" and "urls_ok U"
  shows "hash_valid (se_url bse) \<and> entry_lookup st (se_url bse) = Some bse"
proof -
  note invD = store_invD [OF assms(1)]
  obtain k where "(k, bse) \<in> set (hashmap_entries (ss_entries st))"
    using assms(2) by auto
  then have k: "hash_valid k" "entry_lookup st k = Some bse"
    using entries.hashmap_entries_valid [OF invD(1)] by blast+
  then have "same_url k (se_url bse)" "hash_valid (se_url bse)"
    using invD(3) [OF k] assms(3) by (auto simp: entry_inv_def urls_ok_def)
  then show ?thesis
    using lookup_cong [OF invD(1) _ k(1)] k(2) by simp
qed

lemma entries_apart:
  assumes "store_inv U large st"
  shows "urls_apart (map snd (hashmap_entries (ss_entries st)))"
proof -
  note invD = store_invD [OF assms]
  have key: "same_url (he_key e) (se_url (he_value e))" if "e \<in> set (concat (hm_buckets (ss_entries st)))" for e
  proof -
    have "(he_key e, he_value e) \<in> set (hashmap_entries (ss_entries st))"
      using that by (auto simp: hashmap_entries_def)
    from entries.hashmap_entries_valid [OF invD(1) this] show ?thesis
      using invD(3) by (auto simp: entry_inv_def)
  qed
  have "sorted_wrt (\<lambda>e f. \<not> same_url (se_url (he_value e)) (se_url (he_value f))) (concat (hm_buckets (ss_entries st)))"
  proof (rule sorted_wrt_mono_rel [OF _ entries.hashmap_entries_apart [OF invD(1), simplified]])
    fix e f
    assume e: "e \<in> set (concat (hm_buckets (ss_entries st)))" and f: "f \<in> set (concat (hm_buckets (ss_entries st)))"
      and "\<not> same_url (he_key e) (he_key f)"
    then show "\<not> same_url (se_url (he_value e)) (se_url (he_value f))"
      using same_url_trans [OF key [OF e]] same_url_trans [OF _ same_url_sym [OF key [OF f]]] by blast
  qed
  then show ?thesis
    by (simp add: urls_apart_def hashmap_entries_def sorted_wrt_map comp_def)
qed

lemma evict_entries_good:
  assumes "large_ok large" and "urls_ok U"
  shows "good U large G st w \<Longrightarrow> urls_apart elist \<Longrightarrow>
    \<forall>bse \<in> set elist. hash_valid (se_url bse) \<and> entry_lookup st (se_url bse) = Some bse \<Longrightarrow>
    evict_entries elist removed st w = (ret, st', w') \<Longrightarrow>
    ret = NSERROR_OK \<and> good U large G st' w' \<and> ss_path st' = ss_path st"
proof (induction elist arbitrary: removed st w)
  case (Cons bse elist)
  obtain ret1 st1 w1 where 1: "invalidate_entry st bse w = (ret1, st1, w1)"
    by (cases "invalidate_entry st bse w") auto
  have cur: "hash_valid (se_url bse)" "entry_lookup st (se_url bse) = Some bse"
    using Cons.prems(3) by simp_all
  note i = invalidate_entry_good [OF Cons.prems(1) assms cur(2,1) 1]
  have rest: "\<forall>b \<in> set elist. hash_valid (se_url b) \<and> entry_lookup st1 (se_url b) = Some b"
    using i Cons.prems(2,3) by (auto simp: urls_apart_def)
  show ?case
  proof (cases "removed + ucast (el_size (se_data bse)) + ucast (el_size (se_meta bse)) > ss_hysteresis st1")
    case True
    then show ?thesis
      using Cons.prems(4) i 1 by (auto simp: Let_def)
  next
    case False
    then have "evict_entries elist (removed + ucast (el_size (se_data bse)) + ucast (el_size (se_meta bse))) st1 w1 = (ret, st', w')"
      using Cons.prems(4) i 1 by (auto simp: Let_def)
    from Cons.IH [OF _ _ rest this] show ?thesis
      using i Cons.prems(2) by (simp add: urls_apart_def)
  qed
qed simp

definition sorts :: "((store_entry \<Rightarrow> store_entry \<Rightarrow> int) \<Rightarrow> store_entry list \<Rightarrow> store_entry list) \<Rightarrow> bool" where
  "sorts qsort \<longleftrightarrow> (\<forall>es. mset (qsort compar es) = mset es \<and> sorted_wrt (\<lambda>a b. compar a b \<le> 0) (qsort compar es))"

lemma store_evict_good:
  assumes good: "good U large G st w" and "large_ok large" and U: "urls_ok U" and "sorts qsort"
    and e: "store_evict qsort st w = (ret, st', w')"
  shows "good U large G st' w' \<and> ss_path st' = ss_path st"
proof (cases "ss_total_alloc st < ss_limit st")
  case False
  obtain ok w1 where 1: "with_mem malloc w = (ok, w1)"
    by (cases "with_mem malloc w")
  have good1: "good U large G st w1"
    using good good_cong [of st st w1 w] with_mem_files [OF 1] by simp
  let ?es = "map snd (hashmap_entries (ss_entries st))"
  have m: "mset (qsort compar ?es) = mset ?es"
    using assms(4) by (simp add: sorts_def)
  have inv: "store_inv U large st"
    using good by (simp add: good_def)
  have apart: "urls_apart (qsort compar ?es)"
    unfolding urls_apart_def
  proof (rule sorted_wrt_permutation [OF _ m [symmetric]])
    show "sorted_wrt (\<lambda>a b. \<not> same_url (se_url a) (se_url b)) ?es"
      using entries_apart [OF inv] by (simp add: urls_apart_def)
  qed (use same_url_sym in blast)
  have cur: "\<forall>bse \<in> set (qsort compar ?es). hash_valid (se_url bse) \<and> entry_lookup st (se_url bse) = Some bse"
    using entries_current [OF inv _ U] mset_eq_setD [OF m] by blast
  have count: "hashmap_count (ss_entries st) = length ?es"
    using hashmap_entries_count [OF store_invD(1) [OF inv]] by simp
  obtain ret2 st2 w2 where 2: "evict_entries (qsort compar ?es) 0 st w1 = (ret2, st2, w2)"
    by (cases "evict_entries (qsort compar ?es) 0 st w1") auto
  note evicted = evict_entries_good [OF assms(2) U good1 apart cur 2]
  show ?thesis
  proof (cases ok)
    case True
    then have "st' = st2" "w' = world_free w2"
      using e False 1 2 count by (simp_all add: store_evict_def eviction_iterate)
    then show ?thesis
      using evicted good_cong [of st2 st2 "world_free w2" w2] by simp
  next
    case not_ok: False
    then show ?thesis
      using e False 1 good1 by (simp add: store_evict_def)
  qed
qed (use assms in \<open>simp add: store_evict_def\<close>)

end
