(* ===== verification/Fs_Cache_Props.thy ===== *)
theory Fs_Cache_Props
  imports Fs_Cache_Ops
begin

unbundle bit_operations_syntax

text \<open>
  Storing, fetching and releasing keep the promises of \<open>Fs_Cache\<close>, and the properties of the
  disc cache as a whole: along any history, whatever fails, a fetch that succeeds returns
  what was stored last.
\<close>

section \<open>System calls\<close>

lemma file_bytes_upd [simp]:
  "file_bytes (w\<lparr>w_files := (w_files w)(fname \<mapsto> bytes)\<rparr>) = (file_bytes w)(fname := bytes)"
  by (simp add: fun_eq_iff file_bytes_def)

lemma store_open_effect:
  assumes "store_open st i k creat w = (r, w')"
  shows "file_bytes w' = file_bytes w \<and> (r = None \<or> r = Some (fname_text (ss_path st) i k))"
proof (cases "with_mem (store_fname st i k) w")
  case (Pair name w1)
  have b1: "file_bytes w1 = file_bytes w"
    using with_mem_files [OF Pair] by simp
  show ?thesis
  proof (cases name)
    case None
    then show ?thesis using assms Pair b1 by (simp add: store_open_def)
  next
    case (Some fname)
    obtain io2 w2 where 2: "(if creat then io_next w1 else (IO_ok, w1)) = (io2, w2)"
      by (cases "if creat then io_next w1 else (IO_ok, w1)") auto
    have b2: "file_bytes w2 = file_bytes w1"
      using 2 by (cases creat) (auto dest: io_next_bytes)
    obtain io3 w3 where 3: "io_next w2 = (io3, w3)"
      by (cases "io_next w2")
    have b3: "file_bytes w3 = file_bytes w"
      using io_next_bytes [OF 3] b1 b2 by simp
    show ?thesis
      using assms Pair Some 2 3 b1 b2 b3 with_store_fname [of st i k w fname w1]
      by (auto simp: store_open_def split: if_splits)
  qed
qed

lemma nsu_pwrite_effect:
  assumes "nsu_pwrite fd data off w = (wr, w')"
  shows "(wr = None \<and> file_bytes w' = file_bytes w) \<or>
    (\<exists>n \<le> length data. wr = Some n \<and>
       file_bytes w' = (file_bytes w)(fd := put_bytes (file_bytes w fd) off (take n data)))"
proof (cases "io_next w")
  case (Pair io w1)
  have b: "file_bytes w1 = file_bytes w"
    by (rule io_next_bytes [OF Pair])
  show ?thesis
  proof (cases "io_count io (length data)")
    case None
    then show ?thesis
      using assms Pair b by (simp add: nsu_pwrite_def)
  next
    case (Some n)
    then have "n \<le> length data"
      by (cases io) (auto simp: io_count_def)
    then show ?thesis
      using assms Pair b Some by (auto simp: nsu_pwrite_def)
  qed
qed

lemma nsu_pread_effect:
  assumes "nsu_pread fd len off w = (r, w')"
  shows "file_bytes w' = file_bytes w \<and>
    (\<forall>bytes. r = Some bytes \<longrightarrow> (\<exists>n. bytes = take n (take len (drop off (file_bytes w fd)))))"
proof (cases "io_next w")
  case (Pair io w1)
  then show ?thesis
    using assms io_next_bytes [OF Pair] by (auto simp: nsu_pread_def Let_def)
qed

lemma open_block_file_effect:
  assumes o: "open_block_file st bf e w = (r, st', w')" and files: "files_inv (ss_path st) (ss_blocks st)"
    and bf: "bf < BLOCK_FILE_COUNT"
  shows "file_bytes w' = file_bytes w \<and> ss_entries st' = ss_entries st \<and> ss_path st' = ss_path st \<and>
    files_inv (ss_path st) (ss_blocks st') \<and> (\<forall>e' n. used (ss_blocks st' e') n \<longleftrightarrow> used (ss_blocks st e') n) \<and>
    (r = None \<or> r = Some (block_name (ss_path st) e bf))"
proof (cases "bf_fd (ss_blocks st e ! bf)")
  case (Some fd)
  then have "fd = block_name (ss_path st) e bf"
    using files bf by (simp add: files_inv_def)
  then show ?thesis
    using o files Some by (auto simp: open_block_file_def)
next
  case None
  obtain fd w1 where 1: "store_open st (word_of_nat bf) (elem_number e + ENTRY_ELEM_COUNT) True w = (fd, w1)"
    by (cases "store_open st (word_of_nat bf) (elem_number e + ENTRY_ELEM_COUNT) True w")
  note eff = store_open_effect [OF 1]
  show ?thesis
  proof (cases fd)
    case None
    then show ?thesis
      using o 1 eff \<open>bf_fd _ = None\<close> files by (simp add: open_block_file_def)
  next
    case (Some name)
    let ?fs = "ss_blocks st e"
    have len: "bf < length ?fs"
      using files bf by (simp add: files_inv_def blocks_wf_def)
    have name: "name = block_name (ss_path st) e bf"
      using eff Some by (simp add: block_name_def)
    have "blocks_wf (?fs[bf := (?fs ! bf)\<lparr>bf_fd := Some name\<rparr>])"
      using files len by (auto simp: files_inv_def blocks_wf_def all_set_conv_all_nth nth_list_update)
    moreover have used: "used (?fs[bf := (?fs ! bf)\<lparr>bf_fd := Some name\<rparr>]) n \<longleftrightarrow> used ?fs n" for n
      using len by (cases "n div 1024 = bf") (simp_all add: used_def nth_list_update)
    moreover have "fd = block_name (ss_path st) e i"
      if "i < BLOCK_FILE_COUNT" "bf_fd (?fs[bf := (?fs ! bf)\<lparr>bf_fd := Some name\<rparr>] ! i) = Some fd" for i fd
      using that files name len by (cases "i = bf") (simp_all add: files_inv_def)
    ultimately have "files_inv (ss_path st) ((ss_blocks st)(e := ?fs[bf := (?fs ! bf)\<lparr>bf_fd := Some name\<rparr>]))"
      using files by (simp add: files_inv_def)
    moreover have "st' = st\<lparr>ss_blocks := (ss_blocks st)(e := ?fs[bf := (?fs ! bf)\<lparr>bf_fd := Some name\<rparr>]),
        ss_blocks_opened := True\<rparr>" "r = Some name" "w' = w1"
      using o 1 \<open>bf_fd _ = None\<close> unfolding Some by (auto simp: open_block_file_def)
    ultimately show ?thesis
      using eff used name by simp
  qed
qed

lemma good_blocks:
  assumes "good U large G st w" and "ss_entries st' = ss_entries st" and "ss_path st' = ss_path st"
    and "files_inv (ss_path st) (ss_blocks st')" and "\<forall>e n. used (ss_blocks st' e) n \<longleftrightarrow> used (ss_blocks st e) n"
    and "file_bytes w' = file_bytes w"
  shows "good U large G st' w'"
proof -
  have "entry_inv U large (ss_blocks st') u x = entry_inv U large (ss_blocks st) u x" for u x
    using assms(5) by (simp add: entry_inv_def)
  moreover have "promise_ok g path w' e x = promise_ok g path w e x" for g path e x
    by (cases g) (simp_all add: promise_ok_def holds_def on_disc_def assms(6))
  ultimately show ?thesis
    using assms by (simp add: good_def store_inv_def coherent_def)
qed

section \<open>Storing\<close>

definition promise_upd ::
  "(nsurl \<Rightarrow> elem_idx \<Rightarrow> promise) \<Rightarrow> nsurl \<Rightarrow> elem_idx \<Rightarrow> promise \<Rightarrow> nsurl \<Rightarrow> elem_idx \<Rightarrow> promise" where
  "promise_upd G url e g = (\<lambda>u e'. if same_url url u \<and> e' = e then g else G u e')"

lemma promise_ok_Tainted [simp]: "promise_ok Tainted path w e x"
  by (simp add: promise_ok_def)

lemma good_written:
  assumes good: "good U large (promise_upd G url e Tainted) st w" and U: "urls_ok U" and url: "hash_valid url"
    and x: "entry_lookup st url = Some x" and wr: "writes_element (ss_path st) e x w w'"
  shows "good U large (promise_upd G url e Tainted) st w'"
proof -
  have inv: "store_inv U large st" and co: "coherent (promise_upd G url e Tainted) st w"
    using good by (simp_all add: good_def)
  note invD = store_invD [OF inv]
  have path: "ss_path st \<noteq> []"
    using invD(2) by (simp add: files_inv_def)
  have "promise_ok (promise_upd G url e Tainted u e') (ss_path st) w' e' y"
    if u: "hash_valid u" and y: "entry_lookup st u = Some y" for u y e'
  proof (cases "same_url url u \<and> e' = e")
    case False
    have old: "promise_ok (promise_upd G url e Tainted u e') (ss_path st) w e' y"
      using co u y by (simp add: coherent_def)
    show ?thesis
    proof (rule promise_frame [OF old])
      assume "length (on_disc (ss_path st) w e' y) = unat (el_size (elem e' y))"
      then show "on_disc (ss_path st) w' e' y = on_disc (ss_path st) w e' y"
        using False invD(4) [OF url u x y] wr
        by (intro on_disc_frame [OF U path invD(3) [OF url x] invD(3) [OF u y]]) auto
    qed
  qed (simp add: promise_upd_def)
  then show ?thesis
    using inv by (simp add: good_def coherent_def)
qed

lemma good_stored:
  assumes good: "good U large (promise_upd G url e Tainted) st w" and url: "hash_valid url"
    and x: "entry_lookup st url = Some x" and h: "holds (ss_path st) w e x data"
  shows "good U large (promise_upd G url e (Stored data)) st w"
proof -
  have inv: "store_inv U large st" and co: "coherent (promise_upd G url e Tainted) st w"
    using good by (simp_all add: good_def)
  have "promise_ok (promise_upd G url e (Stored data) u e') (ss_path st) w e' y"
    if u: "hash_valid u" and y: "entry_lookup st u = Some y" for u y e'
  proof (cases "same_url url u \<and> e' = e")
    case True
    then have "y = x"
      using lookup_cong [OF store_invD(1) [OF inv] _ url u] x y by simp
    then show ?thesis
      using True h by (simp add: promise_upd_def promise_ok_def)
  next
    case False
    then have "promise_upd G url e (Stored data) u e' = promise_upd G url e Tainted u e'"
      unfolding promise_upd_def by (simp only: if_False)
    then show ?thesis
      using co u y by (simp only: coherent_def)
  qed
  then show ?thesis
    using inv by (simp add: good_def coherent_def)
qed

lemma good_taint: "good U large G st w \<Longrightarrow> good U large (promise_upd G url e Tainted) st w"
  by (auto simp: good_def coherent_def promise_upd_def)

lemma inserted_value:
  assumes "entry_lookup st url = None"
    and "hashmap_insert entries_hashmap_parameters (ss_entries st) url m = (Some v, hm', m')"
  shows "se_url v = url \<and> (\<forall>e. elem e v = zero_element)"
proof -
  have "elem e \<lparr>se_url = url, se_last_used = t, se_use_count = n, se_flags = fl, se_data = z, se_meta = z\<rparr> = z"
    for e t n fl z
    by (cases e) (simp_all add: elem_def)
  then show ?thesis
    using assms
    by (auto simp: hashmap_insert_def hashmap_lookup_def Let_def entries_hashmap_parameters_def
        entries_hashmap_value_alloc_def split: option.splits prod.splits if_splits)
qed

lemma find_or_insert_good:
  assumes good: "good U large G st w" and U: "urls_ok U" "url \<in> U"
    and f: "find_or_insert st url w = (r, st', w')"
  shows "good U large G st' w' \<and> ss_path st' = ss_path st \<and> (\<forall>se. r = Some se \<longrightarrow> entry_lookup st' url = Some se)"
proof (cases "entry_lookup st url")
  case (Some se)
  then show ?thesis
    using f good by (simp add: find_or_insert_def)
next
  case None
  have inv: "store_inv U large st" and co: "coherent G st w"
    using good by (simp_all add: good_def)
  note invD = store_invD [OF inv]
  have url: "hash_valid url"
    using U by (simp add: urls_ok_def)
  obtain m' entries' where ins: "hashmap_insert entries_hashmap_parameters (ss_entries st) url (w_mem w) = (r, entries', m')"
    and st': "st' = st\<lparr>ss_entries := entries'\<rparr>" "w' = w\<lparr>w_mem := m'\<rparr>"
    using f None by (auto simp: find_or_insert_def split: prod.splits)
  then have i: "hashmap_insert entries_hashmap_parameters (ss_entries st) url (w_mem w) = (r, ss_entries st', m')"
    and fields: "ss_path st' = ss_path st" "ss_blocks st' = ss_blocks st"
    by simp_all
  show ?thesis
  proof (cases r)
    case None
    then have "ss_entries st' = ss_entries st"
      using entries.ins_fail [OF invD(1) url] i by blast
    then show ?thesis
      using None good good_cong [of st' st w' w] fields st'(2) by simp
  next
    case (Some v)
    have look: "entry_lookup st' u = (if same_url url u then Some v else entry_lookup st u)" if "hash_valid u" for u
      using entries.ins_lookup [OF invD(1) url that] i Some by simp
    have v: "se_url v = url" "elem e v = zero_element" for e
      using inserted_value [OF None] i Some by blast+
    have "hashmap_inv hash_valid entries_hashmap_parameters (ss_entries st')"
      using entries.ins_inv [OF invD(1) url i] .
    moreover have "entry_inv U large (ss_blocks st') u x" if "hash_valid u" "entry_lookup st' u = Some x" for u x
    proof (cases "same_url url u")
      case True
      then show ?thesis
        using that look [OF that(1)] v U same_url_sym [OF True] by (simp add: entry_inv_def zero_element_def)
    next
      case False
      then show ?thesis
        using that look [OF that(1)] invD(3) [OF that(1), of x] fields by simp
    qed
    moreover have "same_url u u'"
      if u: "hash_valid u" "hash_valid u'" "entry_lookup st' u = Some x" "entry_lookup st' u' = Some x'"
        "el_block (elem e x) \<noteq> 0" "el_block (elem e x) = el_block (elem e x')" for u u' x x' e
    proof -
      have "el_block (elem e v) = 0"
        by (simp add: v(2) zero_element_def)
      then have "x \<noteq> v" "x' \<noteq> v"
        using u(5,6) by auto
      then have "entry_lookup st u = Some x" "entry_lookup st u' = Some x'"
        using u(3,4) look [OF u(1)] look [OF u(2)] by (auto split: if_splits)
      then show ?thesis
        using invD(4) [OF u(1,2)] u(5,6) by blast
    qed
    ultimately have "store_inv U large st'"
      unfolding store_inv_def fields using invD(2) by blast
    moreover have "coherent G st' w'"
      unfolding coherent_def
    proof (intro allI impI)
      fix u x e
      assume u: "hash_valid u" and x: "entry_lookup st' u = Some x"
      show "promise_ok (G u e) (ss_path st') w' e x"
      proof (cases "same_url url u")
        case True
        then show ?thesis
          using x look [OF u] v(2) [of e] by (cases "G u e") (simp_all add: promise_ok_def zero_element_def)
      next
        case False
        then have "promise_ok (G u e) (ss_path st) w e x"
          using x look [OF u] co u by (simp add: coherent_def)
        moreover have "on_disc (ss_path st) w' e x = on_disc (ss_path st) w e x"
          unfolding on_disc_def st'(2) by simp
        ultimately show ?thesis
          unfolding fields by (rule promise_frame)
      qed
    qed
    ultimately show ?thesis
      using fields look [OF url] Some by (simp add: good_def)
  qed
qed

text \<open>The block that storing picks: none, or one that was free.\<close>

lemma pick_block:
  assumes inv: "store_inv U large st" and url: "hash_valid url" and se: "entry_lookup st url = Some se"
    and len: "length data < 2 ^ 32" and fits: "large url e \<longleftrightarrow> 2 ^ 13 < length data"
    and st1: "ss_blocks st1 = ss_blocks st" "ss_path st1 = ss_path st" "ss_entries st1 = ss_entries st"
    and pick: "(if (of_nat (length data) :: 32 word) \<le> push_bit (log2_block_size e) 1 then alloc_block st1 e
       else (el_block (elem e se), st1)) = (block, st2)"
  shows "ss_entries st2 = ss_entries st \<and> ss_path st2 = ss_path st \<and> files_inv (ss_path st) (ss_blocks st2) \<and>
    (\<forall>e' n. used (ss_blocks st e') n \<longrightarrow> used (ss_blocks st2 e') n) \<and>
    (block \<noteq> 0 \<longrightarrow> unat block < BLOCKS \<and> used (ss_blocks st2 e) (unat block) \<and> \<not> used (ss_blocks st e) (unat block) \<and>
      length data \<le> 2 ^ 13)"
proof -
  note invD = store_invD [OF inv]
  have "(of_nat (length data) :: 32 word) \<le> 2 ^ 13 \<longleftrightarrow> length data \<le> 2 ^ 13"
    using len by (simp add: word_le_nat_alt unat_of_nat)
  then have small: "(of_nat (length data) :: 32 word) \<le> push_bit (log2_block_size e) 1 \<longleftrightarrow> length data \<le> 2 ^ 13"
    by simp
  show ?thesis
  proof (cases "length data \<le> 2 ^ 13")
    case True
    then have a: "alloc_block st1 e = (block, st2)"
      using pick small by simp
    have wf: "blocks_wf (ss_blocks st1 e)"
      using invD(2) st1 by (simp add: files_inv_def)
    from wf a show ?thesis
    proof (cases rule: alloc_block_cases)
      case full
      then show ?thesis using invD(2) st1 by simp
    next
      case (found n)
      let ?fs = "set_byte (ss_blocks st e) n (byte_of (ss_blocks st e) n OR push_bit (n mod 8) 1)"
      have "files_inv (ss_path st) ((ss_blocks st)(e := ?fs))"
        using invD(2) by (simp add: files_inv_def set_byte_wf set_byte_fd)
      moreover have "used ?fs m \<longleftrightarrow> used (ss_blocks st e) m \<or> m = n" for m
        using take_block [OF wf found(1)] st1 by simp
      ultimately show ?thesis
        using found True st1 by (simp del: push_bit_of_1)
    qed
  next
    case False
    then have "large url e"
      using fits by simp
    then have "el_block (elem e se) = 0"
      using invD(3) [OF url se] by (auto simp: entry_inv_def)
    then show ?thesis
      using pick small False invD(2) st1 by simp
  qed
qed

lemma heap_flag_set: "(f OR ENTRY_ELEM_FLAG_HEAP) AND ENTRY_ELEM_FLAG_HEAP \<noteq> (0 :: 8 word)"
proof -
  have "bit ((f OR ENTRY_ELEM_FLAG_HEAP) AND ENTRY_ELEM_FLAG_HEAP) 0"
    by (simp add: ENTRY_ELEM_FLAG_HEAP_def bit_simps)
  then show ?thesis by force
qed

lemma heap_flag_cleared: "(f AND NOT ENTRY_ELEM_FLAG_HEAP) AND ENTRY_ELEM_FLAG_HEAP = (0 :: 8 word)"
  by (rule bit_eqI) (auto simp: bit_simps)

lemma set_element_good:
  assumes good: "good U large G st w" and large: "large_ok large" and url: "hash_valid url"
    and se: "entry_lookup st url = Some se"
    and len: "length data < 2 ^ 32" and fits: "large url e \<longleftrightarrow> 2 ^ 13 < length data"
    and set: "set_element e data now se st = (se', st3)"
    and st': "st' = (write_entry_at url (\<lambda>_. se') st3)\<lparr>ss_entries_dirty := True\<rparr>"
  shows "good U large (promise_upd G url e Tainted) st' w \<and> entry_lookup st' url = Some se' \<and>
    ss_path st' = ss_path st \<and> unat (el_size (elem e se')) = length data \<and> el_data (elem e se') = data \<and>
    (el_block (elem e se') \<noteq> 0 \<longrightarrow> unat (el_block (elem e se')) < BLOCKS)"
proof -
  have inv: "store_inv U large st" and co: "coherent G st w"
    using good by (simp_all add: good_def)
  note invD = store_invD [OF inv]
  let ?size = "of_nat (length data) :: 32 word"
  let ?st1 = "st\<lparr>ss_total_alloc := ss_total_alloc st - ucast (el_size (elem e se)) + ucast ?size\<rparr>"
  obtain block st2 where pick: "(if ?size \<le> push_bit (log2_block_size e) 1 then alloc_block ?st1 e
       else (el_block (elem e se), ?st1)) = (block, st2)"
    by (cases "if ?size \<le> push_bit (log2_block_size e) 1 then alloc_block ?st1 e else (el_block (elem e se), ?st1)") auto
  let ?el = "\<lparr>el_data = data, el_size = ?size, el_block = block, el_ref = 1,
    el_flags = el_flags (elem e se) OR ENTRY_ELEM_FLAG_HEAP\<rparr>"
  have st3: "st3 = st2" and se': "se' = elem_update e (\<lambda>_. ?el) (se\<lparr>se_use_count := 1, se_last_used := now\<rparr>)"
    using set pick by (simp_all add: set_element_def Let_def)
  note picked = pick_block [OF inv url se len fits _ _ _ pick, simplified]
  have elem': "elem e' se' = (if e' = e then ?el else elem e' se)" "se_url se' = se_url se" for e'
    by (simp_all add: se')
  have size: "unat ?size = length data"
    using len by (simp add: unat_of_nat)
  have entries: "ss_entries st' = ss_entries (write_entry_at url (\<lambda>_. se') st)"
    using picked by (simp add: st' st3 write_entry_at_def)
  have fields: "ss_path st' = ss_path st" "ss_blocks st' = ss_blocks st2"
    using picked by (simp_all add: st' st3)
  have "store_inv U large st'"
  proof (rule store_inv_write [OF inv url se entries fields(1)])
    show "files_inv (ss_path st) (ss_blocks st')"
      using picked by (simp add: fields)
  next
    fix e' n
    assume "used (ss_blocks st e') n"
    then show "used (ss_blocks st' e') n"
      using picked by (simp add: fields)
  next
    fix u
    assume u: "same_url u url"
    have old: "entry_inv U large (ss_blocks st) url se"
      by (rule invD(3) [OF url se])
    have "large u = large url"
      using large u by (simp add: large_ok_def)
    then show "entry_inv U large (ss_blocks st') u se'"
      using old picked fits size same_url_trans [OF u, of "se_url se"]
      unfolding entry_inv_def elem' fields by auto
  next
    fix e'
    assume "el_block (elem e' se') \<noteq> 0"
    then show "el_block (elem e' se') = el_block (elem e' se) \<or> \<not> used (ss_blocks st e') (unat (el_block (elem e' se')))"
      using picked by (auto simp: elem')
  qed
  moreover have look: "entry_lookup st' u = (if same_url url u then Some se' else entry_lookup st u)" if "hash_valid u" for u
    using lookup_write [OF invD(1) url that, of "\<lambda>_. se'"] by (simp add: entries se)
  have "promise_ok (promise_upd G url e Tainted u e') (ss_path st) w e' y"
    if u: "hash_valid u" and y: "entry_lookup st' u = Some y" for u y e'
  proof (cases "same_url url u")
    case True
    have "promise_ok (G u e') (ss_path st) w e' se"
      using co u lookup_cong [OF invD(1) True url u] se by (simp add: coherent_def)
    then have "promise_ok (G u e') (ss_path st) w e' se'" if "e' \<noteq> e"
      using that elem' by (simp add: promise_same_element [of e' se' se])
    then show ?thesis
      using True y look [OF u] by (simp add: promise_upd_def)
  next
    case False
    then show ?thesis
      using y look [OF u] co u by (simp add: promise_upd_def coherent_def)
  qed
  ultimately show ?thesis
    using look [OF url] fields elem' size picked by (simp add: good_def coherent_def)
qed

text \<open>Writing an element out: only its place is written, and a write that succeeds is complete.\<close>

lemma write_at_element:
  assumes "nsu_pwrite (elem_file path e x) (element_bytes (elem e x)) (elem_offset e x) w = (wr, w')"
  shows "writes_element path e x w w'"
    and "wr = Some (unat (el_size (elem e x))) \<Longrightarrow> on_disc path w' e x = element_bytes (elem e x)"
proof -
  let ?data = "element_bytes (elem e x)"
  have len: "length ?data \<le> unat (el_size (elem e x))"
    by (simp add: element_bytes_def)
  show "writes_element path e x w w'"
    using nsu_pwrite_effect [OF assms]
  proof
    assume "\<exists>n \<le> length ?data. wr = Some n \<and> file_bytes w' = (file_bytes w)(elem_file path e x :=
        put_bytes (file_bytes w (elem_file path e x)) (elem_offset e x) (take n ?data))"
    then obtain n where n: "n \<le> length ?data" "file_bytes w' = (file_bytes w)(elem_file path e x :=
        put_bytes (file_bytes w (elem_file path e x)) (elem_offset e x) (take n ?data))"
      by blast
    moreover have "length (take n ?data) \<le> unat (el_size (elem e x))"
      using n(1) len by simp
    ultimately show ?thesis
      unfolding writes_element_def fun_upd_apply by metis
  qed (simp add: writes_element_def)
  show "on_disc path w' e x = ?data" if "wr = Some (unat (el_size (elem e x)))"
  proof -
    have "unat (el_size (elem e x)) = length ?data"
      "file_bytes w' (elem_file path e x) = put_bytes (file_bytes w (elem_file path e x)) (elem_offset e x) ?data"
      using nsu_pwrite_effect [OF assms] that len by auto
    then show ?thesis
      using put_bytes_read [of ?data] by (simp add: on_disc_def)
  qed
qed

lemma store_write_block_good:
  assumes good: "good U large (promise_upd G url e Tainted) st w" and U: "urls_ok U" and url: "hash_valid url"
    and x: "entry_lookup st url = Some x" and block: "el_block (elem e x) \<noteq> 0"
    and wr: "store_write_block st x e w = (ret, st', w')"
  shows "good U large (promise_upd G url e Tainted) st' w' \<and> ss_path st' = ss_path st \<and> entry_lookup st' url = Some x \<and>
    (ret = NSERROR_OK \<and> on_disc (ss_path st) w' e x = element_bytes (elem e x) \<or> ret = NSERROR_SAVE_FAILED)"
proof -
  let ?bf = "block_file_of (el_block (elem e x))"
  have inv: "store_inv U large st"
    using good by (simp add: good_def)
  have bf: "?bf < BLOCK_FILE_COUNT"
    using store_invD(3) [OF inv url x] block by (simp add: entry_inv_def block_file_less)
  obtain fd st1 w1 where 1: "open_block_file st ?bf e w = (fd, st1, w1)"
    by (cases "open_block_file st ?bf e w") auto
  note eff = open_block_file_effect [OF 1 store_invD(2) [OF inv] bf]
  have good1: "good U large (promise_upd G url e Tainted) st1 w1"
    using eff by (intro good_blocks [OF good]) simp_all
  show ?thesis
  proof (cases fd)
    case None
    then show ?thesis
      using wr 1 good1 eff x by (simp add: store_write_block_def Let_def)
  next
    case (Some name)
    then have name: "name = elem_file (ss_path st) e x"
      using eff block by (simp add: elem_file_def)
    have off: "block_offset e (el_block (elem e x)) = elem_offset e x"
      using block by (simp add: elem_offset_def)
    obtain n w2 where 2: "nsu_pwrite name (element_bytes (elem e x)) (elem_offset e x) w1 = (n, w2)"
      by (cases "nsu_pwrite name (element_bytes (elem e x)) (elem_offset e x) w1")
    note written = write_at_element [OF 2 [unfolded name]]
    have res: "st' = st1" "w' = w2" "ret = (if n \<noteq> Some (unat (el_size (elem e x))) then NSERROR_SAVE_FAILED else NSERROR_OK)"
      using wr 1 Some 2 off by (simp_all add: store_write_block_def Let_def)
    have "good U large (promise_upd G url e Tainted) st1 w2"
      using written(1) eff x by (intro good_written [OF good1 U url]) simp_all
    then show ?thesis
      using res written(2) eff x by simp
  qed
qed

lemma store_write_file_good:
  assumes good: "good U large (promise_upd G url e Tainted) st w" and U: "urls_ok U" and url: "hash_valid url"
    and x: "entry_lookup st url = Some x" and block: "el_block (elem e x) = 0"
    and wr: "store_write_file st x e w = (ret, w')"
  shows "good U large (promise_upd G url e Tainted) st w' \<and>
    (ret = NSERROR_OK \<and> on_disc (ss_path st) w' e x = element_bytes (elem e x) \<or> ret = NSERROR_SAVE_FAILED)"
proof -
  obtain fd w1 where 1: "store_open st (nsurl_hash (se_url x)) (elem_number e) True w = (fd, w1)"
    by (cases "store_open st (nsurl_hash (se_url x)) (elem_number e) True w")
  note eff = store_open_effect [OF 1]
  have good1: "good U large (promise_upd G url e Tainted) st w1"
    using good good_cong [of st st w1 w] eff by simp
  show ?thesis
  proof (cases fd)
    case None
    then show ?thesis
      using wr 1 good1 by (simp add: store_write_file_def)
  next
    case (Some name)
    then have name: "name = elem_file (ss_path st) e x"
      using eff block by (simp add: elem_file_def)
    have off: "elem_offset e x = 0"
      using block by (simp add: elem_offset_def)
    obtain n w2 where 2: "nsu_pwrite name (element_bytes (elem e x)) (elem_offset e x) w1 = (n, w2)"
      by (cases "nsu_pwrite name (element_bytes (elem e x)) (elem_offset e x) w1")
    note written = write_at_element [OF 2 [unfolded name]]
    have res: "w' = w2" "ret = (if n \<noteq> Some (unat (el_size (elem e x))) then NSERROR_SAVE_FAILED else NSERROR_OK)"
      using wr 1 Some 2 off by (simp_all add: store_write_file_def)
    have "good U large (promise_upd G url e Tainted) st w2"
      by (rule good_written [OF good1 U url x written(1)])
    then show ?thesis
      using res written(2) by simp
  qed
qed

text \<open>What a history of answers promises after a store.\<close>

definition promise_stored ::
  "(nsurl \<Rightarrow> elem_idx \<Rightarrow> promise) \<Rightarrow> nsurl \<Rightarrow> elem_idx \<Rightarrow> 8 word list \<Rightarrow> nserror \<Rightarrow> nsurl \<Rightarrow> elem_idx \<Rightarrow> promise" where
  "promise_stored G url e data ret =
     (if ret = NSERROR_OK then promise_upd G url e (Stored data)
      else if ret = NSERROR_SAVE_FAILED then promise_upd G url e Tainted else G)"

lemma promise_stored_bad:
  "good U large G st w \<Longrightarrow> ret \<noteq> NSERROR_OK \<Longrightarrow> good U large (promise_stored G url e data ret) st w"
  by (simp add: promise_stored_def good_taint)

lemma store_good:
  assumes good: "good U large G st w" and large: "large_ok large" and U: "urls_ok U" "url \<in> U" and sorts: "sorts qsort"
    and len: "length data < 2 ^ 32" and fits: "large url (element_index flags) \<longleftrightarrow> 2 ^ 13 < length data"
    and s: "store qsort st url flags data w = (ret, st', w')"
  shows "good U large (promise_stored G url (element_index flags) data ret) st' w' \<and> ss_path st' = ss_path st"
proof -
  let ?e = "element_index flags"
  have url: "hash_valid url"
    using U by (simp add: urls_ok_def)
  obtain ret1 st1 w1 where 1: "store_evict qsort st w = (ret1, st1, w1)"
    by (cases "store_evict qsort st w") auto
  note evict = store_evict_good [OF good large U(1) sorts 1]
  obtain r2 st2 w2 where 2: "find_or_insert st1 url w1 = (r2, st2, w2)"
    by (cases "find_or_insert st1 url w1") auto
  note found = find_or_insert_good [OF conjunct1 [OF evict] U 2]
  consider (evict) "ret1 \<noteq> NSERROR_OK" | (insert) "ret1 = NSERROR_OK" "r2 = None"
    | (in_use) se where "ret1 = NSERROR_OK" "r2 = Some se" "in_use (elem ?e se)"
    | (set) se where "ret1 = NSERROR_OK" "r2 = Some se" "\<not> in_use (elem ?e se)"
    by (cases r2) auto
  then show ?thesis
  proof cases
    case evict
    then show ?thesis
      using s 1 \<open>good U large G st1 w1 \<and> _\<close> by (simp add: store_def set_store_entry_def promise_stored_bad)
  next
    case insert
    then show ?thesis
      using s 1 2 evict found by (simp add: store_def set_store_entry_def promise_stored_bad)
  next
    case in_use
    then show ?thesis
      using s 1 2 evict found by (simp add: store_def set_store_entry_def promise_stored_bad)
  next
    case (set se)
    obtain se' st3 where 3: "set_element ?e data (w_now w2) se st2 = (se', st3)"
      by (cases "set_element ?e data (w_now w2) se st2")
    let ?st4 = "(write_entry_at url (\<lambda>_. se') st3)\<lparr>ss_entries_dirty := True\<rparr>"
    have se: "entry_lookup st2 url = Some se"
      using found set(2) by simp
    note was_set = set_element_good [OF conjunct1 [OF found] large url se len fits 3 refl]
    have data: "element_bytes (elem ?e se') = data"
      using was_set by (simp add: element_bytes_def)
    have holds: "holds (ss_path st2) w ?e se' data" if "on_disc (ss_path st2) w ?e se' = element_bytes (elem ?e se')" for w
      using was_set that data by (simp add: holds_def)
    have set_entry: "set_store_entry qsort st url ?e data w = (Inr se', ?st4, w2)"
      using 1 2 3 set by (simp add: set_store_entry_def)
    show ?thesis
    proof (cases "el_block (elem ?e se') = 0")
      case False
      then have wr: "store_write_block ?st4 se' ?e w2 = (ret, st', w')"
        using s set_entry by (simp add: store_def Let_def)
      note written = store_write_block_good [OF conjunct1 [OF was_set] U(1) url _ False wr]
      show ?thesis
        using written was_set good_stored [OF conjunct1 [OF written] url, of se' data] holds [of w'] evict found
        by (auto simp: promise_stored_def)
    next
      case True
      obtain w3 where wr: "store_write_file ?st4 se' ?e w2 = (ret, w3)" and res: "st' = ?st4" "w' = w3"
        using s set_entry True by (auto simp: store_def Let_def split: prod.splits)
      note written = store_write_file_good [OF conjunct1 [OF was_set] U(1) url _ True wr]
      show ?thesis
        using written was_set good_stored [OF conjunct1 [OF written] url, of se' data] holds [of w'] evict found
        unfolding res by (auto simp: promise_stored_def)
    qed
  qed
qed

section \<open>Fetching and releasing\<close>

lemma write_entry_const:
  "entry_lookup st url = Some x \<Longrightarrow> write_entry_at url f st = write_entry_at url (\<lambda>_. f x) st"
  by (simp add: write_entry_at_def hashmap_modify_def hashmap_lookup_def Let_def split: option.splits)

lemma entry_keepsI:
  assumes "se_url y = se_url x"
    and "\<And>e. el_block (elem e y) = el_block (elem e x) \<and> el_size (elem e y) = el_size (elem e x)"
    and "\<And>e. el_flags (elem e y) AND ENTRY_ELEM_FLAG_HEAP \<noteq> 0 \<Longrightarrow>
      el_flags (elem e x) AND ENTRY_ELEM_FLAG_HEAP \<noteq> 0 \<and> el_data (elem e y) = el_data (elem e x)"
  shows "entry_keeps path w x w y"
proof -
  have disc: "on_disc path w e y = on_disc path w e x" for e
    using assms(1,2) by (simp add: on_disc_def elem_file_def elem_offset_def)
  have "promise_ok g path w e y" if "promise_ok g path w e x" for g e
    using that assms(2,3) [of e] disc [of e] by (cases g) (auto simp: promise_ok_def holds_def)
  then show ?thesis
    using assms(1,2) by (simp add: entry_keeps_def)
qed

lemma entry_release_alloc_keeps:
  assumes "entry_release_alloc el m = (el', m')"
  shows "el_block el' = el_block el \<and> el_size el' = el_size el \<and> el_data el' = el_data el \<and>
    (el_flags el' AND ENTRY_ELEM_FLAG_HEAP \<noteq> 0 \<longrightarrow> el_flags el AND ENTRY_ELEM_FLAG_HEAP \<noteq> 0)"
  using assms heap_flag_cleared by (auto simp: entry_release_alloc_def Let_def split: if_splits)

lemma release_element_good:
  assumes good: "good U large G st w" and large: "large_ok large" and url: "hash_valid url"
    and x: "entry_lookup st url = Some x" and r: "release_element url e x st w = (y, st', w')"
  shows "good U large G st' w' \<and> entry_lookup st' url = Some y \<and> se_url y = se_url x \<and> ss_path st' = ss_path st"
proof -
  obtain el m where el: "entry_release_alloc (elem e x) (w_mem w) = (el, m)"
    by (cases "entry_release_alloc (elem e x) (w_mem w)")
  have res: "y = elem_update e (\<lambda>_. el) x" "st' = write_entry_at url (\<lambda>_. y) st" "w' = w\<lparr>w_mem := m\<rparr>"
    using r el by (auto simp: release_element_def Let_def)
  have inv: "hashmap_inv hash_valid entries_hashmap_parameters (ss_entries st)"
    using good by (simp add: good_def store_inv_def)
  have "entry_keeps (ss_path st) w x w y"
    using entry_release_alloc_keeps [OF el] by (intro entry_keepsI) (auto simp: res(1) split: if_splits)
  then have "good U large G (write_entry_at url (\<lambda>_. y) st) w"
    by (rule good_write [OF good large url x])
  then have "good U large G st' w'"
    using good_cong [of st' st' w' w] by (simp add: res(2,3))
  moreover have "entry_lookup st' url = Some y"
    using lookup_write [OF inv url url, of "\<lambda>_. y"] x by (simp add: res(2))
  ultimately show ?thesis
    by (simp add: res(1,2))
qed

text \<open>Reading an element gives the bytes at its place.\<close>

lemma read_loop_reads:
  "read_loop fd len acc w = (r, w') \<Longrightarrow> acc = take (length acc) (file_bytes w fd) \<Longrightarrow> length acc \<le> len \<Longrightarrow>
     file_bytes w' = file_bytes w \<and> (\<forall>bytes. r = Inr bytes \<longrightarrow> bytes = take len (file_bytes w fd) \<and> length bytes = len)"
proof (induction fd len acc w rule: read_loop.induct)
  case (1 fd len acc w)
  show ?case
  proof (cases "length acc < len")
    case False
    then show ?thesis
      using 1(2-4) by (auto simp: read_loop.simps [of fd len acc w])
  next
    case True
    obtain r1 w1 where p: "nsu_pread fd (len - length acc) (length acc) w = (r1, w1)"
      by (cases "nsu_pread fd (len - length acc) (length acc) w")
    note eff = nsu_pread_effect [OF p]
    show ?thesis
    proof (cases r1)
      case None
      then show ?thesis
        using 1(2) True p eff by (auto simp: read_loop.simps [of fd len acc w])
    next
      case (Some bytes)
      then obtain n where n: "bytes = take n (take (len - length acc) (drop (length acc) (file_bytes w fd)))"
        using eff by blast
      show ?thesis
      proof (cases "bytes = []")
        case True
        then show ?thesis
          using 1(2) \<open>length acc < len\<close> p eff Some by (auto simp: read_loop.simps [of fd len acc w])
      next
        case False
        then have rec: "read_loop fd len (acc @ bytes) w1 = (r, w')"
          using 1(2) True p Some by (simp add: read_loop.simps [of fd len acc w])
        have prefix: "take (length (take k xs)) xs = take k xs" for k and xs :: "8 word list"
          by (simp add: min_def)
        have "bytes = take (min n (len - length acc)) (drop (length acc) (file_bytes w fd))"
          unfolding n by simp
        then have joined: "acc @ bytes = take (length acc + min n (len - length acc)) (file_bytes w fd)"
          unfolding take_add 1(3) [symmetric] by (rule arg_cong)
        have same: "file_bytes w1 = file_bytes w"
          using eff by blast
        have "acc @ bytes = take (length (acc @ bytes)) (file_bytes w1 fd)"
          unfolding same joined by (rule prefix [symmetric])
        note prefix_read = this
        have "length bytes \<le> len - length acc"
          unfolding n by simp
        then have "length (acc @ bytes) \<le> len"
          using 1(4) by simp
        from 1(1) [OF True p [symmetric] Some False rec prefix_read this] show ?thesis
          unfolding same .
      qed
    qed
  qed
qed

lemma store_read_block_reads:
  assumes good: "good U large G st w" and url: "hash_valid url" and x: "entry_lookup st url = Some x"
    and block: "el_block (elem e x) \<noteq> 0" and r: "store_read_block st x e w = (r, st', w')"
  shows "good U large G st' w' \<and> file_bytes w' = file_bytes w \<and> ss_entries st' = ss_entries st \<and> ss_path st' = ss_path st \<and>
    (\<forall>bytes. r = Inr bytes \<longrightarrow> bytes = on_disc (ss_path st) w e x \<and> length bytes = unat (el_size (elem e x)))"
proof -
  let ?bf = "block_file_of (el_block (elem e x))"
  have inv: "store_inv U large st"
    using good by (simp add: good_def)
  have bf: "?bf < BLOCK_FILE_COUNT"
    using store_invD(3) [OF inv url x] block by (simp add: entry_inv_def block_file_less)
  obtain fd st1 w1 where 1: "open_block_file st ?bf e w = (fd, st1, w1)"
    by (cases "open_block_file st ?bf e w") auto
  note eff = open_block_file_effect [OF 1 store_invD(2) [OF inv] bf]
  show ?thesis
  proof (cases fd)
    case None
    then show ?thesis
      using r 1 eff good_blocks [OF good, of st1 w1] by (auto simp: store_read_block_def Let_def)
  next
    case (Some name)
    then have name: "name = elem_file (ss_path st) e x" "block_offset e (el_block (elem e x)) = elem_offset e x"
      using eff block by (simp_all add: elem_file_def elem_offset_def)
    obtain q w2 where 2: "nsu_pread name (unat (el_size (elem e x))) (elem_offset e x) w1 = (q, w2)"
      by (cases "nsu_pread name (unat (el_size (elem e x))) (elem_offset e x) w1")
    note eff2 = nsu_pread_effect [OF 2]
    have "good U large G st1 w2"
      using eff eff2 by (intro good_blocks [OF good]) simp_all
    moreover have "bytes = on_disc (ss_path st) w e x"
      if "q = Some bytes" "length bytes = unat (el_size (elem e x))" for bytes
      using eff eff2 that name(1) by (auto simp: on_disc_def)
    moreover have "st' = st1 \<and> w' = w2 \<and> (\<forall>bytes. r = Inr bytes \<longrightarrow> q = Some bytes \<and> length bytes = unat (el_size (elem e x)))"
      using r 1 Some 2 name(2) by (auto simp: store_read_block_def Let_def split: option.splits if_splits)
    ultimately show ?thesis
      using eff eff2 by simp
  qed
qed

lemma store_read_file_reads:
  assumes block: "el_block (elem e x) = 0" and r: "store_read_file st x e w = (r, w')"
  shows "file_bytes w' = file_bytes w \<and>
    (\<forall>bytes. r = Inr bytes \<longrightarrow> bytes = on_disc (ss_path st) w e x \<and> length bytes = unat (el_size (elem e x)))"
proof -
  obtain fd w1 where 1: "store_open st (nsurl_hash (se_url x)) (elem_number e) False w = (fd, w1)"
    by (cases "store_open st (nsurl_hash (se_url x)) (elem_number e) False w")
  note eff = store_open_effect [OF 1]
  show ?thesis
  proof (cases fd)
    case None
    then show ?thesis
      using r 1 eff by (auto simp: store_read_file_def)
  next
    case (Some name)
    then have name: "name = elem_file (ss_path st) e x" "elem_offset e x = 0"
      using eff block by (simp_all add: elem_file_def elem_offset_def)
    have "read_loop name (unat (el_size (elem e x))) [] w1 = (r, w')"
      using r 1 Some by (simp add: store_read_file_def)
    from read_loop_reads [OF this] show ?thesis
      using eff name by (simp add: on_disc_def)
  qed
qed

definition serves :: "promise \<Rightarrow> 8 word list \<Rightarrow> bool" where
  "serves g bytes = (case g of Never \<Rightarrow> bytes = [] | Tainted \<Rightarrow> True | Stored data \<Rightarrow> bytes = [] \<or> bytes = data)"

lemma promise_serves_memory:
  assumes "promise_ok g path w e x" and "el_flags (elem e x) AND ENTRY_ELEM_FLAG_HEAP \<noteq> 0"
  shows "serves g (element_bytes (elem e x))"
  using assms by (cases g) (auto simp: promise_ok_def holds_def serves_def element_bytes_def)

lemma promise_serves_disc:
  assumes "promise_ok g path w e x"
  shows "serves g (on_disc path w e x)"
  using assms by (cases g) (auto simp: promise_ok_def holds_def serves_def on_disc_def)

text \<open>A fetch that has to read: the entry is marked in use, read, and completed or released.\<close>

lemma fetch_read_good:
  assumes good: "good U large G st w" and large: "large_ok large" and url: "hash_valid url"
    and x: "entry_lookup st url = Some x"
    and y: "y = elem_update e (\<lambda>el. el\<lparr>el_flags := el_flags el OR ENTRY_ELEM_FLAG_HEAP, el_ref := 1\<rparr>) x"
    and read: "(if el_block (elem e x) \<noteq> 0 then store_read_block (write_entry_at url (\<lambda>_. y) st) y e w
       else (case store_read_file (write_entry_at url (\<lambda>_. y) st) y e w of
               (r, w2) \<Rightarrow> (r, write_entry_at url (\<lambda>_. y) st, w2))) = (r, st4, w2)"
  shows "case r of
      Inl ret \<Rightarrow> (\<forall>z st5 w3. release_element url e y st4 w2 = (z, st5, w3) \<longrightarrow>
        good U large G st5 w3 \<and> ss_path st5 = ss_path st)
    | Inr bytes \<Rightarrow> bytes = on_disc (ss_path st) w e x \<and>
        good U large G (write_entry_at url (elem_update e (\<lambda>el. el\<lparr>el_data := bytes\<rparr>)) st4) w2 \<and> ss_path st4 = ss_path st"
proof -
  let ?st3 = "write_entry_at url (\<lambda>_. y) st"
  have inv: "store_inv U large st" and co: "coherent G st w"
    using good by (simp_all add: good_def)
  have inv0: "hashmap_inv hash_valid entries_hashmap_parameters (ss_entries st)"
    using store_invD(1) [OF inv] .
  have y': "se_url y = se_url x" "el_block (elem e' y) = el_block (elem e' x)" "el_size (elem e' y) = el_size (elem e' x)"
      "el_flags (elem e y) = el_flags (elem e x) OR ENTRY_ELEM_FLAG_HEAP" "e' \<noteq> e \<Longrightarrow> elem e' y = elem e' x"
      "el_ref (elem e y) = 1" for e'
    by (simp_all add: y)
  have disc: "on_disc path w e' y = on_disc path w e' x" for path w e'
    using y' by (simp add: on_disc_def elem_file_def elem_offset_def)
  have tainted: "good U large (promise_upd G url e Tainted) ?st3 w"
  proof (rule good_rewrite [OF good large url x])
    fix u e'
    assume "hash_valid u" "same_url url u" "promise_ok (G u e') (ss_path st) w e' x"
    then show "promise_ok (promise_upd G url e Tainted u e') (ss_path st) w e' y"
      using promise_same_element [of e' y x] y' by (cases "e' = e") (simp_all add: promise_upd_def)
  qed (simp_all add: y' promise_upd_def fun_eq_iff)
  have y3: "entry_lookup ?st3 url = Some y"
    using lookup_write [OF inv0 url url, of "\<lambda>_. y"] x by simp
  have eff: "good U large (promise_upd G url e Tainted) st4 w2 \<and> file_bytes w2 = file_bytes w \<and>
      entry_lookup st4 url = Some y \<and> ss_path st4 = ss_path st \<and>
      (\<forall>bytes. r = Inr bytes \<longrightarrow> bytes = on_disc (ss_path st) w e x \<and> length bytes = unat (el_size (elem e x)))"
  proof (cases "el_block (elem e x) = 0")
    case False
    then have rd: "store_read_block ?st3 y e w = (r, st4, w2)"
      using read by simp
    have "el_block (elem e y) \<noteq> 0"
      using False y' by simp
    from store_read_block_reads [OF tainted url y3 this rd] show ?thesis
      using y3 disc y' by simp
  next
    case True
    then have rd: "store_read_file ?st3 y e w = (r, w2)" and st4: "st4 = ?st3"
      using read by (auto split: prod.splits)
    have "el_block (elem e y) = 0"
      using True y' by simp
    note eff = store_read_file_reads [OF this rd]
    then have "good U large (promise_upd G url e Tainted) ?st3 w2"
      using tainted good_cong [of ?st3 ?st3 w2 w] by simp
    then show ?thesis
      using eff y3 disc y' st4 by simp
  qed
  have restore: "good U large G (write_entry_at url (\<lambda>_. z) st4) w2"
    if z: "se_url z = se_url y" "\<And>e'. el_block (elem e' z) = el_block (elem e' y) \<and> el_size (elem e' z) = el_size (elem e' y)"
      "\<And>e'. e' \<noteq> e \<Longrightarrow> elem e' z = elem e' y"
      "el_flags (elem e z) AND ENTRY_ELEM_FLAG_HEAP \<noteq> 0 \<Longrightarrow> el_data (elem e z) = on_disc (ss_path st) w e x" for z
  proof (rule good_rewrite [OF _ large url _ z(1,2)])
    show "good U large (promise_upd G url e Tainted) st4 w2" "entry_lookup st4 url = Some y"
      using eff by simp_all
  next
    fix u e'
    assume u: "hash_valid u" "same_url url u" and old: "promise_ok (promise_upd G url e Tainted u e') (ss_path st4) w2 e' y"
    have x_ok: "promise_ok (G u e) (ss_path st) w e x"
      using co u lookup_cong [OF inv0 u(2) url u(1)] x by (simp add: coherent_def)
    have "on_disc (ss_path st) w2 e z = on_disc (ss_path st) w e x"
      using z(1,2) y' eff by (simp add: on_disc_def elem_file_def elem_offset_def)
    then have "promise_ok (G u e) (ss_path st) w2 e z"
      using x_ok z(2) [of e] z(4) y' by (cases "G u e") (auto simp: promise_ok_def holds_def)
    then show "promise_ok (G u e') (ss_path st4) w2 e' z"
      using old z(3) [of e'] promise_same_element [of e' z y] z(1) eff
      by (cases "e' = e") (simp_all add: promise_upd_def)
  next
    fix u
    assume "\<not> same_url url u"
    then show "G u = promise_upd G url e Tainted u"
      by (simp add: promise_upd_def fun_eq_iff)
  qed
  show ?thesis
  proof (cases r)
    case (Inl ret)
    have "good U large G st5 w3 \<and> ss_path st5 = ss_path st" if rel: "release_element url e y st4 w2 = (z, st5, w3)" for z st5 w3
    proof -
      obtain el m where el: "entry_release_alloc (elem e y) (w_mem w2) = (el, m)"
        by (cases "entry_release_alloc (elem e y) (w_mem w2)")
      have res: "z = elem_update e (\<lambda>_. el) y" "st5 = write_entry_at url (\<lambda>_. z) st4" "w3 = w2\<lparr>w_mem := m\<rparr>"
        using rel el by (auto simp: release_element_def Let_def)
      have cleared: "el_flags el AND ENTRY_ELEM_FLAG_HEAP = 0"
        using el heap_flag_set [of "el_flags (elem e x)"] heap_flag_cleared y'(4,6)
        by (auto simp: entry_release_alloc_def Let_def)
      have "good U large G (write_entry_at url (\<lambda>_. z) st4) w2"
        using entry_release_alloc_keeps [OF el] cleared by (intro restore) (simp_all add: res(1))
      then show ?thesis
        using good_cong [of st5 st5 w3 w2] eff by (simp add: res(2,3))
    qed
    then show ?thesis
      unfolding Inl sum.case by blast
  next
    case (Inr bytes)
    have "good U large G (write_entry_at url (\<lambda>_. elem_update e (\<lambda>el. el\<lparr>el_data := bytes\<rparr>) y) st4) w2"
      using eff Inr by (intro restore) simp_all
    then show ?thesis
      using eff Inr write_entry_const [of st4 url y "elem_update e (\<lambda>el. el\<lparr>el_data := bytes\<rparr>)"] by simp
  qed
qed

lemma fetch_good:
  assumes good: "good U large G st w" and large: "large_ok large" and url: "hash_valid url"
    and f: "fetch st url flags w = (r, st', w')"
  shows "good U large G st' w' \<and> ss_path st' = ss_path st \<and>
    (\<forall>bytes. r = Inr bytes \<longrightarrow> serves (G url (element_index flags)) bytes)"
proof -
  let ?e = "element_index flags"
  obtain q st1 where 1: "get_store_entry st url (w_now w) = (q, st1)"
    by (cases "get_store_entry st url (w_now w)")
  show ?thesis
  proof (cases q)
    case (Inl ret)
    then have "st1 = st" "r = Inl ret" "w' = w" "st' = st1\<lparr>ss_miss_count := ss_miss_count st1 + 1\<rparr>"
      using f 1 get_store_entry_None [of st url "w_now w" ret st1] by (auto simp: fetch_def)
    then show ?thesis
      using good good_cong [of st' st w w] by simp
  next
    case (Inr x)
    note got = get_store_entry_Some [OF good large url 1 [unfolded Inr]]
    let ?st2 = "st1\<lparr>ss_hit_count := ss_hit_count st1 + 1\<rparr>"
    let ?served = "\<lambda>st. st\<lparr>ss_hit_size := ss_hit_size st + ucast (el_size (elem ?e x))\<rparr>"
    have good2: "good U large G ?st2 w"
      using got good_cong [of ?st2 st1 w w] by simp
    have x2: "entry_lookup ?st2 url = Some x" "ss_path ?st2 = ss_path st"
      using got by simp_all
    have x_ok: "promise_ok (G url ?e) (ss_path st) w ?e x"
      using good2 url x2 by (simp add: good_def coherent_def)
    have served: "good U large G (?served s) w" if "good U large G s w" for s w
      using that good_cong [of "?served s" s w w] by simp
    show ?thesis
    proof (cases "el_flags (elem ?e x) AND ENTRY_ELEM_FLAG_HEAP = 0")
      case False
      let ?y = "elem_update ?e (\<lambda>el. el\<lparr>el_ref := el_ref el + 1\<rparr>) x"
      have "entry_keeps (ss_path st) w x w ?y"
        by (intro entry_keepsI) (simp_all split: if_splits)
      then have "good U large G (write_entry_at url (\<lambda>_. ?y) ?st2) w"
        using good_write [OF good2 large url x2(1)] x2(2) by simp
      moreover have "r = Inr (element_bytes (elem ?e x))" "w' = w" "st' = ?served (write_entry_at url (\<lambda>_. ?y) ?st2)"
        using f 1 Inr False write_entry_const [OF x2(1), of "elem_update ?e (\<lambda>el. el\<lparr>el_ref := el_ref el + 1\<rparr>)"]
        by (simp_all add: fetch_def Let_def)
      ultimately show ?thesis
        using promise_serves_memory [OF x_ok False] served x2(2) by simp
    next
      case True
      obtain ok w1 where 2: "with_mem malloc w = (ok, w1)"
        by (cases "with_mem malloc w")
      have good21: "good U large G ?st2 w1" and disc: "on_disc path w1 e x = on_disc path w e x" for path e
        using good2 good_cong [of ?st2 ?st2 w1 w] with_mem_files [OF 2] by (simp_all add: on_disc_def)
      show ?thesis
      proof (cases ok)
        case False
        then show ?thesis
          using f 1 Inr True 2 good21 x2 by (auto simp: fetch_def Let_def)
      next
        case ok: True
        let ?y = "elem_update ?e (\<lambda>el. el\<lparr>el_flags := el_flags el OR ENTRY_ELEM_FLAG_HEAP, el_ref := 1\<rparr>) x"
        let ?st3 = "write_entry_at url (\<lambda>_. ?y) ?st2"
        obtain r4 st4 w4 where 4: "(if el_block (elem ?e x) \<noteq> 0 then store_read_block ?st3 ?y ?e w1
             else (case store_read_file ?st3 ?y ?e w1 of (r, w2) \<Rightarrow> (r, ?st3, w2))) = (r4, st4, w4)"
          by (rule prod_cases3) blast
        note read = fetch_read_good [OF good21 large url x2(1) refl 4]
        show ?thesis
        proof (cases r4)
          case (Inl ret)
          obtain z st5 w5 where 5: "release_element url ?e ?y st4 w4 = (z, st5, w5)"
            by (rule prod_cases3) blast
          have "r = Inl ret" "st' = st5" "w' = w5"
            using f 1 Inr True 2 ok 4 Inl 5 by (simp_all add: fetch_def Let_def)
          then show ?thesis
            using read 5 Inl x2(2) by auto
        next
          case r4: (Inr bytes)
          have res: "r = Inr bytes" "w' = w4"
              "st' = ?served (write_entry_at url (elem_update ?e (\<lambda>el. el\<lparr>el_data := bytes\<rparr>)) st4)"
            using f 1 Inr True 2 ok 4 r4 by (simp_all add: fetch_def Let_def)
          have bytes: "bytes = on_disc (ss_path st) w ?e x"
            using read r4 disc x2(2) by simp
          have "good U large G (write_entry_at url (elem_update ?e (\<lambda>el. el\<lparr>el_data := bytes\<rparr>)) st4) w4"
            and path4: "ss_path st4 = ss_path st"
            using read x2(2) unfolding r4 sum.case by (blast, metis)
          then have g: "good U large G st' w'"
            unfolding res(2,3) by (intro served)
          have path: "ss_path st' = ss_path st"
            by (simp add: res(3) path4)
          have "serves (G url ?e) bytes"
            unfolding bytes by (rule promise_serves_disc [OF x_ok])
          then show ?thesis
            using g path res(1) by simp
        qed
      qed
    qed
  qed
qed

lemma invalidate_current:
  assumes good: "good U large G st w" and large: "large_ok large" and U: "urls_ok U" and url: "hash_valid url"
    and x: "entry_lookup st url = Some x" and i: "invalidate_entry st x w = (ret, st', w')"
  shows "ret = NSERROR_OK \<and> good U large G st' w' \<and> ss_path st' = ss_path st"
proof -
  have inv: "store_inv U large st"
    using good by (simp add: good_def)
  have "entry_inv U large (ss_blocks st) url x"
    by (rule store_invD(3) [OF inv url x])
  then have "same_url url (se_url x)" "hash_valid (se_url x)"
    using U by (auto simp: entry_inv_def urls_ok_def)
  then have "entry_lookup st (se_url x) = Some x"
    using lookup_cong [OF store_invD(1) [OF inv] _ url] x by simp
  from invalidate_entry_good [OF good large U this \<open>hash_valid (se_url x)\<close> i] show ?thesis
    by simp
qed

lemma release_good:
  assumes good: "good U large G st w" and large: "large_ok large" and U: "urls_ok U" and url: "hash_valid url"
    and r: "release st url flags w = (ret, st', w')"
  shows "good U large G st' w' \<and> ss_path st' = ss_path st"
proof -
  let ?e = "element_index flags"
  obtain q st1 where 1: "get_store_entry st url (w_now w) = (q, st1)"
    by (cases "get_store_entry st url (w_now w)")
  show ?thesis
  proof (cases q)
    case (Inl ret)
    then show ?thesis
      using r 1 get_store_entry_None [of st url "w_now w" ret st1] good by (auto simp: release_def)
  next
    case (Inr x)
    note got = get_store_entry_Some [OF good large url 1 [unfolded Inr]]
    obtain y st2 w2 where 2: "release_element url ?e x st1 w = (y, st2, w2)"
      by (rule prod_cases3) blast
    have x1: "good U large G st1 w" "entry_lookup st1 url = Some x"
      using got by simp_all
    note rel = release_element_good [OF x1(1) large url x1(2) 2]
    show ?thesis
    proof (cases "se_flags y AND ENTRY_FLAGS_INVALID = 0")
      case True
      then show ?thesis
        using r 1 Inr 2 rel got by (simp add: release_def)
    next
      case False
      then have i: "invalidate_entry st2 y w2 = (ret, st', w')"
        using r 1 Inr 2 by (simp add: release_def)
      show ?thesis
        using invalidate_current [OF conjunct1 [OF rel] large U url _ i] rel got by simp
    qed
  qed
qed

lemma invalidate_good:
  assumes good: "good U large G st w" and large: "large_ok large" and U: "urls_ok U" and url: "hash_valid url"
    and i: "invalidate st url w = (ret, st', w')"
  shows "good U large G st' w' \<and> ss_path st' = ss_path st"
proof -
  obtain q st1 where 1: "get_store_entry st url (w_now w) = (q, st1)"
    by (cases "get_store_entry st url (w_now w)")
  show ?thesis
  proof (cases q)
    case (Inl ret)
    then show ?thesis
      using i 1 get_store_entry_None [of st url "w_now w" ret st1] good by (auto simp: invalidate_def)
  next
    case (Inr x)
    note got = get_store_entry_Some [OF good large url 1 [unfolded Inr]]
    have "invalidate_entry st1 x w = (ret, st', w')"
      using i 1 Inr by (simp add: invalidate_def)
    then show ?thesis
      using invalidate_current [OF _ large U url, of G st1 w x ret st' w'] got by simp
  qed
qed

section \<open>Histories\<close>

datatype cache_op =
    Store nsurl "8 word" "8 word list"
  | Fetch nsurl "8 word"
  | Release nsurl "8 word"
  | Invalidate nsurl

fun cache_step ::
  "((store_entry \<Rightarrow> store_entry \<Rightarrow> int) \<Rightarrow> store_entry list \<Rightarrow> store_entry list) \<Rightarrow> cache_op \<Rightarrow> store_state \<Rightarrow> world \<Rightarrow>
     (nserror + 8 word list) \<times> store_state \<times> world" where
  "cache_step qsort (Store url flags data) st w = (case store qsort st url flags data w of (ret, st', w') \<Rightarrow> (Inl ret, st', w'))"
| "cache_step qsort (Fetch url flags) st w = fetch st url flags w"
| "cache_step qsort (Release url flags) st w = (case release st url flags w of (ret, st', w') \<Rightarrow> (Inl ret, st', w'))"
| "cache_step qsort (Invalidate url) st w = (case invalidate st url w of (ret, st', w') \<Rightarrow> (Inl ret, st', w'))"

fun cache_run ::
  "((store_entry \<Rightarrow> store_entry \<Rightarrow> int) \<Rightarrow> store_entry list \<Rightarrow> store_entry list) \<Rightarrow> cache_op list \<Rightarrow> store_state \<Rightarrow> world \<Rightarrow>
     (nserror + 8 word list) list \<times> store_state \<times> world" where
  "cache_run qsort [] st w = ([], st, w)"
| "cache_run qsort (op # ops) st w =
     (case cache_step qsort op st w of (r, st1, w1) \<Rightarrow>
        case cache_run qsort ops st1 w1 of (rs, st2, w2) \<Rightarrow> (r # rs, st2, w2))"

text \<open>
  The specification, on operations and answers alone: what is promised of an element, and
  that every fetch that succeeds serves it.
\<close>

fun promise_after ::
  "cache_op \<Rightarrow> nserror + 8 word list \<Rightarrow> (nsurl \<Rightarrow> elem_idx \<Rightarrow> promise) \<Rightarrow> nsurl \<Rightarrow> elem_idx \<Rightarrow> promise" where
  "promise_after (Store url flags data) (Inl ret) G = promise_stored G url (element_index flags) data ret"
| "promise_after _ _ G = G"

fun answer_ok :: "cache_op \<Rightarrow> nserror + 8 word list \<Rightarrow> (nsurl \<Rightarrow> elem_idx \<Rightarrow> promise) \<Rightarrow> bool" where
  "answer_ok (Fetch url flags) (Inr bytes) G = serves (G url (element_index flags)) bytes"
| "answer_ok _ _ G = True"

fun answers_ok :: "cache_op list \<Rightarrow> (nserror + 8 word list) list \<Rightarrow> (nsurl \<Rightarrow> elem_idx \<Rightarrow> promise) \<Rightarrow> bool" where
  "answers_ok [] [] G = True"
| "answers_ok (op # ops) (r # rs) G = (answer_ok op r G \<and> answers_ok ops rs (promise_after op r G))"
| "answers_ok _ _ G = False"

fun op_url :: "cache_op \<Rightarrow> nsurl" where
  "op_url (Store url flags data) = url"
| "op_url (Fetch url flags) = url"
| "op_url (Release url flags) = url"
| "op_url (Invalidate url) = url"

fun op_fits :: "(nsurl \<Rightarrow> elem_idx \<Rightarrow> bool) \<Rightarrow> cache_op \<Rightarrow> bool" where
  "op_fits large (Store url flags data) =
     (length data < 2 ^ 32 \<and> (large url (element_index flags) \<longleftrightarrow> 2 ^ log2_block_size (element_index flags) < length data))"
| "op_fits large _ = True"

lemma cache_step_good:
  assumes "good U large G st w" and "large_ok large" and "urls_ok U" and "sorts qsort"
    and "op_url op \<in> U" and "op_fits large op" and "cache_step qsort op st w = (r, st', w')"
  shows "good U large (promise_after op r G) st' w' \<and> answer_ok op r G"
proof -
  have url: "hash_valid (op_url op)"
    using assms(3,5) by (simp add: urls_ok_def)
  show ?thesis
  proof (cases op)
    case (Store url flags data)
    then show ?thesis
      using store_good [OF assms(1-3) _ assms(4)] assms(5-7) by (auto split: prod.splits)
  next
    case (Fetch u flags)
    then show ?thesis
      using fetch_good [OF assms(1,2), of u flags r st' w'] url assms(7) by (cases r) simp_all
  next
    case (Release u flags)
    then show ?thesis
      using release_good [OF assms(1-3), of u flags] url assms(7) by (auto split: prod.splits)
  next
    case (Invalidate u)
    then show ?thesis
      using invalidate_good [OF assms(1-3), of u] url assms(7) by (auto split: prod.splits)
  qed
qed

lemma cache_run_good:
  assumes "large_ok large" and "urls_ok U" and "sorts qsort"
  shows "good U large G st w \<Longrightarrow> \<forall>op \<in> set ops. op_url op \<in> U \<and> op_fits large op \<Longrightarrow>
    cache_run qsort ops st w = (rs, st', w') \<Longrightarrow> answers_ok ops rs G \<and> store_inv U large st'"
proof (induction ops arbitrary: G st w rs)
  case (Cons op ops)
  obtain r st1 w1 where 1: "cache_step qsort op st w = (r, st1, w1)"
    by (rule prod_cases3) blast
  obtain rs2 where 2: "cache_run qsort ops st1 w1 = (rs2, st', w')" "rs = r # rs2"
    using Cons.prems(3) 1 by (auto split: prod.splits)
  have step: "good U large (promise_after op r G) st1 w1 \<and> answer_ok op r G"
    using Cons.prems(2) by (intro cache_step_good [OF Cons.prems(1) assms _ _ 1]) simp_all
  show ?case
    using Cons.IH [OF conjunct1 [OF step] _ 2(1)] Cons.prems(2) step 2(2) by simp
qed (simp add: good_def)

section \<open>What was stored can be fetched\<close>

lemma good_tainted: "good U large (\<lambda>_ _. Tainted) st w \<longleftrightarrow> store_inv U large st"
  by (simp add: good_def coherent_def)

lemma store_ok_entry:
  assumes inv: "store_inv U large st" and large: "large_ok large" and U: "urls_ok U" "url \<in> U" and sorts: "sorts qsort"
    and len: "length data < 2 ^ 32" and fits: "large url (element_index flags) \<longleftrightarrow> 2 ^ 13 < length data"
    and s: "store qsort st url flags data w = (NSERROR_OK, st', w')"
  shows "\<exists>x. entry_lookup st' url = Some x \<and> unat (el_size (elem (element_index flags) x)) = length data \<and>
    el_data (elem (element_index flags) x) = data \<and> el_ref (elem (element_index flags) x) = 1 \<and>
    el_flags (elem (element_index flags) x) AND ENTRY_ELEM_FLAG_HEAP \<noteq> 0"
proof -
  let ?e = "element_index flags"
  have url: "hash_valid url"
    using U by (simp add: urls_ok_def)
  have good: "good U large (\<lambda>_ _. Tainted) st w"
    using inv by (simp add: good_tainted)
  obtain ret1 st1 w1 where 1: "store_evict qsort st w = (ret1, st1, w1)"
    by (rule prod_cases3) blast
  note evict = store_evict_good [OF good large U(1) sorts 1]
  obtain r2 st2 w2 where 2: "find_or_insert st1 url w1 = (r2, st2, w2)"
    by (rule prod_cases3) blast
  note found = find_or_insert_good [OF conjunct1 [OF evict] U 2]
  obtain se where se: "ret1 = NSERROR_OK" "r2 = Some se" "\<not> in_use (elem ?e se)"
    using s 1 2 by (auto simp: store_def set_store_entry_def Let_def split: if_splits option.splits)
  obtain se' st3 where 3: "set_element ?e data (w_now w2) se st2 = (se', st3)"
    by (cases "set_element ?e data (w_now w2) se st2")
  let ?st4 = "(write_entry_at url (\<lambda>_. se') st3)\<lparr>ss_entries_dirty := True\<rparr>"
  have cur: "entry_lookup st2 url = Some se"
    using found se(2) by simp
  note was_set = set_element_good [OF conjunct1 [OF found] large url cur len fits 3 refl]
  have "el_flags (elem ?e se') = el_flags (elem ?e se) OR ENTRY_ELEM_FLAG_HEAP" "el_ref (elem ?e se') = 1"
    using 3 by (auto simp: set_element_def Let_def split: prod.splits)
  then have elem': "unat (el_size (elem ?e se')) = length data" "el_data (elem ?e se') = data"
      "el_flags (elem ?e se') AND ENTRY_ELEM_FLAG_HEAP \<noteq> 0" "el_ref (elem ?e se') = 1"
    using was_set heap_flag_set by simp_all
  have set_entry: "set_store_entry qsort st url ?e data w = (Inr se', ?st4, w2)"
    using 1 2 3 se by (simp add: set_store_entry_def)
  have "entry_lookup st' url = Some se'"
  proof (cases "el_block (elem ?e se') = 0")
    case False
    then have wr: "store_write_block ?st4 se' ?e w2 = (NSERROR_OK, st', w')"
      using s set_entry by (simp add: store_def Let_def)
    show ?thesis
      using store_write_block_good [OF conjunct1 [OF was_set] U(1) url _ False wr] was_set by simp
  next
    case True
    then have "st' = ?st4"
      using s set_entry by (auto simp: store_def Let_def split: prod.splits)
    then show ?thesis
      using was_set by simp
  qed
  then show ?thesis
    using elem' by blast
qed

lemma read_loop_complete:
  assumes "w_io w = []" and "length (take len (file_bytes w fd)) = len"
  shows "read_loop fd len [] w = (Inr (take len (file_bytes w fd)), w)"
proof (cases "len = 0")
  case True
  then show ?thesis by (simp add: read_loop.simps)
next
  case False
  let ?bytes = "take len (file_bytes w fd)"
  have "nsu_pread fd len 0 w = (Some ?bytes, w)"
    using assms by (simp add: nsu_pread_def io_next_def io_count_def Let_def)
  moreover have "?bytes \<noteq> []"
    using assms(2) False by auto
  ultimately show ?thesis
    using False assms(2) by (subst read_loop.simps) (simp add: read_loop.simps [of fd len ?bytes])
qed

lemma store_open_complete:
  assumes "w_io w = []" and "plenty (w_mem w)" and "creat \<or> file_bytes w (fname_text (ss_path st) i k) \<noteq> []"
  shows "\<exists>w'. store_open st i k creat w = (Some (fname_text (ss_path st) i k), w') \<and>
    w_io w' = [] \<and> file_bytes w' = file_bytes w"
proof -
  obtain ok m where m: "malloc (w_mem w) = (ok, m)"
    by (cases "malloc (w_mem w)")
  have "ok"
    using malloc_plenty [OF m assms(2)] by simp
  let ?name = "fname_text (ss_path st) i k"
  have "file_bytes w ?name = []" if "w_files w ?name = None"
    using that by (simp add: file_bytes_def)
  then show ?thesis
    using assms m \<open>ok\<close>
    by (auto simp: store_open_def with_mem_def store_fname_eq io_next_def fun_eq_iff world_free_def file_bytes_def)
qed

lemma fetch_complete:
  assumes good: "good U large G st w" and large: "large_ok large" and url: "hash_valid url"
    and x: "entry_lookup st url = Some x" and holds: "holds (ss_path st) w (element_index flags) x data"
    and "data \<noteq> []" and "w_io w = []" and "plenty (w_mem w)"
  shows "\<exists>st' w'. fetch st url flags w = (Inr data, st', w')"
proof -
  let ?e = "element_index flags"
  obtain q st1 where 1: "get_store_entry st url (w_now w) = (q, st1)"
    by (cases "get_store_entry st url (w_now w)")
  obtain y where q: "q = Inr y"
    using 1 x by (auto simp: get_store_entry_def Let_def)
  note got = get_store_entry_Some [OF good large url 1 [unfolded q]]
  have y: "elem ?e y = elem ?e x" "se_url y = se_url x"
    using got x by simp_all
  have len: "length data = unat (el_size (elem ?e x))" and disc: "on_disc (ss_path st) w ?e x = data"
    using holds by (simp_all add: holds_def)
  show ?thesis
  proof (cases "el_flags (elem ?e x) AND ENTRY_ELEM_FLAG_HEAP = 0")
    case False
    then have "element_bytes (elem ?e x) = data"
      using holds len by (simp add: holds_def element_bytes_def)
    then show ?thesis
      using 1 q y False by (simp add: fetch_def Let_def)
  next
    case True
    obtain ok m where m: "malloc (w_mem w) = (ok, m)"
      by (cases "malloc (w_mem w)")
    have ok: "ok" and plenty: "plenty m"
      using malloc_plenty [OF m assms(8)] by simp_all
    let ?w1 = "w\<lparr>w_mem := m\<rparr>"
    let ?z = "elem_update ?e (\<lambda>el. el\<lparr>el_flags := el_flags el OR ENTRY_ELEM_FLAG_HEAP, el_ref := 1\<rparr>) y"
    let ?st2 = "st1\<lparr>ss_hit_count := ss_hit_count st1 + 1\<rparr>"
    let ?st3 = "write_entry_at url (\<lambda>_. ?z) ?st2"
    have z: "el_block (elem ?e ?z) = el_block (elem ?e x)" "el_size (elem ?e ?z) = el_size (elem ?e x)" "se_url ?z = se_url x"
      using y by simp_all
    have fields: "ss_path ?st3 = ss_path st" "ss_blocks ?st3 = ss_blocks st"
      using got by simp_all
    have "\<exists>st4 w4. (if el_block (elem ?e y) \<noteq> 0 then store_read_block ?st3 ?z ?e ?w1
        else (case store_read_file ?st3 ?z ?e ?w1 of (r, w2) \<Rightarrow> (r, ?st3, w2))) = (Inr data, st4, w4)"
    proof (cases "el_block (elem ?e x) = 0")
      case True
      let ?name = "fname_text (ss_path st) (nsurl_hash (se_url x)) (elem_number ?e)"
      have data: "take (unat (el_size (elem ?e x))) (file_bytes w ?name) = data"
        using disc True by (simp add: on_disc_def elem_file_def elem_offset_def)
      then have "file_bytes ?w1 ?name \<noteq> []"
        using assms(6) by auto
      then obtain w2 where 2: "store_open ?st3 (nsurl_hash (se_url x)) (elem_number ?e) False ?w1 = (Some ?name, w2)"
          "w_io w2 = []" "file_bytes w2 = file_bytes w"
        using store_open_complete [of ?w1 False ?st3 "nsurl_hash (se_url x)" "elem_number ?e"] assms(7) plenty fields(1)
        by auto
      have "read_loop ?name (unat (el_size (elem ?e x))) [] w2 = (Inr data, w2)"
        using read_loop_complete [OF 2(2), of "unat (el_size (elem ?e x))" ?name] data len 2(3) by simp
      then show ?thesis
        using True y z 2 by (simp add: store_read_file_def)
    next
      case False
      let ?bf = "block_file_of (el_block (elem ?e x))"
      have "\<exists>st4 w4. open_block_file ?st3 ?bf ?e ?w1 = (Some (block_name (ss_path st) ?e ?bf), st4, w4) \<and>
          w_io w4 = [] \<and> file_bytes w4 = file_bytes w"
      proof (cases "bf_fd (ss_blocks st ?e ! ?bf)")
        case None
        obtain w2 where "store_open ?st3 (word_of_nat ?bf) (elem_number ?e + ENTRY_ELEM_COUNT) True ?w1 =
            (Some (block_name (ss_path st) ?e ?bf), w2)" "w_io w2 = []" "file_bytes w2 = file_bytes w"
          using store_open_complete [of ?w1 True ?st3 "word_of_nat ?bf" "elem_number ?e + ENTRY_ELEM_COUNT"]
            assms(7) plenty fields(1) by (auto simp: block_name_def)
        then show ?thesis
          using None fields(2) by (simp add: open_block_file_def)
      next
        case (Some fd)
        have inv: "store_inv U large st"
          using good by (simp add: good_def)
        have "?bf < BLOCK_FILE_COUNT"
          using store_invD(3) [OF inv url x] False by (simp add: entry_inv_def block_file_less)
        then have "fd = block_name (ss_path st) ?e ?bf"
          using store_invD(2) [OF inv] Some by (simp add: files_inv_def)
        then show ?thesis
          using Some fields(2) assms(7) by (simp add: open_block_file_def)
      qed
      then obtain st4 w4 where 4: "open_block_file ?st3 ?bf ?e ?w1 = (Some (block_name (ss_path st) ?e ?bf), st4, w4)"
          "w_io w4 = []" "file_bytes w4 = file_bytes w"
        by blast
      have "nsu_pread (block_name (ss_path st) ?e ?bf) (unat (el_size (elem ?e x))) (block_offset ?e (el_block (elem ?e x))) w4 =
          (Some data, w4)"
      proof -
        have avail: "take (unat (el_size (elem ?e x))) (drop (block_offset ?e (el_block (elem ?e x)))
            (file_bytes w4 (block_name (ss_path st) ?e ?bf))) = data"
          using 4(3) disc False by (simp add: on_disc_def elem_file_def elem_offset_def)
        have next_io: "io_next w4 = (IO_ok, w4)"
          using 4(2) by (simp add: io_next_def)
        show ?thesis
          unfolding nsu_pread_def next_io prod.case Let_def avail by (simp add: io_count_def)
      qed
      then show ?thesis
        using False y z 4(1) len by (simp add: store_read_block_def Let_def)
    qed
    then obtain st4 w4 where 4: "(if el_block (elem ?e y) \<noteq> 0 then store_read_block ?st3 ?z ?e ?w1
        else (case store_read_file ?st3 ?z ?e ?w1 of (r, w2) \<Rightarrow> (r, ?st3, w2))) = (Inr data, st4, w4)"
      by blast
    have "with_mem malloc w = (True, ?w1)"
      using m ok by (simp add: with_mem_def)
    then show ?thesis
      using 1 q True y 4 by (simp add: fetch_def Let_def)
  qed
qed

end
