(* ===== verification/Fs_Store_Props.thy ===== *)
theory Fs_Store_Props
  imports Fs_Cache_Props
begin

unbundle bit_operations_syntax

text \<open>
  The properties of the disc cache: its map of entries, its eviction order, and what it
  serves; and the behaviours that differ from what the code's comments say.
\<close>

section \<open>The order of eviction\<close>

definition evict_rank :: "store_entry \<Rightarrow> bool \<times> bool \<times> 16 word \<times> int" where
  "evict_rank a = (el_flags (se_data a) \<noteq> 0, el_flags (se_meta a) \<noteq> 0, se_use_count a, se_last_used a)"

fun rank_less :: "bool \<times> bool \<times> 16 word \<times> int \<Rightarrow> bool \<times> bool \<times> 16 word \<times> int \<Rightarrow> bool" where
  "rank_less (d, m, n, t) (d', m', n', t') =
     (d < d' \<or> d = d' \<and> (m < m' \<or> m = m' \<and> (n < n' \<or> n = n' \<and> t < t')))"

lemma rank_less_trans: "rank_less a b \<Longrightarrow> rank_less b c \<Longrightarrow> rank_less a c"
  by (cases a; cases b; cases c) auto

lemma rank_less_linear: "rank_less a b \<or> a = b \<or> rank_less b a"
  by (cases a; cases b) auto

lemma rank_less_irrefl: "\<not> rank_less a a"
  by (cases a) auto

lemma compar_rank:
  "compar a b = (if rank_less (evict_rank a) (evict_rank b) then - 1
     else if rank_less (evict_rank b) (evict_rank a) then 1 else 0)"
proof -
  have order: "(if n < n' then - 1 else if n' < n then 1 else if t < t' then - 1 else if t' < t then 1 else (0 :: int)) =
      (if n < n' \<or> n = n' \<and> t < t' then - 1 else if n' < n \<or> n' = n \<and> t' < t then 1 else 0)"
    for n n' :: "16 word" and t t' :: int
    using less_linear [of n n'] by auto
  show ?thesis
    unfolding compar_def evict_rank_def rank_less.simps
    by (cases "el_flags (se_data a) = 0"; cases "el_flags (se_data b) = 0";
        cases "el_flags (se_meta a) = 0"; cases "el_flags (se_meta b) = 0";
        simp only: simp_thms if_True if_False less_bool_def order)
qed

lemma compar_le: "compar a b \<le> 0 \<longleftrightarrow> \<not> rank_less (evict_rank b) (evict_rank a)"
  using rank_less_trans [of "evict_rank a" "evict_rank b" "evict_rank a"] rank_less_irrefl
  by (auto simp: compar_rank)

lemma compar_linear: "compar a b \<le> 0 \<or> compar b a \<le> 0"
  using rank_less_trans [of "evict_rank a" "evict_rank b" "evict_rank a"] rank_less_irrefl
  by (auto simp: compar_le)

lemma compar_trans: "compar a b \<le> 0 \<Longrightarrow> compar b c \<le> 0 \<Longrightarrow> compar a c \<le> 0"
  unfolding compar_le using rank_less_trans rank_less_linear by metis

text \<open>A sorting function, to show that the assumption on \<^verbatim>\<open>qsort\<close> can be met.\<close>

fun insert_by :: "('a \<Rightarrow> 'a \<Rightarrow> int) \<Rightarrow> 'a \<Rightarrow> 'a list \<Rightarrow> 'a list" where
  "insert_by cmp x [] = [x]"
| "insert_by cmp x (y # ys) = (if cmp x y \<le> 0 then x # y # ys else y # insert_by cmp x ys)"

definition insertion_sort :: "('a \<Rightarrow> 'a \<Rightarrow> int) \<Rightarrow> 'a list \<Rightarrow> 'a list" where
  "insertion_sort cmp xs = foldr (insert_by cmp) xs []"

lemma insert_by_mset: "mset (insert_by cmp x ys) = add_mset x (mset ys)"
  by (induction ys) auto

lemma insertion_sort_sorts: "sorts insertion_sort"
proof -
  have m: "mset (insertion_sort compar es) = mset es" for es
    by (induction es) (simp_all add: insertion_sort_def insert_by_mset)
  have set_insert: "set (insert_by compar x ys) = insert x (set ys)" for x ys
    using insert_by_mset [of compar x ys, THEN mset_eq_setD [of _ "x # ys", simplified]] by simp
  have step: "sorted_wrt (\<lambda>a b. compar a b \<le> 0) (insert_by compar x ys)" if "sorted_wrt (\<lambda>a b. compar a b \<le> 0) ys" for x ys
    using that
  proof (induction ys)
    case (Cons y ys)
    then show ?case
      using compar_linear [of x y] compar_trans [of x y] by (auto simp: set_insert)
  qed simp
  have "sorted_wrt (\<lambda>a b. compar a b \<le> 0) (insertion_sort compar es)" for es
    by (induction es) (simp_all add: insertion_sort_def step)
  with m show ?thesis
    by (simp add: sorts_def)
qed

section \<open>Eviction\<close>

definition entry_size :: "store_entry \<Rightarrow> 64 word" where
  "entry_size bse = ucast (el_size (se_data bse)) + ucast (el_size (se_meta bse))"

definition freed :: "store_entry list \<Rightarrow> 64 word" where
  "freed es = sum_list (map entry_size es)"

text \<open>What is left of an entry that was evicted: nothing, or an invalid one while it is in use.\<close>

definition evicted :: "store_entry \<Rightarrow> store_entry option" where
  "evicted bse = (if in_use (se_data bse) \<or> in_use (se_meta bse)
     then Some (bse\<lparr>se_flags := se_flags bse OR ENTRY_FLAGS_INVALID\<rparr>) else None)"

definition evicts :: "store_state \<Rightarrow> 64 word \<Rightarrow> store_entry list \<Rightarrow> store_state \<Rightarrow> nat \<Rightarrow> bool" where
  "evicts st removed order st' k \<longleftrightarrow> k \<le> length order \<and>
     (\<forall>bse \<in> set (take k order). entry_lookup st' (se_url bse) = evicted bse) \<and>
     (\<forall>bse \<in> set (drop k order). entry_lookup st' (se_url bse) = Some bse) \<and>
     (k = length order \<or> ss_hysteresis st < removed + freed (take k order)) \<and>
     (\<forall>j. 0 < j \<and> j < k \<longrightarrow> removed + freed (take j order) \<le> ss_hysteresis st)"

lemma evict_entries_other:
  assumes "large_ok large" and "urls_ok U"
  shows "good U large G st w \<Longrightarrow> urls_apart elist \<Longrightarrow>
    \<forall>bse \<in> set elist. hash_valid (se_url bse) \<and> entry_lookup st (se_url bse) = Some bse \<Longrightarrow>
    evict_entries elist removed st w = (ret, st', w') \<Longrightarrow>
    hash_valid u \<Longrightarrow> \<forall>bse \<in> set elist. \<not> same_url (se_url bse) u \<Longrightarrow> entry_lookup st' u = entry_lookup st u"
proof (induction elist arbitrary: removed st w)
  case (Cons bse elist)
  obtain ret1 st1 w1 where 1: "invalidate_entry st bse w = (ret1, st1, w1)"
    by (rule prod_cases3) blast
  have cur: "hash_valid (se_url bse)" "entry_lookup st (se_url bse) = Some bse"
    using Cons.prems(3) by simp_all
  note i = invalidate_entry_good [OF Cons.prems(1) assms cur(2,1) 1]
  have same: "entry_lookup st1 u = entry_lookup st u"
    using i Cons.prems(5,6) by simp
  have rest: "\<forall>b \<in> set elist. hash_valid (se_url b) \<and> entry_lookup st1 (se_url b) = Some b"
    using i Cons.prems(2,3) by (auto simp: urls_apart_def)
  show ?case
  proof (cases "removed + ucast (el_size (se_data bse)) + ucast (el_size (se_meta bse)) > ss_hysteresis st1")
    case True
    then show ?thesis
      using Cons.prems(4) i 1 same by (auto simp: Let_def)
  next
    case False
    then have "evict_entries elist (removed + ucast (el_size (se_data bse)) + ucast (el_size (se_meta bse))) st1 w1 = (ret, st', w')"
      using Cons.prems(4) i 1 by (auto simp: Let_def)
    from Cons.IH [OF _ _ rest this] show ?thesis
      using i Cons.prems(2,5,6) same by (simp add: urls_apart_def)
  qed
qed simp

lemma evict_entries_prefix:
  assumes "large_ok large" and "urls_ok U"
  shows "good U large G st w \<Longrightarrow> urls_apart elist \<Longrightarrow>
    \<forall>bse \<in> set elist. hash_valid (se_url bse) \<and> entry_lookup st (se_url bse) = Some bse \<Longrightarrow>
    evict_entries elist removed st w = (ret, st', w') \<Longrightarrow> \<exists>k. evicts st removed elist st' k"
proof (induction elist arbitrary: removed st w)
  case Nil
  then show ?case by (simp add: evicts_def)
next
  case (Cons bse elist)
  obtain ret1 st1 w1 where 1: "invalidate_entry st bse w = (ret1, st1, w1)"
    by (rule prod_cases3) blast
  have cur: "hash_valid (se_url bse)" "entry_lookup st (se_url bse) = Some bse"
    using Cons.prems(3) by simp_all
  note i = invalidate_entry_good [OF Cons.prems(1) assms cur(2,1) 1]
  have rest: "\<forall>b \<in> set elist. hash_valid (se_url b) \<and> entry_lookup st1 (se_url b) = Some b"
    using i Cons.prems(2,3) by (auto simp: urls_apart_def)
  have gone: "entry_lookup st1 (se_url bse) = evicted bse"
    using i by (simp add: evicted_def)
  have hyst: "ss_hysteresis st1 = ss_hysteresis st"
    using i by simp
  have size: "removed + ucast (el_size (se_data bse)) + ucast (el_size (se_meta bse)) = removed + entry_size bse"
    by (simp add: entry_size_def)
  show ?case
  proof (cases "removed + entry_size bse > ss_hysteresis st")
    case True
    then have "st' = st1"
      using Cons.prems(4) i 1 by (simp add: Let_def size)
    then have "evicts st removed (bse # elist) st' 1"
      using True gone rest by (simp add: evicts_def freed_def)
    then show ?thesis ..
  next
    case False
    then have rec: "evict_entries elist (removed + entry_size bse) st1 w1 = (ret, st', w')"
      using Cons.prems(4) i 1 by (simp add: Let_def size)
    obtain k where k: "evicts st1 (removed + entry_size bse) elist st' k"
      using Cons.IH [OF _ _ rest rec] i Cons.prems(2) by (auto simp: urls_apart_def)
    have "\<forall>b \<in> set elist. \<not> same_url (se_url b) (se_url bse)"
      using Cons.prems(2) same_url_sym by (auto simp: urls_apart_def)
    moreover have "good U large G st1 w1" "urls_apart elist"
      using i Cons.prems(2) by (simp_all add: urls_apart_def)
    ultimately have "entry_lookup st' (se_url bse) = evicted bse"
      using evict_entries_other [OF assms _ _ rest rec cur(1)] gone by metis
    moreover have "removed + freed (take j (bse # elist)) \<le> ss_hysteresis st" if "0 < j" "j < Suc k" for j
    proof (cases "j = 1")
      case True
      then show ?thesis
        using False by (simp add: freed_def)
    next
      case j: False
      then have "0 < j - 1 \<and> j - 1 < k"
        using that by simp
      then have "removed + entry_size bse + freed (take (j - 1) elist) \<le> ss_hysteresis st"
        using k hyst by (simp add: evicts_def)
      then show ?thesis
        using that by (cases j) (simp_all add: freed_def add.assoc)
    qed
    ultimately have "evicts st removed (bse # elist) st' (Suc k)"
      using k hyst by (simp add: evicts_def freed_def add.assoc)
    then show ?thesis ..
  qed
qed

lemma store_evict_outcome:
  assumes inv: "store_inv U large st" and large: "large_ok large" and U: "urls_ok U" and sorts: "sorts qsort"
    and over: "\<not> ss_total_alloc st < ss_limit st" and e: "store_evict qsort st w = (ret, st', w')"
  shows "if fst (malloc (w_mem w))
    then ret = NSERROR_OK \<and> (\<exists>k. evicts st 0 (qsort compar (map snd (hashmap_entries (ss_entries st)))) st' k)
    else ret = NSERROR_NOMEM \<and> st' = st"
proof -
  let ?es = "map snd (hashmap_entries (ss_entries st))"
  let ?order = "qsort compar ?es"
  obtain ok w1 where 1: "with_mem malloc w = (ok, w1)"
    by (cases "with_mem malloc w")
  then have ok: "fst (malloc (w_mem w)) = ok"
    by (auto simp: with_mem_def split: prod.splits)
  have good1: "good U large (\<lambda>_ _. Tainted) st w1"
    using inv by (simp add: good_tainted)
  have m: "mset ?order = mset ?es"
    using sorts by (simp add: sorts_def)
  have apart: "urls_apart ?order"
    unfolding urls_apart_def
  proof (rule sorted_wrt_permutation [OF _ m [symmetric]])
    show "sorted_wrt (\<lambda>a b. \<not> same_url (se_url a) (se_url b)) ?es"
      using entries_apart [OF inv] by (simp add: urls_apart_def)
  qed (use same_url_sym in blast)
  have cur: "\<forall>bse \<in> set ?order. hash_valid (se_url bse) \<and> entry_lookup st (se_url bse) = Some bse"
    using entries_current [OF inv _ U] mset_eq_setD [OF m] by blast
  have count: "hashmap_count (ss_entries st) = length ?es"
    using hashmap_entries_count [OF store_invD(1) [OF inv]] by simp
  obtain ret2 st2 w2 where 2: "evict_entries ?order 0 st w1 = (ret2, st2, w2)"
    by (rule prod_cases3) blast
  have "if ok then ret = ret2 \<and> st' = st2 else ret = NSERROR_NOMEM \<and> st' = st"
    using e over 1 2 count by (auto simp: store_evict_def eviction_iterate split: if_splits)
  then show ?thesis
    using evict_entries_prefix [OF large U good1 apart cur 2] evict_entries_good [OF large U good1 apart cur 2] ok by simp
qed

section \<open>Properties\<close>

text \<open>An example: an empty store and two URLs.\<close>

definition example_url :: nsurl where
  "example_url = url_of example_components"

definition other_url :: nsurl where
  "other_url = url_of (example_components\<lparr>uc_path := Some ''/c''\<rparr>)"

definition example_world :: "io list \<Rightarrow> world" where
  "example_world ios = \<lparr>w_mem = fresh_mem [], w_files = (\<lambda>_. None), w_io = ios, w_now = 7\<rparr>"

lemma example_urls:
  "hash_valid example_url" "hash_valid other_url" "urls_ok {example_url, other_url}"
proof -
  show v: "hash_valid example_url" "hash_valid other_url"
    by (simp_all add: example_url_def other_url_def hash_valid_def url_of_def Let_def)
  have "nsurl_hash example_url \<noteq> nsurl_hash other_url"
    by code_simp
  then show "urls_ok {example_url, other_url}"
    using v by (auto simp: urls_ok_def)
qed

lemma example_store_inv: "store_inv U large (example_store example_blocks)"
proof -
  have c: "hashmap_create (fresh_mem []) = (Some (ss_entries (example_store example_blocks)), snd (hashmap_create (fresh_mem [])))"
    by (simp add: hashmap_create_def malloc_def mem_next_def fresh_mem_def example_store_def)
  have "hashmap_inv hash_valid entries_hashmap_parameters (ss_entries (example_store example_blocks))"
    using hashmap_create_inv [OF c] by blast
  moreover have "entry_lookup (example_store example_blocks) u = None" for u
    by (rule hashmap_create_lookup [OF c])
  moreover have "files_inv (ss_path (example_store example_blocks)) (ss_blocks (example_store example_blocks))"
    using example_blocks_wf by (simp add: files_inv_def example_store_def) (simp add: example_blocks_def block_constants)
  ultimately show ?thesis
    by (simp add: store_inv_def)
qed

text \<open>
  The order in which entries are evicted is a total preorder, as \<^verbatim>\<open>qsort\<close> requires of its
  comparison: the comparison is antisymmetric, transitive, and answers 0 exactly for
  entries of the same rank (data in memory, metadata in memory, uses, last use).
\<close>

theorem compar_total_preorder:
  "compar b a = - compar a b \<and>
   (compar a b = 0 \<longleftrightarrow> evict_rank a = evict_rank b) \<and>
   \<not> (compar a b \<le> 0 \<and> compar b c \<le> 0 \<and> 0 < compar a c)"
proof (intro conjI)
  note linear = rank_less_linear [of "evict_rank a" "evict_rank b"]
  note asym = rank_less_trans [of "evict_rank a" "evict_rank b" "evict_rank a"] rank_less_irrefl
  show "compar b a = - compar a b" "compar a b = 0 \<longleftrightarrow> evict_rank a = evict_rank b"
    using linear asym by (auto simp: compar_rank split: if_splits)
  show "\<not> (compar a b \<le> 0 \<and> compar b c \<le> 0 \<and> 0 < compar a c)"
    using compar_trans [of a b c] by auto
qed

text \<open>The example store after data for both URLs were stored and released.\<close>

definition example_ops :: "cache_op list" where
  "example_ops = [Store example_url 0 [1, 2, 3], Release example_url 0, Store other_url 0 [4], Release other_url 0]"

definition example_full :: "store_state \<times> world" where
  "example_full = snd (cache_run insertion_sort example_ops (example_store example_blocks) (example_world []))"

lemma example_fits: "\<forall>op \<in> set example_ops. op_url op \<in> {example_url, other_url} \<and> op_fits (\<lambda>_ _. False) op"
  by (simp add: example_ops_def log2_block_size_def)

lemma example_full_inv: "store_inv {example_url, other_url} (\<lambda>_ _. False) (fst example_full)"
proof -
  obtain rs st w where run: "cache_run insertion_sort example_ops (example_store example_blocks) (example_world []) = (rs, st, w)"
    by (rule prod_cases3) blast
  have "good {example_url, other_url} (\<lambda>_ _. False) (\<lambda>_ _. Tainted) (example_store example_blocks) (example_world [])"
    using example_store_inv by (simp add: good_tainted)
  from cache_run_good [OF _ example_urls(3) insertion_sort_sorts this example_fits run] show ?thesis
    by (simp add: example_full_def run large_ok_def)
qed



text \<open>
  C5. Refinement: as seen by its clients, the cache's hash map of entries is a finite map from
  URLs. After any sequence of insertions and removals, whatever allocations failed, a lookup
  finds what the replay of the same events on the empty map holds; the iteration visits
  each entry once, their number is the count, and destroying the map gives back every block and
  reference that it held.
\<close>

theorem entries_map_refines:
  assumes create: "hashmap_create m = (Some hm, m1)"
    and keys: "\<forall>op \<in> set ops. hash_valid (op_key op)" and url: "hash_valid url"
    and run: "store_run (hashmap_insert entries_hashmap_parameters) (hashmap_remove entries_hashmap_parameters)
      ops hm m1 = (events, hm', m2)"
  shows "hashmap_lookup entries_hashmap_parameters hm' url = replay entries_hashmap_key_eq (\<lambda>_. None) events url \<and>
    (\<exists>seen. hashmap_iterate hm' (\<lambda>k v seen. (False, seen @ [(k, v)])) [] = (False, seen) \<and>
       length seen = hashmap_count hm' \<and>
       sorted_wrt (\<lambda>(k, _) (k', _). \<not> entries_hashmap_key_eq k k') seen \<and>
       (\<forall>v. hashmap_lookup entries_hashmap_parameters hm' url = Some v \<longleftrightarrow>
          (\<exists>k. (k, v) \<in> set seen \<and> entries_hashmap_key_eq url k))) \<and>
    held (hashmap_destroy entries_hashmap_parameters hm' m2) = held m"
proof (intro conjI exI)
  note created = hashmap_create_inv [OF create, of hash_valid entries_hashmap_parameters]
  have inv: "hashmap_inv hash_valid entries_hashmap_parameters hm"
    using created by blast
  have books: "entries.books (held m) hm m1"
    using created by (simp add: entries.books_def)
  note final = entries.run_books [OF inv keys books run]
  have inv': "hashmap_inv hash_valid entries_hashmap_parameters hm'"
    using final by blast
  show "hashmap_lookup entries_hashmap_parameters hm' url = replay entries_hashmap_key_eq (\<lambda>_. None) events url"
    using entries.run_replay [OF inv keys hashmap_create_lookup [OF create] run] url by simp
  show "held (hashmap_destroy entries_hashmap_parameters hm' m2) = held m"
    using final by (intro entries.destroy_books) blast+
  show "hashmap_iterate hm' (\<lambda>k v seen. (False, seen @ [(k, v)])) [] = (False, hashmap_entries hm')"
    using hashmap_iterate_collect [of hm' "\<lambda>_ _. False"] by (simp add: takeWhile_eq_all_conv [THEN iffD2])
  show "length (hashmap_entries hm') = hashmap_count hm'"
    by (rule hashmap_entries_count [OF inv'])
  show "sorted_wrt (\<lambda>(k, _) (k', _). \<not> entries_hashmap_key_eq k k') (hashmap_entries hm')"
    using entries.hashmap_entries_apart [OF inv'] by (simp add: hashmap_entries_def sorted_wrt_map split_beta)
  show "\<forall>v. hashmap_lookup entries_hashmap_parameters hm' url = Some v \<longleftrightarrow>
      (\<exists>k. (k, v) \<in> set (hashmap_entries hm') \<and> entries_hashmap_key_eq url k)"
    using entries.hashmap_lookup_entries [OF inv' url] by simp
qed

theorem entries_map_refines_witness:
  "case hashmap_create (fresh_mem [True, True]) of (hm, m1) \<Rightarrow>
     case store_run (hashmap_insert entries_hashmap_parameters) (hashmap_remove entries_hashmap_parameters)
         [Put example_url, Put other_url, Del example_url] (the hm) m1 of (events, hm', m2) \<Rightarrow>
       hashmap_lookup entries_hashmap_parameters hm' other_url = replay entries_hashmap_key_eq (\<lambda>_. None) events other_url \<and>
       held (hashmap_destroy entries_hashmap_parameters hm' m2) = held (fresh_mem [True, True])"
proof -
  obtain hm :: "(nsurl, store_entry) hashmap" and m1 where create: "hashmap_create (fresh_mem [True, True]) = (Some hm, m1)"
    by (simp add: hashmap_create_def malloc_def mem_next_def fresh_mem_def)
  obtain events hm' m2 where run: "store_run (hashmap_insert entries_hashmap_parameters)
      (hashmap_remove entries_hashmap_parameters) [Put example_url, Put other_url, Del example_url] hm m1 = (events, hm', m2)"
    by (rule prod_cases3) blast
  have "\<forall>op \<in> set [Put example_url, Put other_url, Del example_url]. hash_valid (op_key op)"
    using example_urls by simp
  from entries_map_refines [OF create this example_urls(2) run] show ?thesis
    unfolding create prod.case option.sel run by blast
qed

definition empty_store :: "store_state \<Rightarrow> bool" where
  "empty_store st \<longleftrightarrow> files_inv (ss_path st) (ss_blocks st) \<and> (\<exists>m m'. hashmap_create m = (Some (ss_entries st), m'))"

lemma empty_store_good: "empty_store st \<Longrightarrow> good U large (\<lambda>_ _. Never) st w"
proof -
  assume "empty_store st"
  then obtain m m' where files: "files_inv (ss_path st) (ss_blocks st)" and c: "hashmap_create m = (Some (ss_entries st), m')"
    by (auto simp: empty_store_def)
  have "entry_lookup st u = None" for u
    by (rule hashmap_create_lookup [OF c])
  moreover have "hashmap_inv hash_valid entries_hashmap_parameters (ss_entries st)"
    using hashmap_create_inv [OF c] by blast
  ultimately show ?thesis
    using files by (simp add: good_def store_inv_def coherent_def)
qed

lemma example_empty: "empty_store (example_store example_blocks)"
proof -
  have "hashmap_create (fresh_mem []) = (Some (ss_entries (example_store example_blocks)), snd (hashmap_create (fresh_mem [])))"
    by (simp add: hashmap_create_def malloc_def mem_next_def fresh_mem_def example_store_def)
  then show ?thesis
    using store_invD(2) [OF example_store_inv] by (auto simp: empty_store_def)
qed



lemma good_promise:
  "good U large G st w \<Longrightarrow> hash_valid u \<Longrightarrow> entry_lookup st u = Some ent \<Longrightarrow> promise_ok (G u e) (ss_path st) w e ent"
  unfolding good_def coherent_def by blast


text \<open>A store all whose blocks are taken, for evaluation.\<close>

definition example_small :: store_state where
  "example_small = (example_store (replicate BLOCK_FILE_COUNT \<lparr>bf_fd = None, bf_use_map = replicate BLOCK_USE_MAP_SIZE 0xff\<rparr>))
     \<lparr>ss_entries := \<lparr>hm_buckets = [[], [], []], hm_bucket_count = 3, hm_entry_count = 0\<rparr>\<rparr>"

lemma example_small_inv: "store_inv U large example_small"
proof -
  have "chain_ok hash_valid entries_hashmap_parameters 3 b ([[], [], []] ! b)" if "b < 3" for b :: nat
    using that by (auto simp: less_Suc_eq numeral_3_eq_3)
  then have "hashmap_inv hash_valid entries_hashmap_parameters (ss_entries example_small)"
    by (simp add: example_small_def hashmap_inv_def)
  moreover have "entry_lookup example_small u = None" for u
    using nth_mem [of "unat (nsurl_hash u mod 3)" "[[], [], []] :: (nsurl, store_entry) hashmap_entry list list"] unat_mono [OF word_mod_less_divisor [of 3 "nsurl_hash u"]]
    by (auto simp: example_small_def hashmap_lookup_def hashmap_bucket_def Let_def)
  moreover have "files_inv (ss_path example_small) (ss_blocks example_small)"
    by (simp add: files_inv_def example_small_def example_store_def blocks_wf_def)
  ultimately show ?thesis
    by (simp add: store_inv_def)
qed

lemma example_small_run:
  "case store insertion_sort example_small example_url 0 [1, 2, 3] (example_world []) of (ret1, st1, w1) \<Rightarrow>
     ret1 = NSERROR_OK \<and>
     (case entry_lookup st1 example_url of None \<Rightarrow> True | Some x \<Rightarrow> se_flags x AND ENTRY_FLAGS_INVALID = 0) \<and>
     (case release st1 example_url 0 w1 of (ret2, st2, w2) \<Rightarrow> w_io w2 = [] \<and> mem_oracle (w_mem w2) = [])"
  by code_simp


lemma find_or_insert_complete:
  assumes "plenty (w_mem w)"
  shows "\<exists>se st' w'. find_or_insert st url w = (Some se, st', w') \<and> w_io w' = w_io w \<and> plenty (w_mem w') \<and>
    ss_blocks st' = ss_blocks st \<and> (case entry_lookup st url of None \<Rightarrow> \<forall>e. elem e se = zero_element | Some x \<Rightarrow> se = x)"
proof (cases "entry_lookup st url")
  case (Some x)
  then show ?thesis
    using assms by (simp add: find_or_insert_def)
next
  case None
  obtain r hm' m' where i: "hashmap_insert entries_hashmap_parameters (ss_entries st) url (w_mem w) = (r, hm', m')"
    by (rule prod_cases3) blast
  have "chain_find entries_hashmap_parameters (nsurl_hash url) url
      (hm_buckets (ss_entries st) ! hashmap_bucket (ss_entries st) (nsurl_hash url)) = None"
    using None by (simp add: hashmap_lookup_def Let_def split: option.splits)
  moreover obtain b1 m1 where 1: "malloc (w_mem w) = (b1, m1)"
    by (cases "malloc (w_mem w)")
  moreover obtain b2 m2 where 2: "malloc (url_handle_ref m1) = (b2, m2)"
    by (cases "malloc (url_handle_ref m1)")
  moreover have "b1 \<and> plenty m1"
    using malloc_plenty [OF 1 assms] .
  moreover from this have "b2 \<and> plenty m2"
    using malloc_plenty [OF 2] by simp
  ultimately have "r \<noteq> None \<and> plenty m'"
    using i by (auto simp: hashmap_insert_def Let_def entries_hashmap_parameters_def entries_hashmap_value_alloc_def)
  then show ?thesis
    using None i inserted_value [OF None, of "w_mem w" _ hm' m'] by (auto simp: find_or_insert_def)
qed

text \<open>
  When no system call or allocation fails, the cache is below its limit and the element
  is not in use, a store succeeds.
\<close>

theorem store_succeeds:
  assumes room: "ss_total_alloc st < ss_limit st" and sys: "w_io w = []" "plenty (w_mem w)"
    and idle: "\<forall>x. entry_lookup st url = Some x \<longrightarrow> \<not> in_use (elem (element_index flags) x)"
    and len: "length data < 2 ^ 32"
  shows "\<exists>st' w'. store qsort st url flags data w = (NSERROR_OK, st', w')"
proof -
  let ?e = "element_index flags"
  obtain se st2 w2 where 2: "find_or_insert st url w = (Some se, st2, w2)" "w_io w2 = []" "plenty (w_mem w2)"
      "case entry_lookup st url of None \<Rightarrow> \<forall>e. elem e se = zero_element | Some x \<Rightarrow> se = x"
    using find_or_insert_complete [OF sys(2), of st url] sys(1) by auto
  have free: "\<not> in_use (elem ?e se)"
    using idle 2(4) by (cases "entry_lookup st url") (simp_all add: zero_element_def in_use_def)
  obtain se' st3 where 3: "set_element ?e data (w_now w2) se st2 = (se', st3)"
    by (cases "set_element ?e data (w_now w2) se st2")
  let ?st4 = "(write_entry_at url (\<lambda>_. se') st3)\<lparr>ss_entries_dirty := True\<rparr>"
  have set_entry: "set_store_entry qsort st url ?e data w = (Inr se', ?st4, w2)"
    using room 2 free 3 by (simp add: set_store_entry_def store_evict_def)
  have "length (element_bytes (elem ?e se')) = unat (el_size (elem ?e se'))"
    using 3 len by (auto simp: set_element_def Let_def element_bytes_def unat_of_nat take_bit_nat_eq_self split: prod.splits)
  then have written: "fst (nsu_pwrite fd (element_bytes (elem ?e se')) off w) = Some (unat (el_size (elem ?e se')))"
    if "w_io w = []" for fd off w
    using that by (simp add: nsu_pwrite_def io_next_def io_count_def)
  have opened: "\<exists>w'. store_open ?st4 i k True w2 = (Some (fname_text (ss_path ?st4) i k), w') \<and> w_io w' = []" for i k
    using store_open_complete [OF 2(2,3), of True ?st4 i k] by auto
  show ?thesis
  proof (cases "el_block (elem ?e se') = 0")
    case True
    obtain w4 where 4: "store_open ?st4 (nsurl_hash (se_url se')) (elem_number ?e) True w2 =
        (Some (fname_text (ss_path ?st4) (nsurl_hash (se_url se')) (elem_number ?e)), w4)" "w_io w4 = []"
      using opened by blast
    have "fst (store_write_file ?st4 se' ?e w2) = NSERROR_OK"
      using 4(1) written [OF 4(2)] by (simp add: store_write_file_def split_beta)
    then show ?thesis
      using set_entry True by (auto simp: store_def Let_def split_beta)
  next
    case False
    let ?bf = "block_file_of (el_block (elem ?e se'))"
    obtain fd st5 w5 where 5: "open_block_file ?st4 ?bf ?e w2 = (Some fd, st5, w5)" "w_io w5 = []"
    proof (cases "bf_fd (ss_blocks ?st4 ?e ! ?bf)")
      case None
      then show ?thesis
        using that opened [of "word_of_nat ?bf" "elem_number ?e + ENTRY_ELEM_COUNT"] by (auto simp: open_block_file_def)
    next
      case (Some fd)
      then show ?thesis
        using that [of fd ?st4 w2] 2(2) by (simp add: open_block_file_def)
    qed
    have "fst (store_write_block ?st4 se' ?e w2) = NSERROR_OK"
      using 5(1) written [OF 5(2)] by (simp add: store_write_block_def Let_def split_beta)
    then show ?thesis
      using set_entry False by (simp add: store_def Let_def) (metis prod.collapse)
  qed
qed

lemma example_store_lookup: "entry_lookup (example_store example_blocks) u = None"
  using example_empty hashmap_create_lookup by (fastforce simp: empty_store_def)

theorem store_succeeds_witness:
  "\<exists>st' w'. store insertion_sort (example_store example_blocks) example_url 0 [1, 2, 3] (example_world []) = (NSERROR_OK, st', w')"
  by (rule store_succeeds)
    (simp_all add: example_store_lookup, simp_all add: example_store_def example_world_def plenty_def fresh_mem_def)

section \<open>Differences from the documentation\<close>

text \<open>
  An element that has a block keeps it when more than a block's size is stored in it, and the
  write goes over the blocks behind.
\<close>

lemma set_element_keeps_block:
  assumes "2 ^ 13 < length data" and "length data < 2 ^ 32" and "set_element e data now se st = (se', st')"
  shows "el_block (elem e se') = el_block (elem e se) \<and> unat (el_size (elem e se')) = length data"
proof -
  have "\<not> (of_nat (length data) :: 32 word) \<le> 8192"
    using assms(1,2) by (simp add: word_le_nat_alt unat_of_nat take_bit_nat_eq_self)
  then show ?thesis
    using assms(2,3) by (auto simp: set_element_def Let_def unat_of_nat take_bit_nat_eq_self split: if_splits)
qed

text \<open>The count of users has eight bits: with 256 more users it is what it was.\<close>

lemma reference_count_wraps: "((\<lambda>el. el\<lparr>el_ref := el_ref el + 1\<rparr>) ^^ 256) el = el"
proof -
  have "((\<lambda>el. el\<lparr>el_ref := el_ref el + 1\<rparr>) ^^ n) el = el\<lparr>el_ref := el_ref el + word_of_nat n\<rparr>" for n
    by (induction n) (simp_all add: algebra_simps)
  then show ?thesis by simp
qed

text \<open>An invalidated element that is in memory is still served.\<close>

lemma fetch_serves_invalidated:
  assumes "entry_lookup st url = Some x" and "se_flags x AND ENTRY_FLAGS_INVALID \<noteq> 0"
    and "el_flags (elem (element_index flags) x) AND ENTRY_ELEM_FLAG_HEAP \<noteq> 0"
  shows "fst (fetch st url flags w) = Inr (element_bytes (elem (element_index flags) x))"
  using assms by (simp add: fetch_def get_store_entry_def Let_def)

end
