(* ===== verification/Http_Primitives.thy ===== *)
theory Http_Primitives
  imports Wapcaplet
begin

text \<open>
  \<^verbatim>\<open>src/utils/http/primitives.c\<close> and \<^verbatim>\<open>src/utils/http/generics.c\<close>: tokens, quoted strings and
  lists of items in the values of HTTP headers.

  A parser takes the text at \<^verbatim>\<open>*input\<close> and returns an error or the item with the text that is
  left. The interface \<open>item_parser\<close> says what a parser of items owes its callers: which texts
  it accepts (its grammar), that it only fails otherwise for want of memory, and what it
  holds. The list parser is a client of the interface; the parsers of this and the following
  theories provide it.
\<close>

section \<open>Definitions\<close>

definition is_LWS :: "char \<Rightarrow> bool" where
  "is_LWS c \<longleftrightarrow> c = CHR '' '' \<or> c = CHR 0x09"

fun http__skip_LWS :: "string \<Rightarrow> string" where
  "http__skip_LWS [] = []"
| "http__skip_LWS (c # s) = (if is_LWS c then http__skip_LWS s else c # s)"

definition http_is_token_char :: "char \<Rightarrow> bool" where
  "http_is_token_char c =
     (if ord_char c \<le> ord_char CHR '' '' \<or> 126 < ord_char c then False
      else c \<notin> set (''()<>@,;:'' @ [CHR 0x5C, CHR 0x22] @ ''/[]?={}''))"

definition http__parse_token :: "string \<Rightarrow> mem \<Rightarrow> (string \<times> string) result \<times> mem" where
  "http__parse_token input m =
     (let token = takeWhile http_is_token_char input in
      if token = [] then (Inl NSERROR_NOT_FOUND, m)
      else (case lwc_intern_string token m of
          (None, m1) \<Rightarrow> (Inl NSERROR_NOMEM, m1)
        | (Some value, m1) \<Rightarrow> (Inr (value, drop (length token) input), m1)))"

definition is_qdtext :: "char \<Rightarrow> bool" where
  "is_qdtext c \<longleftrightarrow> c = CHR 0x09 \<or> c = CHR 0x0D \<or> c = CHR 0x0A \<or> c = CHR '' '' \<or> c = CHR ''!'' \<or>
     ord_char CHR ''#'' \<le> ord_char c \<and> ord_char c \<le> 126 \<or> ord_char c > 127"

definition http__parse_quoted_string :: "string \<Rightarrow> mem \<Rightarrow> (string \<times> string) result \<times> mem" where
  "http__parse_quoted_string input m =
     (if peek input \<noteq> CHR 0x22 then (Inl NSERROR_NOT_FOUND, m)
      else (let start = tl input; text = takeWhile is_qdtext start; rest = drop (length text) start in
        if peek rest \<noteq> CHR 0x22 then (Inl NSERROR_NOT_FOUND, m)
        else (case lwc_intern_string text m of
            (None, m1) \<Rightarrow> (Inl NSERROR_NOMEM, m1)
          | (Some value, m1) \<Rightarrow> (Inr (value, tl rest), m1))))"

text \<open>
  A list is linked from the item read last to the first, so it is the list of the items in
  reverse order.
\<close>

fun http___item_list_destroy :: "('i \<Rightarrow> mem \<Rightarrow> mem) \<Rightarrow> 'i list \<Rightarrow> mem \<Rightarrow> mem" where
  "http___item_list_destroy free_item [] m = m"
| "http___item_list_destroy free_item (victim # list) m = http___item_list_destroy free_item list (free_item victim m)"

type_synonym 'i item_parse = "string \<Rightarrow> mem \<Rightarrow> ('i \<times> string) result \<times> mem"

text \<open>
  The loop ends where the text does unless the separator is NUL, when it runs past the end
  of the string (\<open>None\<close>).
\<close>

partial_function (option) item_list_loop ::
  "char \<Rightarrow> 'i item_parse \<Rightarrow> nserror \<Rightarrow> string \<Rightarrow> 'i list \<Rightarrow> mem \<Rightarrow> (nserror \<times> string \<times> 'i list \<times> mem) option" where
  "item_list_loop separator itemparser error pos list m =
     (if peek pos \<noteq> separator then Some (error, pos, list, m)
      else if pos = [] then None
      else (let pos1 = http__skip_LWS (tl pos) in
        case itemparser pos1 m of
          (Inr (item, pos2), m1) \<Rightarrow>
            item_list_loop separator itemparser NSERROR_OK (http__skip_LWS pos2) (item # list) m1
        | (Inl e, m1) \<Rightarrow>
            if e \<noteq> NSERROR_NOT_FOUND then Some (e, pos1, list, m1)
            else item_list_loop separator itemparser e pos1 list m1))"

definition http___item_list_parse ::
  "string \<Rightarrow> 'i item_parse \<Rightarrow> ('i \<Rightarrow> mem \<Rightarrow> mem) \<Rightarrow> 'i list \<Rightarrow> mem \<Rightarrow> (('i list \<times> string) result \<times> mem) option" where
  "http___item_list_parse input itemparser free_item first m =
     (case item_list_loop (peek input) itemparser NSERROR_OK input first m of
        None \<Rightarrow> None
      | Some (error, pos, list, m1) \<Rightarrow>
          if error \<noteq> NSERROR_OK \<and> error \<noteq> NSERROR_NOT_FOUND
          then Some (Inl error, http___item_list_destroy free_item list m1)
          else if list = [] then Some (Inl NSERROR_NOT_FOUND, m1)
          else Some (Inr (list, pos), m1))"

section \<open>Parsers and their grammars\<close>

definition follows :: "('a \<times> string) option \<Rightarrow> ('a \<times> string) result" where
  "follows g = (case g of None \<Rightarrow> Inl NSERROR_NOT_FOUND | Some x \<Rightarrow> Inr x)"

lemma follows_simps [simp]: "follows None = Inl NSERROR_NOT_FOUND" "follows (Some x) = Inr x"
  by (simp_all add: follows_def)

definition result_foot :: "('i \<Rightarrow> footprint) \<Rightarrow> ('i \<times> string) result \<Rightarrow> footprint" where
  "result_foot foot r = (case r of Inl _ \<Rightarrow> 0 | Inr (i, _) \<Rightarrow> foot i)"

lemma result_foot_simps [simp]: "result_foot foot (Inl e) = 0" "result_foot foot (Inr (i, s)) = foot i"
  by (simp_all add: result_foot_def)

locale item_parser =
  fixes parse :: "'i item_parse"
    and gram :: "string \<Rightarrow> ('i \<times> string) option"
    and foot :: "'i \<Rightarrow> footprint"
  assumes gram_rest: "gram s = Some (i, s') \<Longrightarrow> \<exists>t. s = t @ s'"
    and outcome: "parse s m = (r, m') \<Longrightarrow> r = follows (gram s) \<or> r = Inl NSERROR_NOMEM \<and> \<not> plenty m"
    and keeps_plenty: "parse s m = (r, m') \<Longrightarrow> plenty m \<Longrightarrow> plenty m'"
    and books: "parse s m = (r, m') \<Longrightarrow> held m' = held m + result_foot foot r"
begin

lemma enough: "parse s m = (r, m') \<Longrightarrow> plenty m \<Longrightarrow> r = follows (gram s) \<and> plenty m'"
  using outcome keeps_plenty by blast

lemma error_cases: "parse s m = (Inl e, m') \<Longrightarrow>
    held m' = held m \<and> (e = NSERROR_NOT_FOUND \<and> gram s = None \<or> e = NSERROR_NOMEM \<and> \<not> plenty m)"
  using outcome [of s m "Inl e" m'] books [of s m "Inl e" m'] by (cases "gram s") auto

lemma item_case: "parse s m = (Inr (i, s'), m') \<Longrightarrow> gram s = Some (i, s') \<and> held m' = held m + foot i"
  using outcome [of s m "Inr (i, s')" m'] books [of s m "Inr (i, s')" m'] by (cases "gram s") auto

lemma gram_shorter: "gram s = Some (i, s') \<Longrightarrow> length s' \<le> length s"
  using gram_rest by fastforce

end

text \<open>A class of items: a parser and the destructor of what it makes.\<close>

locale item_class = item_parser parse gram foot
  for parse :: "'i item_parse" and gram and foot +
  fixes free_item :: "'i \<Rightarrow> mem \<Rightarrow> mem"
  assumes free_books: "held (free_item i m) = held m - foot i"
    and free_plenty: "plenty (free_item i m) = plenty m"

section \<open>Tokens and quoted strings\<close>

definition token_gram :: "string \<Rightarrow> (string \<times> string) option" where
  "token_gram s = (if takeWhile http_is_token_char s = [] then None
     else Some (takeWhile http_is_token_char s, dropWhile http_is_token_char s))"

definition quoted_gram :: "string \<Rightarrow> (string \<times> string) option" where
  "quoted_gram s = (case s of
     c # t \<Rightarrow> if c = CHR 0x22 \<and> peek (dropWhile is_qdtext t) = CHR 0x22
       then Some (takeWhile is_qdtext t, tl (dropWhile is_qdtext t)) else None
   | [] \<Rightarrow> None)"

lemma drop_takeWhile: "drop (length (takeWhile P s)) s = dropWhile P s"
  by (simp add: dropWhile_eq_drop)

interpretation token: item_class http__parse_token token_gram "\<lambda>_. a_ref" "\<lambda>_. lwc_string_unref"
proof
  fix s i s' assume "token_gram s = Some (i, s')"
  then show "\<exists>t. s = t @ s'"
    by (metis option.discI option.inject prod.inject takeWhile_dropWhile_id token_gram_def)
next
  fix s m r m' assume p: "http__parse_token s m = (r, m')"
  show "r = follows (token_gram s) \<or> r = Inl NSERROR_NOMEM \<and> \<not> plenty m"
    using p by (auto simp: http__parse_token_def token_gram_def Let_def drop_takeWhile
        dest: lwc_intern_string_Some lwc_intern_string_plenty split: if_splits prod.splits option.splits)
  show "plenty m \<Longrightarrow> plenty m'"
    using p by (auto simp: http__parse_token_def Let_def dest: lwc_intern_string_plenty split: if_splits prod.splits option.splits)
  show "held m' = held m + result_foot (\<lambda>_. a_ref) r"
    using p by (auto simp: http__parse_token_def Let_def dest!: lwc_intern_string_held split: if_splits prod.splits option.splits)
qed simp_all

interpretation quoted: item_class http__parse_quoted_string quoted_gram "\<lambda>_. a_ref" "\<lambda>_. lwc_string_unref"
proof
  fix s i s' assume g: "quoted_gram s = Some (i, s')"
  then obtain t where t: "s = CHR 0x22 # t" "peek (dropWhile is_qdtext t) = CHR 0x22" "s' = tl (dropWhile is_qdtext t)"
    by (auto simp: quoted_gram_def split: list.splits if_splits)
  then have "s = (CHR 0x22 # takeWhile is_qdtext t @ [CHR 0x22]) @ s'"
    using takeWhile_dropWhile_id [of is_qdtext t] by (cases "dropWhile is_qdtext t") auto
  then show "\<exists>t. s = t @ s'" ..
next
  fix s m r m' assume p: "http__parse_quoted_string s m = (r, m')"
  show "r = follows (quoted_gram s) \<or> r = Inl NSERROR_NOMEM \<and> \<not> plenty m"
    using p by (cases s) (auto simp: http__parse_quoted_string_def quoted_gram_def Let_def drop_takeWhile
        dest: lwc_intern_string_Some lwc_intern_string_plenty split: if_splits prod.splits option.splits)
  show "plenty m \<Longrightarrow> plenty m'"
    using p by (auto simp: http__parse_quoted_string_def Let_def dest: lwc_intern_string_plenty split: if_splits prod.splits option.splits)
  show "held m' = held m + result_foot (\<lambda>_. a_ref) r"
    using p by (auto simp: http__parse_quoted_string_def Let_def dest!: lwc_intern_string_held split: if_splits prod.splits option.splits)
qed simp_all

section \<open>Lists of items\<close>

text \<open>
  What a list of items is: separators, each followed by white space and perhaps an item and
  white space. The list ends where no separator follows.
\<close>

inductive item_list_gram :: "(string \<Rightarrow> ('i \<times> string) option) \<Rightarrow> char \<Rightarrow> string \<Rightarrow> 'i list \<Rightarrow> string \<Rightarrow> bool"
  for gram separator where
  finish: "peek s \<noteq> separator \<Longrightarrow> item_list_gram gram separator s [] s"
| item: "gram (http__skip_LWS s) = Some (i, s1) \<Longrightarrow> item_list_gram gram separator (http__skip_LWS s1) items rest \<Longrightarrow>
    item_list_gram gram separator (separator # s) (i # items) rest"
| gap: "gram (http__skip_LWS s) = None \<Longrightarrow> item_list_gram gram separator (http__skip_LWS s) items rest \<Longrightarrow>
    item_list_gram gram separator (separator # s) items rest"

inductive_cases item_list_gramE: "item_list_gram gram separator s items rest"

lemma skip_LWS_dropWhile: "http__skip_LWS s = dropWhile is_LWS s"
  by (induction s) auto

lemma skip_LWS_length: "length (http__skip_LWS s) \<le> length s"
  by (simp add: skip_LWS_dropWhile length_dropWhile_le)

definition foots :: "('i \<Rightarrow> footprint) \<Rightarrow> 'i list \<Rightarrow> footprint" where
  "foots foot items = sum_list (map foot items)"

lemma foots_simps [simp]:
  "foots foot [] = 0" "foots foot (i # items) = foot i + foots foot items"
  "foots foot (xs @ ys) = foots foot xs + foots foot ys" "foots foot (rev xs) = foots foot xs"
  by (simp_all add: foots_def rev_map [symmetric] sum_list_rev)

context item_class
begin

lemma destroy_list: "held (http___item_list_destroy free_item list m) = held m - foots foot list"
  by (induction list arbitrary: m) (simp_all add: free_books)

lemma list_loop:
  assumes "separator \<noteq> NUL"
  shows "\<exists>e' pos' items m'. item_list_loop separator parse e pos list m = Some (e', pos', rev items @ list, m') \<and>
    held m' = held m + foots foot items \<and>
    (e' = NSERROR_NOMEM \<and> \<not> plenty m \<or>
     (e' = e \<or> e' = NSERROR_OK \<or> e' = NSERROR_NOT_FOUND) \<and> item_list_gram gram separator pos items pos') \<and>
    (plenty m \<longrightarrow> plenty m')"
proof (induction "length pos" arbitrary: e pos list m rule: less_induct)
  case less
  note unfold = item_list_loop.simps [of separator parse e pos list m]
  show ?case
  proof (cases "peek pos = separator")
    case False
    then show ?thesis
      using unfold item_list_gram.finish [of pos separator gram] by (auto intro!: exI [of _ "[]"])
  next
    case True
    then obtain s where pos: "pos = separator # s"
      using assms by (cases pos) auto
    let ?s = "http__skip_LWS s"
    obtain r m1 where p: "parse ?s m = (r, m1)"
      by (cases "parse ?s m")
    have short: "length ?s < length pos"
      using skip_LWS_length [of s] by (simp add: pos less_Suc_eq_le)
    show ?thesis
    proof (cases r)
      case (Inr x)
      obtain i s1 where x: "x = (i, s1)" by (cases x)
      have g: "gram ?s = Some (i, s1)" and b: "held m1 = held m + foot i"
        using item_case p Inr x by blast+
      have "length (http__skip_LWS s1) < length pos"
        using short gram_shorter [OF g] skip_LWS_length [of s1] by simp
      then obtain e' pos' items m' where rec:
          "item_list_loop separator parse NSERROR_OK (http__skip_LWS s1) (i # list) m1 = Some (e', pos', rev items @ i # list, m')"
          "held m' = held m1 + foots foot items" "plenty m1 \<longrightarrow> plenty m'"
          "e' = NSERROR_NOMEM \<and> \<not> plenty m1 \<or>
           (e' = NSERROR_OK \<or> e' = NSERROR_NOT_FOUND) \<and> item_list_gram gram separator (http__skip_LWS s1) items pos'"
        using less [of "http__skip_LWS s1" NSERROR_OK "i # list" m1] by auto
      show ?thesis
        using rec b p Inr x pos unfold keeps_plenty [OF p] item_list_gram.item [of gram s i s1 separator items pos', OF g]
        by (intro exI [of _ e'] exI [of _ pos'] exI [of _ "i # items"] exI [of _ m']) (auto simp: algebra_simps)
    next
      case (Inl e1)
      have err: "held m1 = held m" "e1 = NSERROR_NOT_FOUND \<and> gram ?s = None \<or> e1 = NSERROR_NOMEM \<and> \<not> plenty m"
        using error_cases p Inl by blast+
      show ?thesis
      proof (cases "e1 = NSERROR_NOT_FOUND")
        case False
        then show ?thesis
          using err p Inl pos unfold by (intro exI [of _ e1] exI [of _ ?s] exI [of _ "[]"] exI [of _ m1]) auto
      next
        case True
        obtain e' pos' items m' where rec:
          "item_list_loop separator parse e1 ?s list m1 = Some (e', pos', rev items @ list, m')"
          "held m' = held m1 + foots foot items" "plenty m1 \<longrightarrow> plenty m'"
          "e' = NSERROR_NOMEM \<and> \<not> plenty m1 \<or>
           (e' = NSERROR_OK \<or> e' = NSERROR_NOT_FOUND) \<and> item_list_gram gram separator ?s items pos'"
          using less [OF short, of e1 list m1] True by auto
        show ?thesis
          using rec err p Inl True pos unfold keeps_plenty [OF p] item_list_gram.gap [of gram s separator items pos']
          by (intro exI [of _ e'] exI [of _ pos'] exI [of _ items] exI [of _ m']) auto
      qed
    qed
  qed
qed

lemma list_parse:
  assumes "peek input \<noteq> NUL"
  shows "\<exists>r m'. http___item_list_parse input parse free_item first m = Some (r, m') \<and> (plenty m \<longrightarrow> plenty m') \<and>
    (r = Inl NSERROR_NOMEM \<and> \<not> plenty m \<and> held m' = held m - foots foot first \<or>
     (\<exists>items rest. item_list_gram gram (peek input) input items rest \<and> held m' = held m + foots foot items \<and>
        r = (if items = [] \<and> first = [] then Inl NSERROR_NOT_FOUND else Inr (rev items @ first, rest))))"
proof -
  obtain e' pos' items m' where l: "item_list_loop (peek input) parse NSERROR_OK input first m = Some (e', pos', rev items @ first, m')"
      "held m' = held m + foots foot items"
      "e' = NSERROR_NOMEM \<and> \<not> plenty m \<or>
       (e' = NSERROR_OK \<or> e' = NSERROR_NOT_FOUND) \<and> item_list_gram gram (peek input) input items pos'"
      "plenty m \<longrightarrow> plenty m'"
    using list_loop [OF assms, of NSERROR_OK input first m] by blast
  show ?thesis
  proof (cases "e' = NSERROR_NOMEM")
    case True
    then show ?thesis
      using l destroy_list [of "rev items @ first" m'] by (auto simp: http___item_list_parse_def)
  next
    case False
    then show ?thesis
      using l by (auto simp: http___item_list_parse_def)
  qed
qed

end

end
