(* ===== verification/Http_Parameter.thy ===== *)
theory Http_Parameter
  imports Http_Primitives
begin

text \<open>
  Parameters and directives of HTTP headers: \<^verbatim>\<open>src/utils/http/parameter.c\<close> and the directives
  of \<^verbatim>\<open>src/utils/http/cache-control.c\<close>, of which \<^verbatim>\<open>strict-transport-security.c\<close> has an identical
  copy. Both are item classes in the sense of \<open>Http_Primitives\<close>. Then the texts that denote a
  list of them (white space wherever the headers allow it), and that the list parser reads
  the list back.
\<close>

section \<open>Parameters\<close>

record http_parameter =
  param_name :: string
  param_value :: string

definition http_destroy_parameter :: "http_parameter \<Rightarrow> mem \<Rightarrow> mem" where
  "http_destroy_parameter self m = free_block (lwc_string_unref (lwc_string_unref m))"

definition parse_value :: "string \<Rightarrow> mem \<Rightarrow> (string \<times> string) result \<times> mem" where
  "parse_value pos m =
     (if peek pos = CHR 0x22 then http__parse_quoted_string pos m else http__parse_token pos m)"

definition http__parse_parameter :: "string \<Rightarrow> mem \<Rightarrow> (http_parameter \<times> string) result \<times> mem" where
  "http__parse_parameter input m =
     (case http__parse_token input m of
        (Inl error, m1) \<Rightarrow> (Inl error, m1)
      | (Inr (name, pos), m1) \<Rightarrow>
          (let pos = http__skip_LWS pos in
           if peek pos \<noteq> CHR ''='' then (Inl NSERROR_NOT_FOUND, lwc_string_unref m1)
           else (let pos = http__skip_LWS (tl pos) in
             case parse_value pos m1 of
               (Inl error, m2) \<Rightarrow> (Inl error, lwc_string_unref m2)
             | (Inr (value, pos), m2) \<Rightarrow>
                 (case malloc m2 of (ok, m3) \<Rightarrow>
                    if \<not> ok then (Inl NSERROR_NOMEM, lwc_string_unref (lwc_string_unref m3))
                    else (Inr (\<lparr>param_name = name, param_value = value\<rparr>, pos), m3)))))"

fun http_parameter_list_find_item :: "http_parameter list \<Rightarrow> string \<Rightarrow> mem \<Rightarrow> string result \<times> mem" where
  "http_parameter_list_find_item [] name m = (Inl NSERROR_NOT_FOUND, m)"
| "http_parameter_list_find_item (p # list) name m =
     (case lwc_string_caseless_isequal name (param_name p) m of (match, m1) \<Rightarrow>
        if match = Some True then (Inr (param_value p), lwc_string_ref m1)
        else http_parameter_list_find_item list name m1)"

definition http_parameter_list_iterate ::
  "http_parameter list \<Rightarrow> mem \<Rightarrow> (http_parameter list \<times> string \<times> string) option \<times> mem" where
  "http_parameter_list_iterate cur m = (case cur of
     [] \<Rightarrow> (None, m)
   | p # next \<Rightarrow> (Some (next, param_name p, param_value p), lwc_string_ref (lwc_string_ref m)))"

definition http_parameter_list_destroy :: "http_parameter list \<Rightarrow> mem \<Rightarrow> mem" where
  "http_parameter_list_destroy list m = http___item_list_destroy http_destroy_parameter list m"

section \<open>Directives\<close>

record http_directive =
  dir_name :: string
  dir_value :: "string option"

definition unref_value :: "string option \<Rightarrow> mem \<Rightarrow> mem" where
  "unref_value value m = (case value of None \<Rightarrow> m | Some _ \<Rightarrow> lwc_string_unref m)"

definition ref_value :: "string option \<Rightarrow> mem \<Rightarrow> mem" where
  "ref_value value m = (case value of None \<Rightarrow> m | Some _ \<Rightarrow> lwc_string_ref m)"

definition http_destroy_directive :: "http_directive \<Rightarrow> mem \<Rightarrow> mem" where
  "http_destroy_directive self m = free_block (unref_value (dir_value self) (lwc_string_unref m))"

definition http__parse_directive :: "string \<Rightarrow> mem \<Rightarrow> (http_directive \<times> string) result \<times> mem" where
  "http__parse_directive input m =
     (case http__parse_token input m of
        (Inl error, m1) \<Rightarrow> (Inl error, m1)
      | (Inr (name, pos), m1) \<Rightarrow>
          (let pos = http__skip_LWS pos in
           case (if peek pos = CHR ''=''
                 then (case parse_value (http__skip_LWS (tl pos)) m1 of
                     (Inl error, m2) \<Rightarrow> (Inl error, lwc_string_unref m2)
                   | (Inr (value, pos), m2) \<Rightarrow> (Inr (Some value, pos), m2))
                 else (Inr (None, pos), m1)) of
             (Inl error, m2) \<Rightarrow> (Inl error, m2)
           | (Inr (value, pos), m2) \<Rightarrow>
               (case malloc m2 of (ok, m3) \<Rightarrow>
                  if \<not> ok then (Inl NSERROR_NOMEM, lwc_string_unref (unref_value value m3))
                  else (Inr (\<lparr>dir_name = name, dir_value = value\<rparr>, pos), m3))))"

definition http_directive_list_destroy :: "http_directive list \<Rightarrow> mem \<Rightarrow> mem" where
  "http_directive_list_destroy list m = http___item_list_destroy http_destroy_directive list m"

fun http_directive_list_find_item ::
  "http_directive list \<Rightarrow> string \<Rightarrow> mem \<Rightarrow> string option result \<times> mem" where
  "http_directive_list_find_item [] name m = (Inl NSERROR_NOT_FOUND, m)"
| "http_directive_list_find_item (d # list) name m =
     (case lwc_string_caseless_isequal name (dir_name d) m of (match, m1) \<Rightarrow>
        if match = Some True then (Inr (dir_value d), ref_value (dir_value d) m1)
        else http_directive_list_find_item list name m1)"

definition http_directive_list_iterate ::
  "http_directive list \<Rightarrow> mem \<Rightarrow> (http_directive list \<times> string \<times> string option) option \<times> mem" where
  "http_directive_list_iterate cur m = (case cur of
     [] \<Rightarrow> (None, m)
   | d # next \<Rightarrow> (Some (next, dir_name d, dir_value d), ref_value (dir_value d) (lwc_string_ref m)))"

fun directive_count :: "http_directive list \<Rightarrow> string \<Rightarrow> 32 word \<Rightarrow> mem \<Rightarrow> 32 word \<times> mem" where
  "directive_count [] key n m = (n, m)"
| "directive_count (d # list) key n m =
     (case lwc_string_caseless_isequal key (dir_name d) m of (match, m1) \<Rightarrow>
        directive_count list key (if match = Some True then n + 1 else n) m1)"

fun check_duplicates_loop ::
  "http_directive list \<Rightarrow> http_directive list \<Rightarrow> bool \<Rightarrow> mem \<Rightarrow> bool \<times> mem" where
  "check_duplicates_loop directives [] result m = (result, m)"
| "check_duplicates_loop directives (k # key) result m =
     (case http_directive_list_iterate (k # key) m of
        (None, m1) \<Rightarrow> (result, m1)
      | (Some (next, name, value), m1) \<Rightarrow>
          (case directive_count directives name 0 m1 of (n, m2) \<Rightarrow>
             check_duplicates_loop directives key (result \<and> n = 1) (unref_value value (lwc_string_unref m2))))"

definition check_duplicates :: "http_directive list \<Rightarrow> mem \<Rightarrow> bool \<times> mem" where
  "check_duplicates directives m =
     (if directives = [] then (True, m) else check_duplicates_loop directives directives True m)"

section \<open>Their grammars\<close>

definition value_gram :: "string \<Rightarrow> (string \<times> string) option" where
  "value_gram s = (if peek s = CHR 0x22 then quoted_gram s else token_gram s)"

definition parameter_gram :: "string \<Rightarrow> (http_parameter \<times> string) option" where
  "parameter_gram s = (case token_gram s of
     None \<Rightarrow> None
   | Some (name, s1) \<Rightarrow>
       if peek (http__skip_LWS s1) \<noteq> CHR ''='' then None
       else (case value_gram (http__skip_LWS (tl (http__skip_LWS s1))) of
          None \<Rightarrow> None
        | Some (value, s2) \<Rightarrow> Some (\<lparr>param_name = name, param_value = value\<rparr>, s2)))"

definition directive_gram :: "string \<Rightarrow> (http_directive \<times> string) option" where
  "directive_gram s = (case token_gram s of
     None \<Rightarrow> None
   | Some (name, s1) \<Rightarrow>
       if peek (http__skip_LWS s1) \<noteq> CHR ''='' then Some (\<lparr>dir_name = name, dir_value = None\<rparr>, http__skip_LWS s1)
       else (case value_gram (http__skip_LWS (tl (http__skip_LWS s1))) of
          None \<Rightarrow> None
        | Some (value, s2) \<Rightarrow> Some (\<lparr>dir_name = name, dir_value = Some value\<rparr>, s2)))"

definition parameter_foot :: "http_parameter \<Rightarrow> footprint" where
  "parameter_foot p = a_block + a_ref + a_ref"

definition directive_foot :: "http_directive \<Rightarrow> footprint" where
  "directive_foot d = a_block + a_ref + (case dir_value d of None \<Rightarrow> 0 | Some _ \<Rightarrow> a_ref)"

interpretation parsed_value: item_parser parse_value value_gram "\<lambda>_. a_ref"
proof
  fix s i s' assume "value_gram s = Some (i, s')"
  then show "\<exists>t. s = t @ s'"
    using token.gram_rest quoted.gram_rest by (auto simp: value_gram_def split: if_splits)
next
  fix s m r m' assume p: "parse_value s m = (r, m')"
  show "r = follows (value_gram s) \<or> r = Inl NSERROR_NOMEM \<and> \<not> plenty m" "plenty m \<Longrightarrow> plenty m'"
      "held m' = held m + result_foot (\<lambda>_. a_ref) r"
    using p token.outcome quoted.outcome token.keeps_plenty quoted.keeps_plenty token.books quoted.books
    by (auto simp: parse_value_def value_gram_def split: if_splits)
qed

lemma rest_trans: "\<exists>t. s = t @ s1 \<Longrightarrow> \<exists>t. s1 = t @ s2 \<Longrightarrow> \<exists>t. s = t @ (s2 :: string)"
  by (metis append.assoc)

lemma rest_tl: "\<exists>t. s = t @ tl s"
  by (cases s) (auto intro: exI [of _ "[hd s]"])

lemma rest_skip: "\<exists>t. s = t @ http__skip_LWS s"
  using takeWhile_dropWhile_id [of is_LWS s] by (metis skip_LWS_dropWhile)

lemma rest_pair: "\<exists>t. s = t @ http__skip_LWS (tl (http__skip_LWS (s :: string)))"
  by (rule rest_trans [OF rest_skip rest_trans [OF rest_tl rest_skip]])

interpretation parameter: item_class http__parse_parameter parameter_gram parameter_foot http_destroy_parameter
proof
  fix s i s' assume "parameter_gram s = Some (i, s')"
  then obtain name s1 v where "token_gram s = Some (name, s1)"
      "value_gram (http__skip_LWS (tl (http__skip_LWS s1))) = Some (v, s')"
    by (auto simp: parameter_gram_def split: option.splits if_splits)
  then show "\<exists>t. s = t @ s'"
    using token.gram_rest parsed_value.gram_rest rest_pair rest_trans by meson
next
  fix s m r m' assume p: "http__parse_parameter s m = (r, m')"
  obtain r1 m1 where 1: "http__parse_token s m = (r1, m1)"
    by (cases "http__parse_token s m")
  have "(r = follows (parameter_gram s) \<or> r = Inl NSERROR_NOMEM \<and> \<not> plenty m) \<and> (plenty m \<longrightarrow> plenty m') \<and>
    held m' = held m + result_foot parameter_foot r"
  proof (cases r1)
    case (Inl e)
    then have "held m1 = held m" "e = NSERROR_NOT_FOUND \<and> token_gram s = None \<or> e = NSERROR_NOMEM \<and> \<not> plenty m"
        "plenty m \<longrightarrow> plenty m1"
      using token.error_cases token.keeps_plenty 1 by blast+
    then show ?thesis
      using p 1 Inl by (auto simp: http__parse_parameter_def parameter_gram_def)
  next
    case (Inr x)
    obtain name s1 where x: "x = (name, s1)" by (cases x)
    have g: "token_gram s = Some (name, s1)" and b: "held m1 = held m + a_ref" and k: "plenty m \<longrightarrow> plenty m1"
      using token.item_case token.keeps_plenty [OF 1] 1 Inr x by blast+
    show ?thesis
    proof (cases "peek (http__skip_LWS s1) = CHR ''=''")
      case False
      then show ?thesis
        using p 1 Inr x g b k by (auto simp: http__parse_parameter_def parameter_gram_def)
    next
      case True
      let ?s2 = "http__skip_LWS (tl (http__skip_LWS s1))"
      obtain r2 m2 where 2: "parse_value ?s2 m1 = (r2, m2)"
        by (cases "parse_value ?s2 m1")
      show ?thesis
      proof (cases r2)
        case (Inl e)
        then have "held m2 = held m1" "e = NSERROR_NOT_FOUND \<and> value_gram ?s2 = None \<or> e = NSERROR_NOMEM \<and> \<not> plenty m1"
            "plenty m1 \<longrightarrow> plenty m2"
          using parsed_value.error_cases parsed_value.keeps_plenty 2 by blast+
        moreover have "r = Inl e" "m' = lwc_string_unref m2"
          using p 1 Inr x True 2 Inl by (simp_all add: http__parse_parameter_def)
        ultimately show ?thesis
          using g b k True by (auto simp: parameter_gram_def)
      next
        case (Inr y)
        obtain v s3 where y: "y = (v, s3)" by (cases y)
        have g2: "value_gram ?s2 = Some (v, s3)" and b2: "held m2 = held m1 + a_ref" and k2: "plenty m1 \<longrightarrow> plenty m2"
          using parsed_value.item_case parsed_value.keeps_plenty [OF 2] 2 Inr y by blast+
        obtain ok m3 where 3: "malloc m2 = (ok, m3)"
          by (cases "malloc m2")
        have "r = (if ok then Inr (\<lparr>param_name = name, param_value = v\<rparr>, s3) else Inl NSERROR_NOMEM)"
            "m' = (if ok then m3 else lwc_string_unref (lwc_string_unref m3))"
          using p 1 \<open>r1 = Inr x\<close> x True 2 Inr y 3 by (auto simp: http__parse_parameter_def)
        moreover have "parameter_gram s = Some (\<lparr>param_name = name, param_value = v\<rparr>, s3)"
          using g g2 True by (simp add: parameter_gram_def)
        ultimately show ?thesis
          using b b2 k k2 malloc_held [OF 3] malloc_plenty [OF 3] by (auto simp: parameter_foot_def)
      qed
    qed
  qed
  then show "r = follows (parameter_gram s) \<or> r = Inl NSERROR_NOMEM \<and> \<not> plenty m" "plenty m \<Longrightarrow> plenty m'"
      "held m' = held m + result_foot parameter_foot r"
    by blast+
qed (simp_all add: http_destroy_parameter_def parameter_foot_def)

interpretation directive: item_class http__parse_directive directive_gram directive_foot http_destroy_directive
proof
  fix s i s' assume "directive_gram s = Some (i, s')"
  then obtain name s1 where "token_gram s = Some (name, s1)" and
      "s' = http__skip_LWS s1 \<or> (\<exists>v. value_gram (http__skip_LWS (tl (http__skip_LWS s1))) = Some (v, s'))"
    by (auto simp: directive_gram_def split: option.splits if_splits)
  then show "\<exists>t. s = t @ s'"
    using token.gram_rest parsed_value.gram_rest rest_pair rest_skip rest_trans by meson
next
  fix s m r m' assume p: "http__parse_directive s m = (r, m')"
  obtain r1 m1 where 1: "http__parse_token s m = (r1, m1)"
    by (cases "http__parse_token s m")
  have "(r = follows (directive_gram s) \<or> r = Inl NSERROR_NOMEM \<and> \<not> plenty m) \<and> (plenty m \<longrightarrow> plenty m') \<and>
    held m' = held m + result_foot directive_foot r"
  proof (cases r1)
    case (Inl e)
    then have "held m1 = held m" "e = NSERROR_NOT_FOUND \<and> token_gram s = None \<or> e = NSERROR_NOMEM \<and> \<not> plenty m"
        "plenty m \<longrightarrow> plenty m1"
      using token.error_cases token.keeps_plenty 1 by blast+
    then show ?thesis
      using p 1 Inl by (auto simp: http__parse_directive_def directive_gram_def)
  next
    case (Inr x)
    obtain name s1 where x: "x = (name, s1)" by (cases x)
    have g: "token_gram s = Some (name, s1)" and b: "held m1 = held m + a_ref" and k: "plenty m \<longrightarrow> plenty m1"
      using token.item_case token.keeps_plenty [OF 1] 1 Inr x by blast+
    have finish: ?thesis
      if 2: "(if peek (http__skip_LWS s1) = CHR ''=''
          then (case parse_value (http__skip_LWS (tl (http__skip_LWS s1))) m1 of
              (Inl error, m2) \<Rightarrow> (Inl error, lwc_string_unref m2)
            | (Inr (value, pos), m2) \<Rightarrow> (Inr (Some value, pos), m2))
          else (Inr (None, http__skip_LWS s1), m1)) = (Inr (v, s3), m2)"
        and g': "directive_gram s = Some (\<lparr>dir_name = name, dir_value = v\<rparr>, s3)"
        and b2: "held m2 = held m + a_ref + (case v of None \<Rightarrow> 0 | Some _ \<Rightarrow> a_ref)" and k2: "plenty m \<longrightarrow> plenty m2"
      for v s3 m2
    proof -
      obtain ok m3 where 3: "malloc m2 = (ok, m3)"
        by (cases "malloc m2")
      have "r = (if ok then Inr (\<lparr>dir_name = name, dir_value = v\<rparr>, s3) else Inl NSERROR_NOMEM)"
          "m' = (if ok then m3 else lwc_string_unref (unref_value v m3))"
        using p by (auto simp: http__parse_directive_def 1 Inr x Let_def 2 3 simp del: if_split_asm split: if_splits)
      then show ?thesis
        using b2 k2 g' malloc_held [OF 3] malloc_plenty [OF 3]
        by (cases v) (auto simp: directive_foot_def unref_value_def)
    qed
    show ?thesis
    proof (cases "peek (http__skip_LWS s1) = CHR ''=''")
      case False
      then show ?thesis
        using g b k by (intro finish [of None "http__skip_LWS s1" m1]) (simp_all add: directive_gram_def)
    next
      case True
      let ?s2 = "http__skip_LWS (tl (http__skip_LWS s1))"
      obtain r2 m2 where 2: "parse_value ?s2 m1 = (r2, m2)"
        by (cases "parse_value ?s2 m1")
      show ?thesis
      proof (cases r2)
        case (Inl e)
        then have "held m2 = held m1" "e = NSERROR_NOT_FOUND \<and> value_gram ?s2 = None \<or> e = NSERROR_NOMEM \<and> \<not> plenty m1"
            "plenty m1 \<longrightarrow> plenty m2"
          using parsed_value.error_cases parsed_value.keeps_plenty 2 by blast+
        moreover have "r = Inl e" "m' = lwc_string_unref m2"
          using p 1 Inr x True 2 Inl by (simp_all add: http__parse_directive_def)
        ultimately show ?thesis
          using g b k True by (auto simp: directive_gram_def)
      next
        case (Inr y)
        obtain v s3 where y: "y = (v, s3)" by (cases y)
        have "value_gram ?s2 = Some (v, s3)" "held m2 = held m1 + a_ref" "plenty m1 \<longrightarrow> plenty m2"
          using parsed_value.item_case parsed_value.keeps_plenty [OF 2] 2 Inr y by blast+
        then show ?thesis
          using g b k True 2 Inr y by (intro finish [of "Some v" s3 m2]) (simp_all add: directive_gram_def)
      qed
    qed
  qed
  then show "r = follows (directive_gram s) \<or> r = Inl NSERROR_NOMEM \<and> \<not> plenty m" "plenty m \<Longrightarrow> plenty m'"
      "held m' = held m + result_foot directive_foot r"
    by blast+
qed (simp_all add: http_destroy_directive_def directive_foot_def unref_value_def split: option.splits)

section \<open>Texts\<close>

definition blank :: "string \<Rightarrow> bool" where
  "blank ws \<longleftrightarrow> (\<forall>c \<in> set ws. is_LWS c)"

definition is_token :: "string \<Rightarrow> bool" where
  "is_token v \<longleftrightarrow> v \<noteq> [] \<and> (\<forall>c \<in> set v. http_is_token_char c)"

text \<open>A value is a token as it is, or any quotable text in quotes.\<close>

definition value_text :: "string \<Rightarrow> string \<Rightarrow> bool" where
  "value_text v t \<longleftrightarrow> is_token v \<and> t = v \<or> (\<forall>c \<in> set v. is_qdtext c) \<and> t = [CHR 0x22] @ v @ [CHR 0x22]"

definition parameter_text :: "http_parameter \<Rightarrow> string \<Rightarrow> bool" where
  "parameter_text p t \<longleftrightarrow> is_token (param_name p) \<and>
     (\<exists>ws ws' v. blank ws \<and> blank ws' \<and> value_text (param_value p) v \<and> t = param_name p @ ws @ ''='' @ ws' @ v)"

definition directive_text :: "http_directive \<Rightarrow> string \<Rightarrow> bool" where
  "directive_text d t \<longleftrightarrow> is_token (dir_name d) \<and>
     (case dir_value d of
        None \<Rightarrow> t = dir_name d
      | Some x \<Rightarrow> (\<exists>ws ws' v. blank ws \<and> blank ws' \<and> value_text x v \<and> t = dir_name d @ ws @ ''='' @ ws' @ v))"

text \<open>A list of items, each behind a separator; gaps without an item are allowed.\<close>

inductive items_text :: "('i \<Rightarrow> string \<Rightarrow> bool) \<Rightarrow> char \<Rightarrow> 'i list \<Rightarrow> string \<Rightarrow> bool" for item_text separator where
  nil: "items_text item_text separator [] []"
| gap: "blank ws \<Longrightarrow> items_text item_text separator items s \<Longrightarrow>
    items_text item_text separator items (separator # ws @ s)"
| item: "item_text i t \<Longrightarrow> blank ws \<Longrightarrow> blank ws' \<Longrightarrow> items_text item_text separator items s \<Longrightarrow>
    items_text item_text separator (i # items) (separator # ws @ t @ ws' @ s)"

lemma special_chars [simp]:
  "\<not> http_is_token_char CHR '' ''" "\<not> http_is_token_char CHR 0x09" "\<not> http_is_token_char CHR 0x22"
  "\<not> http_is_token_char CHR '';''" "\<not> http_is_token_char CHR '',''" "\<not> http_is_token_char CHR ''=''"
  "\<not> is_LWS CHR '';''" "\<not> is_LWS CHR '',''" "\<not> is_LWS CHR ''=''" "\<not> is_LWS CHR 0x22" "\<not> is_qdtext CHR 0x22"
  by code_simp+

lemma LWS_not_token: "is_LWS c \<Longrightarrow> \<not> http_is_token_char c"
  unfolding is_LWS_def by (elim disjE) (simp_all only: special_chars not_False_eq_True)

lemma skip_blank [simp]: "blank ws \<Longrightarrow> http__skip_LWS (ws @ s) = http__skip_LWS s"
  by (induction ws) (auto simp: blank_def)

lemma skip_idem [simp]: "http__skip_LWS (http__skip_LWS s) = http__skip_LWS s"
  by (simp add: skip_LWS_dropWhile)

lemma skip_Cons: "\<not> is_LWS c \<Longrightarrow> http__skip_LWS (c # s) = c # s"
  by simp

lemma token_skip: "is_token v \<Longrightarrow> http__skip_LWS (v @ s) = v @ s"
  using LWS_not_token by (cases v) (auto simp: is_token_def)

definition no_token :: "string \<Rightarrow> bool" where
  "no_token s \<longleftrightarrow> s = [] \<or> \<not> http_is_token_char (hd s)"

lemma no_token_blank: "blank ws \<Longrightarrow> no_token s \<Longrightarrow> no_token (ws @ s)"
  using LWS_not_token by (cases ws) (auto simp: blank_def no_token_def)

lemma token_gram_text: "is_token v \<Longrightarrow> no_token s \<Longrightarrow> token_gram (v @ s) = Some (v, s)"
  using takeWhile_append_stop [of v http_is_token_char s] dropWhile_append_stop [of v http_is_token_char s]
  by (auto simp: token_gram_def is_token_def no_token_def)

lemma quoted_gram_text:
  assumes "\<forall>c \<in> set v. is_qdtext c"
  shows "quoted_gram (CHR 0x22 # v @ CHR 0x22 # s) = Some (v, s)"
proof -
  show ?thesis
    using takeWhile_append_stop [OF assms, of "CHR 0x22 # s"] dropWhile_append_stop [OF assms, of "CHR 0x22 # s"]
    by (simp add: quoted_gram_def)
qed

lemma value_gram_text: "value_text v t \<Longrightarrow> no_token s \<Longrightarrow> value_gram (http__skip_LWS (t @ s)) = Some (v, s)"
proof -
  assume "value_text v t" and stop: "no_token s"
  then consider (token) "is_token v" "t = v"
    | (quoted) "\<forall>c \<in> set v. is_qdtext c" "t = [CHR 0x22] @ v @ [CHR 0x22]"
    by (auto simp: value_text_def)
  then show ?thesis
  proof cases
    case token
    then obtain c v' where "v = c # v'" and "http_is_token_char c"
      by (cases v) (auto simp: is_token_def)
    then have "peek (v @ s) \<noteq> CHR 0x22"
      using special_chars(3) by auto
    then show ?thesis
      using token stop token_gram_text by (simp add: value_gram_def token_skip)
  next
    case quoted
    then show ?thesis
      using quoted_gram_text [of v s] by (simp add: value_gram_def)
  qed
qed

text \<open>What may follow an item: white space, then nothing or a separator.\<close>

definition ends_item :: "char \<Rightarrow> string \<Rightarrow> bool" where
  "ends_item separator s \<longleftrightarrow> http__skip_LWS s = [] \<or> hd (http__skip_LWS s) = separator"

definition list_separator :: "char \<Rightarrow> bool" where
  "list_separator c \<longleftrightarrow> c = CHR '';'' \<or> c = CHR '',''"

lemma list_separator:
  assumes "list_separator c"
  shows "c \<noteq> NUL" "\<not> http_is_token_char c" "\<not> is_LWS c" "c \<noteq> CHR ''=''"
  using assms special_chars by (auto simp only: list_separator_def) 

lemma ends_item_no_token: "list_separator c \<Longrightarrow> ends_item c s \<Longrightarrow> no_token s"
  using LWS_not_token list_separator [of c] by (cases s) (auto simp: ends_item_def no_token_def split: if_splits)

lemma no_token_equals: "no_token (CHR ''='' # s)"
  by (simp add: no_token_def)

lemma parameter_gram_text:
  assumes "parameter_text p t" and "list_separator c" and "ends_item c s"
  shows "parameter_gram (http__skip_LWS (t @ s)) = Some (p, s)"
proof -
  obtain ws ws' v where t: "is_token (param_name p)" "blank ws" "blank ws'" "value_text (param_value p) v"
      "t = param_name p @ ws @ ''='' @ ws' @ v"
    using assms(1) by (auto simp: parameter_text_def)
  have "token_gram (param_name p @ ws @ CHR ''='' # ws' @ v @ s) = Some (param_name p, ws @ CHR ''='' # ws' @ v @ s)"
    by (rule token_gram_text [OF t(1) no_token_blank [OF t(2) no_token_equals]])
  moreover have "value_gram (http__skip_LWS (v @ s)) = Some (param_value p, s)"
    by (rule value_gram_text [OF t(4) ends_item_no_token [OF assms(2,3)]])
  ultimately show ?thesis
    using t by (simp add: token_skip parameter_gram_def)
qed

lemma directive_gram_text:
  assumes "directive_text d t" and "list_separator c" and "ends_item c s"
  shows "\<exists>s'. directive_gram (http__skip_LWS (t @ s)) = Some (d, s') \<and> http__skip_LWS s' = http__skip_LWS s"
proof (cases "dir_value d")
  case None
  then have t: "is_token (dir_name d)" "t = dir_name d"
    using assms(1) by (simp_all add: directive_text_def)
  have "peek (http__skip_LWS s) \<noteq> CHR ''=''"
    using assms(2,3) list_separator(4) by (cases "http__skip_LWS s") (auto simp: ends_item_def)
  moreover have "token_gram (dir_name d @ s) = Some (dir_name d, s)"
    by (rule token_gram_text [OF t(1) ends_item_no_token [OF assms(2,3)]])
  ultimately show ?thesis
    using t None by (simp add: token_skip directive_gram_def)
next
  case (Some x)
  then obtain ws ws' v where t: "is_token (dir_name d)" "blank ws" "blank ws'" "value_text x v"
      "t = dir_name d @ ws @ ''='' @ ws' @ v"
    using assms(1) by (auto simp: directive_text_def)
  have "token_gram (dir_name d @ ws @ CHR ''='' # ws' @ v @ s) = Some (dir_name d, ws @ CHR ''='' # ws' @ v @ s)"
    by (rule token_gram_text [OF t(1) no_token_blank [OF t(2) no_token_equals]])
  moreover have "value_gram (http__skip_LWS (v @ s)) = Some (x, s)"
    by (rule value_gram_text [OF t(4) ends_item_no_token [OF assms(2,3)]])
  ultimately show ?thesis
    using t Some by (simp add: token_skip directive_gram_def)
qed

section \<open>Reading lists back\<close>

lemma item_list_gram_functional:
  "item_list_gram gram c s items rest \<Longrightarrow> item_list_gram gram c s items' rest' \<Longrightarrow> items' = items \<and> rest' = rest"
proof (induction arbitrary: items' rest' rule: item_list_gram.induct)
  case (finish s)
  then show ?case by (auto elim: item_list_gramE)
next
  case (item s i s1 items rest)
  from item.prems show ?case
  proof (cases rule: item_list_gram.cases)
    case (item i' s1' items'')
    then show ?thesis using item.hyps(1) item.IH by auto
  qed (use item.hyps(1) in auto)
next
  case (gap s items rest)
  from gap.prems show ?case
  proof (cases rule: item_list_gram.cases)
    case gap
    then show ?thesis using gap.IH by auto
  qed (use gap.hyps(1) in auto)
qed

locale item_texts = item_class parse gram foot free_item
  for parse :: "'i item_parse" and gram and foot and free_item +
  fixes item_text :: "'i \<Rightarrow> string \<Rightarrow> bool"
  assumes gram_text: "item_text i t \<Longrightarrow> list_separator c \<Longrightarrow> ends_item c s \<Longrightarrow>
      \<exists>s'. gram (http__skip_LWS (t @ s)) = Some (i, s') \<and> http__skip_LWS s' = http__skip_LWS s"
    and no_item: "no_token s \<Longrightarrow> gram s = None"
begin

lemma items_list:
  assumes c: "list_separator c"
  shows "items_text item_text c items s \<Longrightarrow> (s = [] \<or> hd s = c) \<and> item_list_gram gram c s items []"
proof (induction rule: items_text.induct)
  case nil
  then show ?case
    using list_separator(1) [OF c] by (simp add: item_list_gram.finish)
next
  case (gap ws items s)
  have "no_token s" "http__skip_LWS s = s"
    using gap.IH list_separator(2,3) [OF c] by (cases s; auto simp: no_token_def)+
  then have "gram (http__skip_LWS (ws @ s)) = None" "item_list_gram gram c (http__skip_LWS (ws @ s)) items []"
    using gap no_item by simp_all
  then show ?case
    by (simp add: item_list_gram.gap)
next
  case (item i t ws ws' items s)
  have same: "http__skip_LWS s = s"
    using item.IH list_separator(3) [OF c] by (cases s) auto
  then have "ends_item c (ws' @ s)"
    using item by (simp add: ends_item_def)
  then obtain s' where "gram (http__skip_LWS (t @ ws' @ s)) = Some (i, s')" "http__skip_LWS s' = http__skip_LWS (ws' @ s)"
    using gram_text [OF item.hyps(1) c] by blast
  then show ?case
    using item same by (auto intro!: item_list_gram.item)
qed

lemma list_parse_text:
  assumes "items_text item_text c items s" and "list_separator c" and "s \<noteq> []" and "plenty m"
  shows "\<exists>rest m'. http___item_list_parse s parse free_item first m =
    Some (if items = [] \<and> first = [] then Inl NSERROR_NOT_FOUND else Inr (rev items @ first, rest), m') \<and> plenty m'"
proof -
  have "peek s = c" and g: "item_list_gram gram c s items []"
    using items_list [OF assms(2,1)] assms(3) by (cases s; simp)+
  then obtain r m' where r: "http___item_list_parse s parse free_item first m = Some (r, m')" "plenty m'"
      "\<exists>items' rest. item_list_gram gram c s items' rest \<and>
        r = (if items' = [] \<and> first = [] then Inl NSERROR_NOT_FOUND else Inr (rev items' @ first, rest))"
    using list_parse [of s first m] list_separator(1) [OF assms(2)] assms(4) by blast
  then show ?thesis
    using item_list_gram_functional [OF g] by blast
qed

end

lemma token_gram_none: "no_token s \<Longrightarrow> token_gram s = None"
  by (cases s) (simp_all add: token_gram_def no_token_def)

interpretation parameter: item_texts http__parse_parameter parameter_gram parameter_foot http_destroy_parameter parameter_text
proof
  fix s assume "no_token s"
  then show "parameter_gram s = None"
    by (simp add: parameter_gram_def token_gram_none)
qed (blast dest: parameter_gram_text)

interpretation directive: item_texts http__parse_directive directive_gram directive_foot http_destroy_directive directive_text
proof
  fix s assume "no_token s"
  then show "directive_gram s = None"
    by (simp add: directive_gram_def token_gram_none)
qed (blast dest: directive_gram_text)

section \<open>Searching lists\<close>

definition same_name :: "string \<Rightarrow> string \<Rightarrow> bool" where
  "same_name a b \<longleftrightarrow> map ascii_to_lower a = map ascii_to_lower b"

lemma caseless_same: "lwc_string_caseless_isequal a b m = (r, m') \<Longrightarrow>
    held m' = held m \<and> (r = Some True \<longrightarrow> same_name a b) \<and> (plenty m \<longrightarrow> r = Some (same_name a b) \<and> plenty m')"
  using lwc_caseless_held lwc_caseless_Some lwc_caseless_plenty by (fastforce simp: same_name_def)

lemma parameter_find:
  "http_parameter_list_find_item list name m = (r, m') \<Longrightarrow>
     (case r of Inl e \<Rightarrow> e = NSERROR_NOT_FOUND \<and> held m' = held m
      | Inr v \<Rightarrow> (\<exists>p \<in> set list. same_name name (param_name p) \<and> v = param_value p) \<and> held m' = held m + a_ref) \<and>
     (plenty m \<longrightarrow> plenty m' \<and> r = (case find (\<lambda>p. same_name name (param_name p)) list of
        None \<Rightarrow> Inl NSERROR_NOT_FOUND | Some p \<Rightarrow> Inr (param_value p)))"
proof (induction list arbitrary: m)
  case (Cons p list)
  obtain b m1 where 1: "lwc_string_caseless_isequal name (param_name p) m = (b, m1)"
    by (cases "lwc_string_caseless_isequal name (param_name p) m")
  note c = caseless_same [OF 1]
  show ?case
  proof (cases "b = Some True")
    case True
    then show ?thesis
      using Cons.prems 1 c by auto
  next
    case False
    then show ?thesis
      using Cons.prems Cons.IH [of m1] 1 c by (auto split: sum.splits)
  qed
qed auto

lemma directive_find:
  "http_directive_list_find_item list name m = (r, m') \<Longrightarrow>
     (case r of Inl e \<Rightarrow> e = NSERROR_NOT_FOUND \<and> held m' = held m
      | Inr v \<Rightarrow> (\<exists>d \<in> set list. same_name name (dir_name d) \<and> v = dir_value d) \<and>
          held m' = held m + (case v of None \<Rightarrow> 0 | Some _ \<Rightarrow> a_ref)) \<and>
     (plenty m \<longrightarrow> plenty m' \<and> r = (case find (\<lambda>d. same_name name (dir_name d)) list of
        None \<Rightarrow> Inl NSERROR_NOT_FOUND | Some d \<Rightarrow> Inr (dir_value d)))"
proof (induction list arbitrary: m)
  case (Cons d list)
  obtain b m1 where 1: "lwc_string_caseless_isequal name (dir_name d) m = (b, m1)"
    by (cases "lwc_string_caseless_isequal name (dir_name d) m")
  note c = caseless_same [OF 1]
  show ?case
  proof (cases "b = Some True")
    case True
    then show ?thesis
      using Cons.prems 1 c by (auto simp: ref_value_def split: option.splits)
  next
    case False
    then show ?thesis
      using Cons.prems Cons.IH [of m1] 1 c by (auto split: sum.splits)
  qed
qed auto

lemma directive_count:
  "directive_count list key n m = (n', m') \<Longrightarrow> held m' = held m \<and>
     (plenty m \<longrightarrow> plenty m' \<and> n' = n + of_nat (length (filter (\<lambda>d. same_name key (dir_name d)) list)))"
proof (induction list arbitrary: n m)
  case (Cons d list)
  obtain b m1 where 1: "lwc_string_caseless_isequal key (dir_name d) m = (b, m1)"
    by (cases "lwc_string_caseless_isequal key (dir_name d) m")
  have rest: "directive_count list key (if b = Some True then n + 1 else n) m1 = (n', m')"
    using Cons.prems 1 by simp
  show ?case
    using Cons.IH [OF rest] caseless_same [OF 1] by (auto split: if_splits)
qed simp

end
