(* ===== verification/Http_Content_Type.thy ===== *)
theory Http_Content_Type
  imports Http_Parameter
begin

text \<open>
  \<^verbatim>\<open>src/utils/http/content-type.c\<close> and \<^verbatim>\<open>src/utils/http/content-disposition.c\<close>: header values
  that are a type and parameters.
\<close>

section \<open>Definitions\<close>

record http_content_type =
  ct_media_type :: string
  ct_parameters :: "http_parameter list"

record http_content_disposition =
  cd_disposition_type :: string
  cd_parameters :: "http_parameter list"

text \<open>The parameters that both headers end in; none is no error.\<close>

definition parse_parameters :: "string \<Rightarrow> mem \<Rightarrow> (http_parameter list result \<times> mem) option" where
  "parse_parameters pos m =
     (if peek pos = CHR '';'' then
        (case http___item_list_parse pos http__parse_parameter http_destroy_parameter [] m of
           None \<Rightarrow> None
         | Some (Inl error, m1) \<Rightarrow> Some (if error \<noteq> NSERROR_NOT_FOUND then Inl error else Inr [], m1)
         | Some (Inr (params, _), m1) \<Rightarrow> Some (Inr params, m1))
      else Some (Inr [], m))"

definition make_content_type ::
  "string \<Rightarrow> string \<Rightarrow> http_parameter list \<Rightarrow> mem \<Rightarrow> http_content_type result \<times> mem" where
  "make_content_type type subtype params m =
     (case malloc m of (mime, m1) \<Rightarrow>
        if \<not> mime then (Inl NSERROR_NOMEM, lwc_string_unref (lwc_string_unref (http_parameter_list_destroy params m1)))
        else (case lwc_intern_string (type @ ''/'' @ subtype) (lwc_string_unref (lwc_string_unref m1)) of
            (None, m2) \<Rightarrow> (Inl NSERROR_NOMEM, free_block (http_parameter_list_destroy params m2))
          | (Some imime, m2) \<Rightarrow>
              (case malloc (free_block m2) of (ct, m3) \<Rightarrow>
                 if \<not> ct then (Inl NSERROR_NOMEM, http_parameter_list_destroy params (lwc_string_unref m3))
                 else (Inr \<lparr>ct_media_type = imime, ct_parameters = params\<rparr>, m3))))"

definition http_parse_content_type :: "string \<Rightarrow> mem \<Rightarrow> (http_content_type result \<times> mem) option" where
  "http_parse_content_type header_value m =
     (case http__parse_token (http__skip_LWS header_value) m of
        (Inl error, m1) \<Rightarrow> Some (Inl error, m1)
      | (Inr (type, pos), m1) \<Rightarrow>
          (let pos = http__skip_LWS pos in
           if peek pos \<noteq> CHR ''/'' then Some (Inl NSERROR_NOT_FOUND, lwc_string_unref m1)
           else (case http__parse_token (http__skip_LWS (tl pos)) m1 of
               (Inl error, m2) \<Rightarrow> Some (Inl error, lwc_string_unref m2)
             | (Inr (subtype, pos), m2) \<Rightarrow>
                 (case parse_parameters (http__skip_LWS pos) m2 of
                    None \<Rightarrow> None
                  | Some (Inl error, m3) \<Rightarrow> Some (Inl error, lwc_string_unref (lwc_string_unref m3))
                  | Some (Inr params, m3) \<Rightarrow> Some (make_content_type type subtype params m3)))))"

definition http_content_type_destroy :: "http_content_type \<Rightarrow> mem \<Rightarrow> mem" where
  "http_content_type_destroy victim m =
     free_block (http_parameter_list_destroy (ct_parameters victim) (lwc_string_unref m))"

definition http_parse_content_disposition :: "string \<Rightarrow> mem \<Rightarrow> (http_content_disposition result \<times> mem) option" where
  "http_parse_content_disposition header_value m =
     (case http__parse_token (http__skip_LWS header_value) m of
        (Inl error, m1) \<Rightarrow> Some (Inl error, m1)
      | (Inr (mtype, pos), m1) \<Rightarrow>
          (case parse_parameters (http__skip_LWS pos) m1 of
             None \<Rightarrow> None
           | Some (Inl error, m2) \<Rightarrow> Some (Inl error, lwc_string_unref m2)
           | Some (Inr params, m2) \<Rightarrow>
               Some (case malloc m2 of (cd, m3) \<Rightarrow>
                 if \<not> cd then (Inl NSERROR_NOMEM, lwc_string_unref (http_parameter_list_destroy params m3))
                 else (Inr \<lparr>cd_disposition_type = mtype, cd_parameters = params\<rparr>, m3))))"

definition http_content_disposition_destroy :: "http_content_disposition \<Rightarrow> mem \<Rightarrow> mem" where
  "http_content_disposition_destroy victim m =
     free_block (http_parameter_list_destroy (cd_parameters victim) (lwc_string_unref m))"

section \<open>Parameters\<close>

text \<open>What the callers of a parser can rely on, whatever the text and the allocator.\<close>

definition keeps_books :: "('a \<Rightarrow> footprint) \<Rightarrow> mem \<Rightarrow> 'a result \<Rightarrow> mem \<Rightarrow> bool" where
  "keeps_books foot m r m' \<longleftrightarrow> (case r of
     Inl e \<Rightarrow> held m' = held m \<and> (e = NSERROR_NOT_FOUND \<or> e = NSERROR_NOMEM \<and> \<not> plenty m)
   | Inr x \<Rightarrow> held m' = held m + foot x)"

lemma keeps_books_simps [simp]:
  "keeps_books foot m (Inl e) m' \<longleftrightarrow> held m' = held m \<and> (e = NSERROR_NOT_FOUND \<or> e = NSERROR_NOMEM \<and> \<not> plenty m)"
  "keeps_books foot m (Inr x) m' \<longleftrightarrow> held m' = held m + foot x"
  by (simp_all add: keeps_books_def)

lemma parse_parameters_total:
  "\<exists>r m'. parse_parameters pos m = Some (r, m') \<and> keeps_books (foots parameter_foot) m r m' \<and> (plenty m \<longrightarrow> plenty m')"
proof (cases "peek pos = CHR '';''")
  case True
  then have "peek pos \<noteq> NUL" by simp
  from parameter.list_parse [OF this, of "[]" m] obtain r m' where
    l: "http___item_list_parse pos http__parse_parameter http_destroy_parameter [] m = Some (r, m')" "plenty m \<longrightarrow> plenty m'"
      "r = Inl NSERROR_NOMEM \<and> \<not> plenty m \<and> held m' = held m - foots parameter_foot [] \<or>
       (\<exists>items rest. item_list_gram parameter_gram (peek pos) pos items rest \<and> held m' = held m + foots parameter_foot items \<and>
         r = (if items = [] \<and> [] = ([] :: http_parameter list) then Inl NSERROR_NOT_FOUND else Inr (rev items @ [], rest)))"
    by blast
  then show ?thesis
    using True by (auto simp: parse_parameters_def)
qed (simp add: parse_parameters_def)

lemma parse_parameters_text:
  assumes "items_text parameter_text (CHR '';'') params s" and "plenty m"
  shows "\<exists>m'. parse_parameters s m = Some (Inr (rev params), m') \<and> plenty m'"
proof (cases "s = []")
  case True
  then have "params = []"
    using assms(1) by (auto elim: items_text.cases)
  then show ?thesis
    using True assms(2) by (simp add: parse_parameters_def)
next
  case False
  then have "peek s = CHR '';''"
    using parameter.items_list [OF _ assms(1)] by (cases s) (auto simp: list_separator_def)
  then show ?thesis
    using parameter.list_parse_text [OF assms(1) _ False assms(2), of "[]"]
    by (auto simp: parse_parameters_def list_separator_def)
qed

definition content_type_foot :: "http_content_type \<Rightarrow> footprint" where
  "content_type_foot ct = a_block + a_ref + foots parameter_foot (ct_parameters ct)"

definition disposition_foot :: "http_content_disposition \<Rightarrow> footprint" where
  "disposition_foot cd = a_block + a_ref + foots parameter_foot (cd_parameters cd)"

lemma destroy_parameters [simp]: "held (http_parameter_list_destroy list m) = held m - foots parameter_foot list"
  by (simp add: http_parameter_list_destroy_def parameter.destroy_list)

lemma make_content_type_books:
  assumes "make_content_type type subtype params m = (r, m')" and "held m = held m0 + a_ref + a_ref + foots parameter_foot params"
    and "plenty m0 \<longrightarrow> plenty m"
  shows "keeps_books content_type_foot m0 r m'"
proof -
  obtain ok1 m1 where 1: "malloc m = (ok1, m1)"
    by (cases "malloc m")
  obtain s m2 where 2: "lwc_intern_string (type @ ''/'' @ subtype) (lwc_string_unref (lwc_string_unref m1)) = (s, m2)"
    by (cases "lwc_intern_string (type @ ''/'' @ subtype) (lwc_string_unref (lwc_string_unref m1))")
  obtain ok3 m3 where 3: "malloc (free_block m2) = (ok3, m3)"
    by (cases "malloc (free_block m2)")
  show ?thesis
  proof (cases ok1)
    case False
    then show ?thesis
      using assms 1 malloc_held [OF 1] malloc_plenty [OF 1] by (auto simp: make_content_type_def)
  next
    case ok1: True
    show ?thesis
    proof (cases s)
      case None
      then show ?thesis
        using assms 1 2 ok1 malloc_held [OF 1] malloc_plenty [OF 1] lwc_intern_string_held [OF 2] lwc_intern_string_plenty [OF 2]
        by (auto simp: make_content_type_def algebra_simps)
    next
      case (Some t)
      then show ?thesis
        using assms 1 2 3 ok1 malloc_held [OF 1] malloc_plenty [OF 1] malloc_held [OF 3] malloc_plenty [OF 3]
          lwc_intern_string_held [OF 2] lwc_intern_string_plenty [OF 2]
        by (auto simp: make_content_type_def content_type_foot_def algebra_simps split: if_splits)
    qed
  qed
qed

lemma make_content_type_plenty:
  "plenty m \<Longrightarrow> \<exists>m'. make_content_type type subtype params m =
    (Inr \<lparr>ct_media_type = type @ ''/'' @ subtype, ct_parameters = params\<rparr>, m') \<and> plenty m'"
proof -
  assume "plenty m"
  then obtain m1 where 1: "malloc m = (True, m1)" "plenty m1"
    by (rule malloc_ok)
  obtain m2 where 2: "lwc_intern_string (type @ ''/'' @ subtype) (lwc_string_unref (lwc_string_unref m1)) = (Some (type @ ''/'' @ subtype), m2)"
      "plenty m2"
    by (rule intern_ok [of "lwc_string_unref (lwc_string_unref m1)"]) (simp add: 1)
  obtain m3 where 3: "malloc (free_block m2) = (True, m3)" "plenty m3"
    by (rule malloc_ok [of "free_block m2"]) (simp add: 2)
  show ?thesis
    using 1 2 3 by (simp add: make_content_type_def)
qed

lemma parse_token_text:
  assumes "is_token t" and "no_token s" and "plenty m"
  obtains m' where "http__parse_token (t @ s) m = (Inr (t, s), m')" and "plenty m'"
proof -
  obtain r m' where p: "http__parse_token (t @ s) m = (r, m')"
    by (cases "http__parse_token (t @ s) m")
  then show ?thesis
    using that token.enough [OF p assms(3)] token_gram_text [OF assms(1,2)] by simp
qed

lemma slash_no_token: "no_token (CHR ''/'' # s)" "http__skip_LWS (CHR ''/'' # s) = CHR ''/'' # s"
  by (simp_all add: no_token_def http_is_token_char_def is_LWS_def)

lemma items_text_ends: "items_text parameter_text (CHR '';'') params s \<Longrightarrow> no_token s \<and> http__skip_LWS s = s"
  using parameter.items_list [of "CHR '';''" params s] by (cases s) (auto simp: no_token_def list_separator_def)

section \<open>Properties\<close>

text \<open>
  C18. The content type parser always returns, for every text and every pattern of allocation
  failures. It fails only with \<^verbatim>\<open>NSERROR_NOT_FOUND\<close> or, when an allocation failed, with
  \<^verbatim>\<open>NSERROR_NOMEM\<close>, and then holds nothing more than before; a result holds one block and one
  reference besides its parameters, and destroying it gives everything back.
\<close>

theorem http_parse_content_type_total:
  "\<exists>r m'. http_parse_content_type header_value m = Some (r, m') \<and> keeps_books content_type_foot m r m' \<and>
     (case r of Inl _ \<Rightarrow> True | Inr ct \<Rightarrow> held (http_content_type_destroy ct m') = held m)"
proof -
  let ?s = "http__skip_LWS header_value"
  obtain r1 m1 where 1: "http__parse_token ?s m = (r1, m1)"
    by (cases "http__parse_token ?s m")
  have "\<exists>r m'. http_parse_content_type header_value m = Some (r, m') \<and> keeps_books content_type_foot m r m'"
  proof (cases r1)
    case (Inl e)
    then show ?thesis
      using 1 token.error_cases [of ?s m e m1] by (auto simp: http_parse_content_type_def)
  next
    case (Inr x)
    obtain type s1 where x: "x = (type, s1)" by (cases x)
    have b1: "held m1 = held m + a_ref" "plenty m \<longrightarrow> plenty m1"
      using token.item_case token.keeps_plenty [OF 1] 1 Inr x by blast+
    show ?thesis
    proof (cases "peek (http__skip_LWS s1) = CHR ''/''")
      case False
      then show ?thesis
        using 1 Inr x b1 by (simp add: http_parse_content_type_def)
    next
      case slash: True
      let ?s2 = "http__skip_LWS (tl (http__skip_LWS s1))"
      obtain r2 m2 where 2: "http__parse_token ?s2 m1 = (r2, m2)"
        by (cases "http__parse_token ?s2 m1")
      show ?thesis
      proof (cases r2)
        case (Inl e)
        then show ?thesis
          using 1 Inr x slash 2 b1 token.error_cases [of ?s2 m1 e m2] by (auto simp: http_parse_content_type_def)
      next
        case (Inr y)
        obtain subtype s3 where y: "y = (subtype, s3)" by (cases y)
        have b2: "held m2 = held m1 + a_ref" "plenty m1 \<longrightarrow> plenty m2"
          using token.item_case token.keeps_plenty [OF 2] 2 Inr y by blast+
        obtain r3 m3 where 3: "parse_parameters (http__skip_LWS s3) m2 = Some (r3, m3)"
            "keeps_books (foots parameter_foot) m2 r3 m3" "plenty m2 \<longrightarrow> plenty m3"
          using parse_parameters_total by blast
        note parsed = 1 \<open>r1 = Inr x\<close> x slash 2 Inr y 3(1)
        show ?thesis
        proof (cases r3)
          case (Inl e)
          then show ?thesis
            using parsed b1 b2 3(2) by (auto simp: http_parse_content_type_def algebra_simps)
        next
          case (Inr params)
          obtain r m' where 4: "make_content_type type subtype params m3 = (r, m')"
            by (cases "make_content_type type subtype params m3")
          have "keeps_books content_type_foot m r m'"
            using b1 b2 3(2,3) Inr by (intro make_content_type_books [OF 4]) (auto simp: algebra_simps)
          then show ?thesis
            using parsed Inr 4 by (simp add: http_parse_content_type_def)
        qed
      qed
    qed
  qed
  then obtain r m' where "http_parse_content_type header_value m = Some (r, m')" "keeps_books content_type_foot m r m'"
    by blast
  then show ?thesis
    by (cases r) (auto simp: http_content_type_destroy_def content_type_foot_def algebra_simps)
qed

text \<open>
  C9. Round trip: a well-formed content type, with white space wherever it is allowed, values
  as tokens or in quotes and gaps between the separators, is read back: its media type, and
  its parameters, the last one first.
\<close>

theorem content_type_roundtrip:
  assumes "is_token type" and "is_token subtype" and "items_text parameter_text (CHR '';'') params ps"
    and "blank ws1" and "blank ws2" and "blank ws3" and "blank ws4" and "plenty m"
  shows "\<exists>m'. http_parse_content_type (ws1 @ type @ ws2 @ ''/'' @ ws3 @ subtype @ ws4 @ ps) m =
    Some (Inr \<lparr>ct_media_type = type @ ''/'' @ subtype, ct_parameters = rev params\<rparr>, m')"
proof -
  let ?t2 = "ws4 @ ps" and ?t1 = "ws2 @ CHR ''/'' # ws3 @ subtype @ ws4 @ ps"
  have ends: "no_token ps" "http__skip_LWS ps = ps"
    using items_text_ends [OF assms(3)] by simp_all
  obtain m1 where 1: "http__parse_token (type @ ?t1) m = (Inr (type, ?t1), m1)" "plenty m1"
    using parse_token_text [OF assms(1) no_token_blank [OF assms(5) slash_no_token(1)] assms(8)] by blast
  obtain m2 where 2: "http__parse_token (subtype @ ?t2) m1 = (Inr (subtype, ?t2), m2)" "plenty m2"
    using parse_token_text [OF assms(2) no_token_blank [OF assms(7) ends(1)] 1(2)] by blast
  obtain m3 where 3: "parse_parameters ps m2 = Some (Inr (rev params), m3)" "plenty m3"
    using parse_parameters_text [OF assms(3) 2(2)] by blast
  obtain m4 where 4: "make_content_type type subtype (rev params) m3 =
      (Inr \<lparr>ct_media_type = type @ ''/'' @ subtype, ct_parameters = rev params\<rparr>, m4)"
    using make_content_type_plenty [OF 3(2)] by blast
  have "http__skip_LWS (ws1 @ type @ ?t1) = type @ ?t1" "http__skip_LWS ?t1 = CHR ''/'' # ws3 @ subtype @ ws4 @ ps"
      "http__skip_LWS (ws3 @ subtype @ ?t2) = subtype @ ?t2" "http__skip_LWS ?t2 = ps"
    using assms ends(2) token_skip slash_no_token(2) by simp_all
  then show ?thesis
    using 1(1) 2(1) 3(1) 4 by (simp add: http_parse_content_type_def)
qed

text \<open>A text for the witnesses: two parameters, one in quotes, and a gap.\<close>

definition example_params :: "http_parameter list" where
  "example_params = [\<lparr>param_name = ''charset'', param_value = ''utf-8''\<rparr>, \<lparr>param_name = ''q'', param_value = ''a b''\<rparr>]"

definition example_params_text :: string where
  "example_params_text = ''; charset = utf-8 ;;q='' @ [CHR 0x22] @ ''a b'' @ [CHR 0x22]"

lemma example_params_text: "items_text parameter_text (CHR '';'') example_params example_params_text"
proof -
  have tokens: "is_token ''charset''" "is_token ''utf-8''" "is_token ''q''" and quotable: "\<forall>c \<in> set ''a b''. is_qdtext c"
    by code_simp+
  have blanks: "blank []" "blank '' ''"
    by code_simp+
  have "parameter_text \<lparr>param_name = ''charset'', param_value = ''utf-8''\<rparr> (''charset'' @ '' '' @ ''='' @ '' '' @ ''utf-8'')"
    using tokens blanks unfolding parameter_text_def value_text_def http_parameter.simps by blast
  moreover have "parameter_text \<lparr>param_name = ''q'', param_value = ''a b''\<rparr> (''q'' @ [] @ ''='' @ [] @ ([CHR 0x22] @ ''a b'' @ [CHR 0x22]))"
    using tokens blanks quotable unfolding parameter_text_def value_text_def http_parameter.simps by blast
  ultimately have "items_text parameter_text (CHR '';'') example_params
      (CHR '';'' # '' '' @ (''charset'' @ '' '' @ ''='' @ '' '' @ ''utf-8'') @ '' '' @
        (CHR '';'' # [] @ CHR '';'' # [] @ (''q'' @ [] @ ''='' @ [] @ ([CHR 0x22] @ ''a b'' @ [CHR 0x22])) @ [] @ []))"
    unfolding example_params_def by (intro items_text.intros blanks)
  then show ?thesis
    by (simp add: example_params_text_def)
qed

theorem content_type_roundtrip_witness:
  "\<exists>m'. http_parse_content_type ('' text/html'' @ example_params_text) (fresh_mem []) =
    Some (Inr \<lparr>ct_media_type = ''text/html'', ct_parameters = rev example_params\<rparr>, m')"
proof -
  have "is_token ''text''" "is_token ''html''" "blank '' ''" "blank []" "plenty (fresh_mem [])"
    by code_simp+
  from content_type_roundtrip [OF this(1,2) example_params_text this(3,4,4,4,5)] show ?thesis
    by simp
qed

text \<open>
  C39. The content disposition parser likewise always returns, with the same books, and reads
  a well-formed disposition back.
\<close>

theorem http_parse_content_disposition_correct:
  "(\<exists>r m'. http_parse_content_disposition header_value m = Some (r, m') \<and> keeps_books disposition_foot m r m' \<and>
     (case r of Inl _ \<Rightarrow> True | Inr cd \<Rightarrow> held (http_content_disposition_destroy cd m') = held m)) \<and>
   (is_token type \<and> items_text parameter_text (CHR '';'') params ps \<and> blank ws \<and> blank ws' \<and> plenty m \<longrightarrow>
     (\<exists>m'. http_parse_content_disposition (ws @ type @ ws' @ ps) m =
       Some (Inr \<lparr>cd_disposition_type = type, cd_parameters = rev params\<rparr>, m')))"
proof (intro conjI impI)
  let ?s = "http__skip_LWS header_value"
  obtain r1 m1 where 1: "http__parse_token ?s m = (r1, m1)"
    by (cases "http__parse_token ?s m")
  have "\<exists>r m'. http_parse_content_disposition header_value m = Some (r, m') \<and> keeps_books disposition_foot m r m'"
  proof (cases r1)
    case (Inl e)
    then show ?thesis
      using 1 token.error_cases [of ?s m e m1] by (auto simp: http_parse_content_disposition_def)
  next
    case (Inr x)
    obtain type s1 where x: "x = (type, s1)" by (cases x)
    have b1: "held m1 = held m + a_ref" "plenty m \<longrightarrow> plenty m1"
      using token.item_case token.keeps_plenty [OF 1] 1 Inr x by blast+
    obtain r2 m2 where 2: "parse_parameters (http__skip_LWS s1) m1 = Some (r2, m2)"
        "keeps_books (foots parameter_foot) m1 r2 m2" "plenty m1 \<longrightarrow> plenty m2"
      using parse_parameters_total by blast
    show ?thesis
    proof (cases r2)
      case (Inl e)
      then show ?thesis
        using 1 Inr x b1 2 by (auto simp: http_parse_content_disposition_def)
    next
      case (Inr params)
      obtain ok m3 where 3: "malloc m2 = (ok, m3)"
        by (cases "malloc m2")
      show ?thesis
        using 1 \<open>r1 = Inr x\<close> x b1 2 Inr 3 malloc_held [OF 3] malloc_plenty [OF 3]
        by (auto simp: http_parse_content_disposition_def disposition_foot_def algebra_simps)
    qed
  qed
  then obtain r m' where "http_parse_content_disposition header_value m = Some (r, m')" "keeps_books disposition_foot m r m'"
    by blast
  then show "\<exists>r m'. http_parse_content_disposition header_value m = Some (r, m') \<and> keeps_books disposition_foot m r m' \<and>
     (case r of Inl _ \<Rightarrow> True | Inr cd \<Rightarrow> held (http_content_disposition_destroy cd m') = held m)"
    by (cases r) (auto simp: http_content_disposition_destroy_def disposition_foot_def algebra_simps)
next
  assume a: "is_token type \<and> items_text parameter_text (CHR '';'') params ps \<and> blank ws \<and> blank ws' \<and> plenty m"
  then have ends: "no_token ps" "http__skip_LWS ps = ps"
    using items_text_ends by blast+
  obtain m1 where 1: "http__parse_token (type @ ws' @ ps) m = (Inr (type, ws' @ ps), m1)" "plenty m1"
    using a parse_token_text no_token_blank ends(1) by metis
  obtain m2 where 2: "parse_parameters ps m1 = Some (Inr (rev params), m2)" "plenty m2"
    using a parse_parameters_text [OF _ 1(2)] by blast
  obtain m3 where 3: "malloc m2 = (True, m3)"
    using malloc_ok [OF 2(2)] by blast
  show "\<exists>m'. http_parse_content_disposition (ws @ type @ ws' @ ps) m =
       Some (Inr \<lparr>cd_disposition_type = type, cd_parameters = rev params\<rparr>, m')"
    using a 1(1) 2(1) 3 ends(2) by (simp add: http_parse_content_disposition_def token_skip)
qed

theorem http_parse_content_disposition_witness:
  "\<exists>m'. http_parse_content_disposition (''attachment'' @ example_params_text) (fresh_mem []) =
    Some (Inr \<lparr>cd_disposition_type = ''attachment'', cd_parameters = rev example_params\<rparr>, m')"
proof -
  have "is_token ''attachment''" "blank []" "plenty (fresh_mem [])"
    by code_simp+
  then show ?thesis
    using http_parse_content_disposition_correct [of "[]" "fresh_mem []" "''attachment''" example_params example_params_text "[]" "[]"]
      example_params_text by simp
qed

text \<open>
  Looking a parameter up finds the first of the list whose name agrees up to the case of
  letters (the one that came last in the header) and takes a reference to its value;
  a comparison that runs out of memory counts as different.
\<close>

theorem parameter_lookup:
  "case http_parameter_list_find_item list name m of (r, m') \<Rightarrow>
     (case r of Inl e \<Rightarrow> e = NSERROR_NOT_FOUND \<and> held m' = held m
      | Inr v \<Rightarrow> (\<exists>p \<in> set list. same_name name (param_name p) \<and> v = param_value p) \<and> held m' = held m + a_ref) \<and>
     (plenty m \<longrightarrow> r = (case find (\<lambda>p. same_name name (param_name p)) list of
        None \<Rightarrow> Inl NSERROR_NOT_FOUND | Some p \<Rightarrow> Inr (param_value p)))"
  using parameter_find [of list name m] by (auto split: prod.splits)

theorem parameter_lookup_witness:
  "fst (http_parameter_list_find_item (rev example_params) ''CharSet'' (fresh_mem [])) = Inr ''utf-8''"
proof -
  have "plenty (fresh_mem [])" "find (\<lambda>p. same_name ''CharSet'' (param_name p)) (rev example_params) =
      Some \<lparr>param_name = ''charset'', param_value = ''utf-8''\<rparr>"
    by code_simp+
  then show ?thesis
    using parameter_lookup [where list = "rev example_params" and name = "''CharSet''" and m = "fresh_mem []"] by (auto split: prod.splits)
qed

end
