(* ===== verification/C_Text.thy ===== *)
theory C_Text
  imports Prelude Ascii
begin

text \<open>
  The functions of the C library on numbers and text that the caches use: printing and
  reading of decimal numbers, caseless comparison, trimming of white space (in the C locale).
  Also \<^verbatim>\<open>nsc_sntimet\<close> and \<^verbatim>\<open>nsc_snptimet\<close> of \<^verbatim>\<open>src/utils/time.c\<close>, which are compiled
  without \<^verbatim>\<open>HAVE_STRFTIME\<close> because the file does not include \<^verbatim>\<open>config.h\<close>. A reading function
  is given the text up to the NUL.
\<close>

section \<open>Decimal numbers\<close>

definition is_digit :: "char \<Rightarrow> bool" where
  "is_digit c \<longleftrightarrow> ord_char CHR ''0'' \<le> ord_char c \<and> ord_char c \<le> ord_char CHR ''9''"

definition digit_value :: "char \<Rightarrow> nat" where
  "digit_value c = ord_char c - ord_char CHR ''0''"

definition digit_char :: "nat \<Rightarrow> char" where
  "digit_char d = char_of (ord_char CHR ''0'' + d)"

definition decimal :: "string \<Rightarrow> nat" where
  "decimal s = foldl (\<lambda>n c. n * 10 + digit_value c) 0 s"

fun print_nat :: "nat \<Rightarrow> string" where
  "print_nat n = (if n < 10 then [digit_char n] else print_nat (n div 10) @ [digit_char (n mod 10)])"

declare print_nat.simps [simp del]

definition print_int :: "int \<Rightarrow> string" where
  "print_int i = (if i < 0 then CHR ''-'' # print_nat (nat (- i)) else print_nat (nat i))"

lemma digit_char_facts:
  assumes "d < 10"
  shows "is_digit (digit_char d)" and "digit_value (digit_char d) = d"
  using assms by (simp_all add: is_digit_def digit_char_def digit_value_def)

lemma decimal_snoc [simp]: "decimal (s @ [c]) = decimal s * 10 + digit_value c"
  by (simp add: decimal_def)

lemma print_nat_digits: "\<forall>c \<in> set (print_nat n). is_digit c"
proof (induction n rule: print_nat.induct)
  case (1 n)
  then show ?case
    by (subst print_nat.simps) (auto simp: digit_char_facts)
qed

lemma decimal_print_nat [simp]: "decimal (print_nat n) = n"
proof (induction n rule: print_nat.induct)
  case (1 n)
  show ?case
  proof (cases "n < 10")
    case True
    then show ?thesis
      using decimal_snoc [of "[]"] by (subst print_nat.simps) (simp add: digit_char_facts decimal_def)
  next
    case False
    then show ?thesis
      using 1 by (subst print_nat.simps) (simp add: digit_char_facts)
  qed
qed

lemma print_nat_not_Nil [simp]: "print_nat n \<noteq> []"
  by (subst print_nat.simps) simp

lemma print_nat_length: "n < 10 ^ k \<Longrightarrow> 0 < k \<Longrightarrow> length (print_nat n) \<le> k"
proof (induction n arbitrary: k rule: print_nat.induct)
  case (1 n)
  show ?case
  proof (cases "n < 10")
    case True
    then show ?thesis using 1 by (subst print_nat.simps) simp
  next
    case False
    then have "1 < k"
      using 1(2,3) by (cases k; cases "k - 1") auto
    then have "n div 10 < 10 ^ (k - 1)" "0 < k - 1"
      using 1(2) by (simp_all add: less_mult_imp_div_less power_eq_if mult.commute)
    then show ?thesis
      using 1(1) [OF False, of "k - 1"] False \<open>1 < k\<close> by (subst print_nat.simps) simp
  qed
qed

section \<open>Reading numbers\<close>

definition c_isspace :: "char \<Rightarrow> bool" where
  "c_isspace c \<longleftrightarrow> c = CHR '' '' \<or> 9 \<le> ord_char c \<and> ord_char c \<le> 13"

text \<open>White space, a sign and digits: the value, if there is a digit.\<close>

definition scan_int :: "string \<Rightarrow> int option" where
  "scan_int str =
     (let s = dropWhile c_isspace str;
          negative = (peek s = CHR ''-'');
          digits = takeWhile is_digit (if peek s = CHR ''-'' \<or> peek s = CHR ''+'' then tl s else s) in
      if digits = [] then None else Some (if negative then - int (decimal digits) else int (decimal digits)))"

text \<open>\<^verbatim>\<open>strtoll\<close>, as its callers use it: \<open>None\<close> if nothing was converted or out of range.\<close>

definition strtoll :: "string \<Rightarrow> int option" where
  "strtoll str = (case scan_int str of
     None \<Rightarrow> None
   | Some i \<Rightarrow> if - (2 ^ 63) \<le> i \<and> i < 2 ^ 63 then Some i else None)"

text \<open>
  \<^verbatim>\<open>sscanf\<close> with \<^verbatim>\<open>%zu\<close>: what is out of range is the largest number, and a negative number
  is taken modulo the size, as \<^verbatim>\<open>strtoul\<close> does.
\<close>

definition sscanf_size :: "string \<Rightarrow> nat option" where
  "sscanf_size str = (case scan_int str of
     None \<Rightarrow> None
   | Some i \<Rightarrow> Some (if \<bar>i\<bar> < 2 ^ 64 then nat (i mod 2 ^ 64) else 2 ^ 64 - 1))"

text \<open>\<^verbatim>\<open>strtoul\<close>: what is out of range is the largest number.\<close>

definition strtoul :: "string \<Rightarrow> int" where
  "strtoul str = (case scan_int str of
     None \<Rightarrow> 0
   | Some i \<Rightarrow> if \<bar>i\<bar> < 2 ^ 64 then i mod 2 ^ 64 else 2 ^ 64 - 1)"

text \<open>\<^verbatim>\<open>atoi\<close>: undefined when the value is no \<^verbatim>\<open>int\<close>.\<close>

definition atoi :: "string \<Rightarrow> int option" where
  "atoi str = (let i = (case scan_int str of None \<Rightarrow> 0 | Some i \<Rightarrow> i) in
     if - (2 ^ 31) \<le> i \<and> i < 2 ^ 31 then Some i else None)"

lemma digit_not_special: "is_digit c \<Longrightarrow> \<not> c_isspace c \<and> c \<noteq> CHR ''-'' \<and> c \<noteq> CHR ''+''"
  by (auto simp: is_digit_def c_isspace_def)

lemma scan_print_nat: "s = [] \<or> \<not> is_digit (hd s) \<Longrightarrow> scan_int (print_nat n @ s) = Some (int n)"
proof -
  assume stop: "s = [] \<or> \<not> is_digit (hd s)"
  obtain c t where c: "print_nat n = c # t"
    by (cases "print_nat n") auto
  then have d: "is_digit c"
    using print_nat_digits [of n] by simp
  have "takeWhile is_digit (print_nat n @ s) = print_nat n"
    by (rule takeWhile_append_stop [OF print_nat_digits stop])
  then show ?thesis
    using digit_not_special [OF d] c decimal_print_nat [of n] by (auto simp: scan_int_def Let_def)
qed

lemma scan_print_int_rest:
  assumes stop: "s = [] \<or> \<not> is_digit (hd s)"
  shows "scan_int (print_int i @ s) = Some i"
proof (cases "i < 0")
  case True
  have digits: "takeWhile is_digit (print_nat (nat (- i)) @ s) = print_nat (nat (- i))"
    by (rule takeWhile_append_stop [OF print_nat_digits stop])
  have "\<not> c_isspace CHR ''-''"
    by (simp add: c_isspace_def)
  then show ?thesis
    using True by (simp add: scan_int_def print_int_def Let_def digits)
next
  case False
  then show ?thesis
    using scan_print_nat [OF stop, of "nat i"] by (simp add: print_int_def)
qed

lemma scan_print_int: "scan_int (print_int i) = Some i"
  using scan_print_int_rest [of "[]" i] by simp

lemma print_int_chars: "c \<in> set (print_int i) \<Longrightarrow> is_digit c \<or> c = CHR ''-''"
  using print_nat_digits by (auto simp: print_int_def split: if_splits)

section \<open>Comparison and trimming\<close>

definition strcasecmp_eq :: "string \<Rightarrow> string \<Rightarrow> bool" where
  "strcasecmp_eq a b \<longleftrightarrow> map ascii_to_lower a = map ascii_to_lower b"

definition rstrip :: "(char \<Rightarrow> bool) \<Rightarrow> string \<Rightarrow> string" where
  "rstrip P s = rev (dropWhile P (rev s))"

lemma rstrip_none [simp]: "s = [] \<or> \<not> P (last s) \<Longrightarrow> rstrip P s = s"
  by (cases s rule: rev_cases) (simp_all add: rstrip_def)

lemma rstrip_Nil [simp]: "rstrip P [] = []"
  by (simp add: rstrip_def)

section \<open>Time\<close>

text \<open>\<^verbatim>\<open>snprintf\<close>: the text, of which as much is written as fits; the length is that of all.\<close>

definition nsc_sntimet :: "int \<Rightarrow> string" where
  "nsc_sntimet timep = print_int timep"

definition nsc_snptimet :: "string \<Rightarrow> nat \<Rightarrow> int result" where
  "nsc_snptimet str len =
     (if len < 1 then Inl NSERROR_BAD_PARAMETER
      else (case strtoll str of None \<Rightarrow> Inl NSERROR_BAD_PARAMETER | Some t \<Rightarrow> Inr t))"

text \<open>\<^verbatim>\<open>curl_getdate\<close> of libcurl is an argument; it answers -1 for a text that is no date.\<close>

definition nsc_strntimet :: "(string \<Rightarrow> int) \<Rightarrow> string \<Rightarrow> int result" where
  "nsc_strntimet curl_getdate str =
     (if curl_getdate str = - 1 then Inl NSERROR_INVALID else Inr (curl_getdate str))"

lemma nsc_time_roundtrip:
  assumes "- (2 ^ 63) \<le> t" and "t < 2 ^ 63" and "0 < n"
  shows "nsc_snptimet (nsc_sntimet t) n = Inr t"
  using assms by (simp add: nsc_snptimet_def nsc_sntimet_def strtoll_def scan_print_int)

end
