(* ===== verification/Http_Directives.thy ===== *)
theory Http_Directives
  imports Http_Content_Type C_Text
begin

text \<open>
  \<^verbatim>\<open>src/utils/http/cache-control.c\<close> and \<^verbatim>\<open>src/utils/http/strict-transport-security.c\<close>: header
  values that are a list of directives, each of which may appear once.
\<close>

section \<open>Definitions\<close>

definition corestring_lwc_max_age :: string where
  "corestring_lwc_max_age = ''max-age''"

definition corestring_lwc_no_cache :: string where
  "corestring_lwc_no_cache = ''no-cache''"

definition corestring_lwc_no_store :: string where
  "corestring_lwc_no_store = ''no-store''"

definition corestring_lwc_includesubdomains :: string where
  "corestring_lwc_includesubdomains = ''includesubdomains''"

record http_cache_control =
  cc_max_age :: "32 word"
  cc_max_age_valid :: bool
  cc_no_cache :: bool
  cc_no_store :: bool

record http_strict_transport_security =
  sts_max_age :: "32 word"
  sts_include_sub_domains :: bool

fun parse_max_age_loop :: "string \<Rightarrow> 32 word \<Rightarrow> 32 word result" where
  "parse_max_age_loop [] val = Inr val"
| "parse_max_age_loop (c # pos) val =
     (if is_digit c then
        (let nv = val * 10 + word_of_nat (digit_value c) in
         parse_max_age_loop pos (if nv < val then - 1 else nv))
      else Inl NSERROR_NOT_FOUND)"

definition parse_max_age :: "string \<Rightarrow> 32 word result" where
  "parse_max_age value = (if value = [] then Inl NSERROR_NOT_FOUND else parse_max_age_loop value 0)"

text \<open>What both parsers begin with: the list of directives, without duplicates.\<close>

definition parse_directives :: "char \<Rightarrow> string \<Rightarrow> mem \<Rightarrow> (http_directive list result \<times> mem) option" where
  "parse_directives separator header_value m =
     (case http__parse_directive (http__skip_LWS header_value) m of
        (Inl error, m1) \<Rightarrow> Some (Inl error, m1)
      | (Inr (first, pos), m1) \<Rightarrow>
          (let pos = http__skip_LWS pos in
           case (if peek pos = separator
                 then map_option (\<lambda>(r, m2). (case r of Inl error \<Rightarrow> Inl error | Inr (directives, _) \<Rightarrow> Inr directives, m2))
                   (http___item_list_parse pos http__parse_directive http_destroy_directive [first] m1)
                 else Some (Inr [first], m1)) of
             None \<Rightarrow> None
           | Some (Inl error, m2) \<Rightarrow> Some (Inl error, m2)
           | Some (Inr directives, m2) \<Rightarrow>
               (case check_duplicates directives m2 of (ok, m3) \<Rightarrow>
                  if \<not> ok then Some (Inl NSERROR_NOT_FOUND, http_directive_list_destroy directives m3)
                  else Some (Inr directives, m3))))"

definition find_max_age :: "http_directive list \<Rightarrow> mem \<Rightarrow> (32 word \<times> bool) \<times> mem" where
  "find_max_age directives m =
     (case http_directive_list_find_item directives corestring_lwc_max_age m of
        (Inr (Some value_str), m1) \<Rightarrow>
          (case parse_max_age value_str of
             Inr max_age \<Rightarrow> ((max_age, True), lwc_string_unref m1)
           | Inl _ \<Rightarrow> ((0, False), lwc_string_unref m1))
      | (_, m1) \<Rightarrow> ((0, False), m1))"

definition find_flag :: "http_directive list \<Rightarrow> string \<Rightarrow> mem \<Rightarrow> bool \<times> mem" where
  "find_flag directives name m =
     (case http_directive_list_find_item directives name m of
        (Inr value_str, m1) \<Rightarrow> (True, unref_value value_str m1)
      | (Inl _, m1) \<Rightarrow> (False, m1))"

definition http_parse_cache_control :: "string \<Rightarrow> mem \<Rightarrow> (http_cache_control result \<times> mem) option" where
  "http_parse_cache_control header_value m =
     (case parse_directives (CHR '','') header_value m of
        None \<Rightarrow> None
      | Some (Inl error, m1) \<Rightarrow> Some (Inl error, m1)
      | Some (Inr directives, m1) \<Rightarrow>
          (case find_max_age directives m1 of ((max_age, max_age_valid), m2) \<Rightarrow>
           case find_flag directives corestring_lwc_no_cache m2 of (no_cache, m3) \<Rightarrow>
           case find_flag directives corestring_lwc_no_store m3 of (no_store, m4) \<Rightarrow>
           case malloc (http_directive_list_destroy directives m4) of (cc, m5) \<Rightarrow>
             Some (if \<not> cc then (Inl NSERROR_NOMEM, m5)
               else (Inr \<lparr>cc_max_age = max_age, cc_max_age_valid = max_age_valid, cc_no_cache = no_cache,
                          cc_no_store = no_store\<rparr>, m5))))"

definition http_cache_control_destroy :: "http_cache_control \<Rightarrow> mem \<Rightarrow> mem" where
  "http_cache_control_destroy victim m = free_block m"

definition http_cache_control_has_max_age :: "http_cache_control \<Rightarrow> bool" where
  "http_cache_control_has_max_age cc = cc_max_age_valid cc"

definition http_cache_control_max_age :: "http_cache_control \<Rightarrow> 32 word" where
  "http_cache_control_max_age cc = cc_max_age cc"

definition http_cache_control_no_cache :: "http_cache_control \<Rightarrow> bool" where
  "http_cache_control_no_cache cc = cc_no_cache cc"

definition http_cache_control_no_store :: "http_cache_control \<Rightarrow> bool" where
  "http_cache_control_no_store cc = cc_no_store cc"

definition http_parse_strict_transport_security ::
  "string \<Rightarrow> mem \<Rightarrow> (http_strict_transport_security result \<times> mem) option" where
  "http_parse_strict_transport_security header_value m =
     (case parse_directives (CHR '';'') header_value m of
        None \<Rightarrow> None
      | Some (Inl error, m1) \<Rightarrow> Some (Inl error, m1)
      | Some (Inr directives, m1) \<Rightarrow>
          Some (case http_directive_list_find_item directives corestring_lwc_max_age m1 of
             (Inr (Some max_age_str), m2) \<Rightarrow>
               (case parse_max_age max_age_str of
                  Inl _ \<Rightarrow> (Inl NSERROR_NOT_FOUND, http_directive_list_destroy directives (lwc_string_unref m2))
                | Inr max_age \<Rightarrow>
                    (case http_directive_list_find_item directives corestring_lwc_includesubdomains (lwc_string_unref m2) of
                       (Inr (Some isd_str), m3) \<Rightarrow>
                         (Inl NSERROR_NOT_FOUND, http_directive_list_destroy directives (lwc_string_unref m3))
                     | (isd, m3) \<Rightarrow>
                         if isd \<noteq> Inr None \<and> isd \<noteq> Inl NSERROR_NOT_FOUND
                         then (Inl NSERROR_NOT_FOUND, http_directive_list_destroy directives m3)
                         else (case malloc (http_directive_list_destroy directives m3) of (sts, m4) \<Rightarrow>
                           if \<not> sts then (Inl NSERROR_NOMEM, m4)
                           else (Inr \<lparr>sts_max_age = max_age, sts_include_sub_domains = (isd = Inr None)\<rparr>, m4))))
           | (_, m2) \<Rightarrow> (Inl NSERROR_NOT_FOUND, http_directive_list_destroy directives m2)))"

definition http_strict_transport_security_destroy :: "http_strict_transport_security \<Rightarrow> mem \<Rightarrow> mem" where
  "http_strict_transport_security_destroy victim m = free_block m"

definition http_strict_transport_security_max_age :: "http_strict_transport_security \<Rightarrow> 32 word" where
  "http_strict_transport_security_max_age sts = sts_max_age sts"

definition http_strict_transport_security_include_subdomains :: "http_strict_transport_security \<Rightarrow> bool" where
  "http_strict_transport_security_include_subdomains sts = sts_include_sub_domains sts"

section \<open>The age\<close>

lemma decimal_ge: "n \<le> foldl (\<lambda>n c. n * 10 + digit_value c) n s"
proof (induction s arbitrary: n)
  case (Cons c s)
  have "n \<le> n * 10 + digit_value c" by simp
  then show ?case
    using Cons [of "n * 10 + digit_value c"] by simp
qed simp

lemma parse_max_age_loop_exact:
  "\<forall>c \<in> set s. is_digit c \<Longrightarrow> foldl (\<lambda>n c. n * 10 + digit_value c) n s < 2 ^ 32 \<Longrightarrow>
     parse_max_age_loop s (word_of_nat n) =
       Inr (word_of_nat (foldl (\<lambda>n c. n * 10 + digit_value c) n s))"
proof (induction s arbitrary: n)
  case (Cons c s)
  let ?n = "n * 10 + digit_value c"
  have less: "?n < 2 ^ 32"
    using Cons.prems(2) decimal_ge [of ?n s] by simp
  have nv: "word_of_nat n * 10 + word_of_nat (digit_value c) = (word_of_nat ?n :: 32 word)"
    by simp
  have "\<not> (word_of_nat ?n :: 32 word) < word_of_nat n"
    using less by (simp add: word_less_nat_alt unat_of_nat take_bit_nat_eq_self del: of_nat_add of_nat_mult)
  then show ?case
    using Cons.prems Cons.IH [of ?n] by (simp add: nv Let_def del: of_nat_add of_nat_mult)
qed simp

lemma parse_max_age_loop_digits:
  "\<forall>c \<in> set s. is_digit c \<Longrightarrow> \<exists>a. parse_max_age_loop s v = Inr a"
  by (induction s arbitrary: v) (auto simp: Let_def)

lemma parse_max_age_loop_bad:
  "\<not> (\<forall>c \<in> set s. is_digit c) \<Longrightarrow> parse_max_age_loop s v = Inl NSERROR_NOT_FOUND"
  by (induction s arbitrary: v) (auto simp: Let_def)

text \<open>
  The age of a directive: anything but a non-empty string of digits is
  \<^verbatim>\<open>NSERROR_NOT_FOUND\<close>, and a number below \<open>2 ^ 32\<close> is read exactly.
\<close>

theorem parse_max_age_correct:
  "if s = [] \<or> \<not> (\<forall>c \<in> set s. is_digit c) then parse_max_age s = Inl NSERROR_NOT_FOUND
   else \<exists>age. parse_max_age s = Inr age \<and> (decimal s < 2 ^ 32 \<longrightarrow> unat age = decimal s)"
proof (cases "s = [] \<or> \<not> (\<forall>c \<in> set s. is_digit c)")
  case True
  then show ?thesis
    using parse_max_age_loop_bad [of s 0] by (auto simp: parse_max_age_def)
next
  case False
  then obtain age where age: "parse_max_age_loop s 0 = Inr age"
    using parse_max_age_loop_digits [of s 0] by blast
  have "unat age = decimal s" if "decimal s < 2 ^ 32"
    using that False parse_max_age_loop_exact [of s 0] age
    by (simp add: decimal_def unat_of_nat take_bit_nat_eq_self)
  then show ?thesis
    using False age by (simp add: parse_max_age_def)
qed

theorem parse_max_age_correct_witness:
  "parse_max_age ''4294967295'' = Inr 4294967295 \<and> decimal ''4294967295'' = 2 ^ 32 - 1"
proof -
  have digits: "\<forall>c \<in> set ''4294967295''. is_digit c"
    by code_simp
  have d: "decimal ''4294967295'' = 2 ^ 32 - 1"
    by (simp add: decimal_def digit_value_def)
  obtain age where "parse_max_age ''4294967295'' = Inr age" "unat age = 2 ^ 32 - 1"
    using parse_max_age_correct [of "''4294967295''"] digits d by auto
  moreover from this(2) have "age = 4294967295"
    by (simp add: word_unat_eq_iff)
  ultimately show ?thesis
    using d by simp
qed

text \<open>The saturation misses some overflows: five thousand million seconds become less.\<close>

lemma parse_max_age_wraps: "parse_max_age ''5000000000'' = Inr 705032704"
  by code_simp

section \<open>Directives\<close>

definition dir_key :: "http_directive \<Rightarrow> string" where
  "dir_key d = map ascii_to_lower (dir_name d)"

lemma same_name_key: "same_name name (dir_name d) \<longleftrightarrow> map ascii_to_lower name = dir_key d"
  by (simp add: same_name_def dir_key_def)

lemma check_loop:
  "check_duplicates_loop ds keys result m = (b, m') \<Longrightarrow>
     held m' = held m \<and>
     (plenty m \<longrightarrow> plenty m' \<and>
        (length ds < 2 ^ 32 \<longrightarrow> b = (result \<and> (\<forall>k \<in> set keys. length (filter (\<lambda>d. dir_key d = dir_key k) ds) = 1))))"
proof (induction keys arbitrary: result m)
  case (Cons k keys)
  let ?n = "length (filter (\<lambda>d. dir_key d = dir_key k) ds)"
  obtain n m2 where 2: "directive_count ds (dir_name k) 0 (ref_value (dir_value k) (lwc_string_ref m)) = (n, m2)"
    by (cases "directive_count ds (dir_name k) 0 (ref_value (dir_value k) (lwc_string_ref m))")
  let ?m3 = "unref_value (dir_value k) (lwc_string_unref m2)"
  have rest: "check_duplicates_loop ds keys (result \<and> n = 1) ?m3 = (b, m')"
    using Cons.prems 2 by (simp add: http_directive_list_iterate_def)
  have m3: "held ?m3 = held m" "plenty m \<longrightarrow> plenty ?m3"
    using directive_count [OF 2] by (auto simp: ref_value_def unref_value_def split: option.splits)
  have "(word_of_nat ?n :: 32 word) = 1 \<longleftrightarrow> ?n = 1" if "length ds < 2 ^ 32"
    using le_less_trans [OF length_filter_le that, of "\<lambda>d. dir_key d = dir_key k"] by (simp add: word_unat_eq_iff unat_of_nat take_bit_nat_eq_self)
  moreover have "plenty m \<longrightarrow> n = word_of_nat ?n"
    using directive_count [OF 2] by (auto simp: ref_value_def same_name_key eq_commute [of "dir_key k"] dir_key_def [symmetric] split: option.splits)
  ultimately show ?case
    using Cons.IH [OF rest] m3 by auto
qed simp

lemma count_one_distinct:
  "(\<forall>k \<in> set ds. length (filter (\<lambda>d. f d = f k) ds) = 1) \<longleftrightarrow> distinct (map f ds)"
proof (induction ds)
  case (Cons x ds)
  have none: "length (filter (\<lambda>d. f d = f x) ds) = 0 \<longleftrightarrow> f x \<notin> f ` set ds"
    by (simp add: filter_empty_conv image_iff) metis
  have "(\<forall>k \<in> set (x # ds). length (filter (\<lambda>d. f d = f k) (x # ds)) = 1) \<longleftrightarrow>
      f x \<notin> f ` set ds \<and> (\<forall>k \<in> set ds. length (filter (\<lambda>d. f d = f k) ds) = 1)"
    using none by (auto split: if_splits)
  then show ?case
    using Cons by simp
qed simp

lemma check_duplicates_books:
  assumes "check_duplicates ds m = (b, m')"
  shows "held m' = held m \<and> (plenty m \<longrightarrow> plenty m' \<and> (length ds < 2 ^ 32 \<longrightarrow> b = distinct (map dir_key ds)))"
  using assms check_loop [of ds ds True m b m'] count_one_distinct [where f = dir_key and ds = ds]
  by (auto simp: check_duplicates_def split: if_splits)

lemma destroy_directives [simp]: "held (http_directive_list_destroy list m) = held m - foots directive_foot list"
  by (simp add: http_directive_list_destroy_def directive.destroy_list)

lemma destroy_directives_plenty [simp]: "plenty (http_directive_list_destroy list m) = plenty m"
proof -
  have "plenty (http___item_list_destroy http_destroy_directive list m) = plenty m" for m
    by (induction list arbitrary: m) (simp_all add: directive.free_plenty)
  then show ?thesis by (simp add: http_directive_list_destroy_def)
qed

text \<open>The list of directives before the check for duplicates.\<close>

lemma parse_directives_total:
  assumes "list_separator separator"
  shows "\<exists>r m'. parse_directives separator header_value m = Some (r, m') \<and>
    keeps_books (foots directive_foot) m r m' \<and> (plenty m \<longrightarrow> plenty m')"
proof -
  let ?s = "http__skip_LWS header_value"
  obtain r1 m1 where 1: "http__parse_directive ?s m = (r1, m1)"
    by (cases "http__parse_directive ?s m")
  have k1: "plenty m \<longrightarrow> plenty m1"
    using directive.keeps_plenty [OF 1] by blast
  show ?thesis
  proof (cases r1)
    case (Inl e)
    then show ?thesis
      using 1 k1 directive.error_cases [of ?s m e m1] by (auto simp: parse_directives_def)
  next
    case (Inr x)
    obtain first s1 where x: "x = (first, s1)" by (cases x)
    have b1: "held m1 = held m + directive_foot first"
      using directive.item_case 1 Inr x by blast
    let ?p = "http__skip_LWS s1"
    have finish: ?thesis
      if l: "(if peek ?p = separator
            then map_option (\<lambda>(r, m2). (case r of Inl error \<Rightarrow> Inl error | Inr (directives, _) \<Rightarrow> Inr directives, m2))
              (http___item_list_parse ?p http__parse_directive http_destroy_directive [first] m1)
            else Some (Inr [first], m1)) = Some (r2, m2)"
        and k2: "keeps_books (foots directive_foot) m r2 m2" "plenty m \<longrightarrow> plenty m2" for r2 m2
    proof (cases r2)
      case (Inl e)
      then show ?thesis
        using k2 by (simp add: parse_directives_def 1 \<open>r1 = Inr x\<close> x Let_def l)
    next
      case (Inr ds)
      obtain ok m3 where 3: "check_duplicates ds m2 = (ok, m3)"
        by (cases "check_duplicates ds m2")
      show ?thesis
        using k2 check_duplicates_books [OF 3] Inr by (simp add: parse_directives_def 1 \<open>r1 = Inr x\<close> x Let_def l 3)
    qed
    show ?thesis
    proof (cases "peek ?p = separator")
      case False
      then show ?thesis
        using b1 k1 by (intro finish [of "Inr [first]" m1]) simp_all
    next
      case True
      then have "peek ?p \<noteq> NUL"
        using list_separator(1) [OF assms] by simp
      from directive.list_parse [OF this, of "[first]" m1] obtain r2 m2 where
        2: "http___item_list_parse ?p http__parse_directive http_destroy_directive [first] m1 = Some (r2, m2)"
          "plenty m1 \<longrightarrow> plenty m2"
          "r2 = Inl NSERROR_NOMEM \<and> \<not> plenty m1 \<and> held m2 = held m1 - foots directive_foot [first] \<or>
           (\<exists>items rest. item_list_gram directive_gram (peek ?p) ?p items rest \<and> held m2 = held m1 + foots directive_foot items \<and>
             r2 = (if items = [] \<and> [first] = [] then Inl NSERROR_NOT_FOUND else Inr (rev items @ [first], rest)))"
        by blast
      then show ?thesis
        using True b1 k1
        by (intro finish [of "case r2 of Inl error \<Rightarrow> Inl error | Inr (directives, _) \<Rightarrow> Inr directives" m2])
          (auto simp: algebra_simps)
    qed
  qed
qed

lemma parse_directives_text:
  assumes "directive_text d t" and ds: "items_text directive_text separator ds s" and sep: "list_separator separator"
    and "blank ws" and "blank ws'" and "plenty m" and "length ds < 2 ^ 32 - 1"
  shows "\<exists>m'. parse_directives separator (ws @ t @ ws' @ s) m =
    Some (if distinct (map dir_key (d # ds)) then Inr (rev ds @ [d]) else Inl NSERROR_NOT_FOUND, m') \<and> plenty m'"
proof -
  have s: "http__skip_LWS s = s" "s = [] \<or> peek s = separator" "s = [] \<longrightarrow> ds = []"
    using directive.items_list [OF sep ds] list_separator(3) [OF sep] ds
    by (cases s; auto elim: items_text.cases)+
  have "http__skip_LWS (ws' @ s) = s"
    by (rule trans [OF skip_blank [OF assms(5)] s(1)])
  then have "ends_item separator (ws' @ s)"
    using s(2) by (cases s) (auto simp: ends_item_def)
  then obtain s' where g: "directive_gram (http__skip_LWS (ws @ t @ ws' @ s)) = Some (d, s')" "http__skip_LWS s' = s"
    using directive_gram_text [OF assms(1) sep, of "ws' @ s"] assms(4,5) s(1) by auto
  obtain m1 where 1: "http__parse_directive (http__skip_LWS (ws @ t @ ws' @ s)) m = (Inr (d, s'), m1)" "plenty m1"
    using directive.enough [of "http__skip_LWS (ws @ t @ ws' @ s)" m] g(1) assms(6) by (metis follows_simps(2) surj_pair)
  obtain m2 where 2: "(if peek s = separator
        then map_option (\<lambda>(r, m2). (case r of Inl error \<Rightarrow> Inl error | Inr (directives, _) \<Rightarrow> Inr directives, m2))
          (http___item_list_parse s http__parse_directive http_destroy_directive [d] m1)
        else Some (Inr [d], m1)) = Some (Inr (rev ds @ [d]), m2)" "plenty m2"
  proof (cases "s = []")
    case True
    then show ?thesis
      using that [of m1] 1(2) s(3) list_separator(1) [OF sep] by auto
  next
    case False
    then show ?thesis
      using that directive.list_parse_text [OF ds sep False 1(2), of "[d]"] s(2) by auto
  qed
  obtain ok m3 where 3: "check_duplicates (rev ds @ [d]) m2 = (ok, m3)"
    by (cases "check_duplicates (rev ds @ [d]) m2")
  have "ok = distinct (map dir_key (d # ds))" "plenty m3"
    using check_duplicates_books [OF 3] 2(2) assms(7) by (auto simp: rev_map [symmetric])
  then show ?thesis
    unfolding parse_directives_def 1(1) Let_def prod.case sum.case g(2) 2(1) option.case 3 by simp
qed

text \<open>The directives by name; a value is optional.\<close>

definition directive_value :: "string \<Rightarrow> http_directive list \<Rightarrow> string option option" where
  "directive_value name ds = map_option dir_value (find (\<lambda>d. same_name name (dir_name d)) ds)"

lemma find_unique:
  "distinct (map f xs) \<Longrightarrow> x \<in> set xs \<Longrightarrow> k = f x \<Longrightarrow> find (\<lambda>d. k = f d) xs = Some x"
  by (induction xs) (auto, metis image_eqI)

lemma separators: "list_separator (CHR '','')" "list_separator (CHR '';'')"
  by (simp_all add: list_separator_def)

lemma find_rev_unique:
  assumes "distinct (map f xs)"
  shows "find (\<lambda>d. k = f d) (rev xs) = find (\<lambda>d. k = f d) xs"
proof (cases "k \<in> f ` set xs")
  case True
  then show ?thesis
    using find_unique [of f xs _ k] find_unique [of f "rev xs" _ k] assms by (auto simp: rev_map [symmetric])
next
  case False
  then have "find (\<lambda>d. k = f d) xs = None" "find (\<lambda>d. k = f d) (rev xs) = None"
    by (auto simp: find_None_iff)
  then show ?thesis by simp
qed

lemma directive_value_rev: "distinct (map dir_key ds) \<Longrightarrow> directive_value name (rev ds) = directive_value name ds"
  by (simp add: directive_value_def same_name_key find_rev_unique)

lemma find_item_value:
  assumes "http_directive_list_find_item ds name m = (r, m')"
  shows "(case r of Inl e \<Rightarrow> e = NSERROR_NOT_FOUND \<and> held m' = held m
      | Inr v \<Rightarrow> held m' = held m + (case v of None \<Rightarrow> 0 | Some _ \<Rightarrow> a_ref))"
    and "plenty m \<Longrightarrow> plenty m' \<and> r = (case directive_value name ds of None \<Rightarrow> Inl NSERROR_NOT_FOUND | Some v \<Rightarrow> Inr v)"
  using directive_find [OF assms] by (auto simp: directive_value_def split: sum.splits option.splits)

definition age_of :: "http_directive list \<Rightarrow> 32 word option" where
  "age_of ds = (case directive_value corestring_lwc_max_age ds of
     Some (Some v) \<Rightarrow> (case parse_max_age v of Inr a \<Rightarrow> Some a | Inl _ \<Rightarrow> None) | _ \<Rightarrow> None)"

lemma find_max_age:
  assumes "find_max_age ds m = (p, m')"
  shows "held m' = held m"
    and "plenty m \<Longrightarrow> plenty m' \<and> p = (case age_of ds of None \<Rightarrow> (0, False) | Some a \<Rightarrow> (a, True))"
proof -
  obtain r m1 where 1: "http_directive_list_find_item ds corestring_lwc_max_age m = (r, m1)"
    by (cases "http_directive_list_find_item ds corestring_lwc_max_age m")
  note f = find_item_value [OF 1]
  show "held m' = held m"
    using assms 1 f(1) by (auto simp: find_max_age_def split: sum.splits option.splits)
  show "plenty m \<Longrightarrow> plenty m' \<and> p = (case age_of ds of None \<Rightarrow> (0, False) | Some a \<Rightarrow> (a, True))"
    using assms 1 f(2) by (auto simp: find_max_age_def age_of_def split: sum.splits option.splits)
qed

lemma find_flag:
  assumes "find_flag ds name m = (b, m')"
  shows "held m' = held m" and "plenty m \<Longrightarrow> plenty m' \<and> b = (directive_value name ds \<noteq> None)"
proof -
  obtain r m1 where 1: "http_directive_list_find_item ds name m = (r, m1)"
    by (cases "http_directive_list_find_item ds name m")
  note f = find_item_value [OF 1]
  show "held m' = held m"
    using assms 1 f(1) by (auto simp: find_flag_def unref_value_def split: sum.splits option.splits)
  show "plenty m \<Longrightarrow> plenty m' \<and> b = (directive_value name ds \<noteq> None)"
    using assms 1 f(2) by (auto simp: find_flag_def unref_value_def split: sum.splits option.splits)
qed

section \<open>Properties\<close>

definition cache_control_of :: "http_directive list \<Rightarrow> http_cache_control" where
  "cache_control_of ds =
     \<lparr>cc_max_age = (case age_of ds of None \<Rightarrow> 0 | Some a \<Rightarrow> a), cc_max_age_valid = (age_of ds \<noteq> None),
      cc_no_cache = (directive_value ''no-cache'' ds \<noteq> None), cc_no_store = (directive_value ''no-store'' ds \<noteq> None)\<rparr>"

lemma parse_cache_control_books:
  "\<exists>r m'. http_parse_cache_control header_value m = Some (r, m') \<and> keeps_books (\<lambda>_. a_block) m r m' \<and> (plenty m \<longrightarrow> plenty m')"
proof -
  obtain r1 m1 where 1: "parse_directives (CHR '','') header_value m = Some (r1, m1)"
      "keeps_books (foots directive_foot) m r1 m1" "plenty m \<longrightarrow> plenty m1"
    using parse_directives_total [OF separators(1)] by blast
  show ?thesis
  proof (cases r1)
    case (Inl e)
    then show ?thesis
      using 1 by (simp add: http_parse_cache_control_def)
  next
    case (Inr ds)
    obtain age valid m2 where 2: "find_max_age ds m1 = ((age, valid), m2)"
      by (metis surj_pair)
    obtain no_cache m3 where 3: "find_flag ds corestring_lwc_no_cache m2 = (no_cache, m3)"
      by (cases "find_flag ds corestring_lwc_no_cache m2")
    obtain no_store m4 where 4: "find_flag ds corestring_lwc_no_store m3 = (no_store, m4)"
      by (cases "find_flag ds corestring_lwc_no_store m3")
    obtain cc m5 where 5: "malloc (http_directive_list_destroy ds m4) = (cc, m5)"
      by (cases "malloc (http_directive_list_destroy ds m4)")
    have "held m4 = held m + foots directive_foot ds" "plenty m \<longrightarrow> plenty m4"
      using find_max_age [OF 2] find_flag [OF 3] find_flag [OF 4] 1(2,3) Inr by auto
    then show ?thesis
      using malloc_held [OF 5] malloc_plenty [OF 5]
      by (auto simp: http_parse_cache_control_def 1(1) Inr 2 3 4 5)
  qed
qed

text \<open>
  C29. Cache-Control: the parser always returns; it fails only with \<^verbatim>\<open>NSERROR_NOT_FOUND\<close> or
  for want of memory, holding nothing; a result is one block.
\<close>

theorem http_parse_cache_control_total:
  "\<exists>r m'. http_parse_cache_control header_value m = Some (r, m') \<and> keeps_books (\<lambda>_. a_block) m r m'"
  using parse_cache_control_books by blast


text \<open>A text for the witnesses: an age, a directive with no value, a gap, white space.\<close>

definition example_first :: http_directive where
  "example_first = \<lparr>dir_name = ''Max-Age'', dir_value = Some ''600''\<rparr>"

definition example_rest :: "string \<Rightarrow> http_directive list" where
  "example_rest name = [\<lparr>dir_name = name, dir_value = None\<rparr>]"

lemma example_first_text: "directive_text example_first ''Max-Age = 600''"
proof -
  have "is_token ''Max-Age''" "is_token ''600''" "blank '' ''"
    by code_simp+
  then have "directive_text \<lparr>dir_name = ''Max-Age'', dir_value = Some ''600''\<rparr> (''Max-Age'' @ '' '' @ ''='' @ '' '' @ ''600'')"
    unfolding directive_text_def value_text_def http_directive.simps option.case by blast
  then show ?thesis
    by (simp add: example_first_def)
qed

lemma example_rest_text:
  assumes "is_token name"
  shows "items_text directive_text separator (example_rest name) (separator # [] @ separator # '' '' @ name @ [] @ [])"
proof -
  have "blank []" "blank '' ''"
    by code_simp+
  moreover have "directive_text \<lparr>dir_name = name, dir_value = None\<rparr> name"
    using assms by (simp add: directive_text_def)
  ultimately show ?thesis
    unfolding example_rest_def by (intro items_text.intros)
qed


text \<open>What a Strict-Transport-Security value says: an age is required, and sub-domains take no value.\<close>

definition transport_security_of :: "http_directive list \<Rightarrow> http_strict_transport_security option" where
  "transport_security_of ds = (case age_of ds of
     None \<Rightarrow> None
   | Some a \<Rightarrow> (case directive_value ''includesubdomains'' ds of
       Some (Some _) \<Rightarrow> None
     | isd \<Rightarrow> Some \<lparr>sts_max_age = a, sts_include_sub_domains = (isd \<noteq> None)\<rparr>))"

text \<open>The last steps of the parser, on the list of directives.\<close>

lemma transport_security_directives:
  assumes p: "parse_directives (CHR '';'') header_value m = Some (Inr ds, m1)"
  shows "\<exists>r m'. http_parse_strict_transport_security header_value m = Some (r, m') \<and>
    (case r of Inl e \<Rightarrow> held m' = held m1 - foots directive_foot ds \<and> (e = NSERROR_NOT_FOUND \<or> e = NSERROR_NOMEM \<and> \<not> plenty m1)
      | Inr _ \<Rightarrow> held m' = held m1 - foots directive_foot ds + a_block) \<and>
    (plenty m1 \<longrightarrow> r = (case transport_security_of ds of None \<Rightarrow> Inl NSERROR_NOT_FOUND | Some x \<Rightarrow> Inr x))"
proof -
  obtain r2 m2 where 2: "http_directive_list_find_item ds corestring_lwc_max_age m1 = (r2, m2)"
    by (cases "http_directive_list_find_item ds corestring_lwc_max_age m1")
  note f = find_item_value [OF 2]
  note start = http_parse_strict_transport_security_def p option.case sum.case prod.case 2
  show ?thesis
  proof (cases "\<exists>v a. r2 = Inr (Some v) \<and> parse_max_age v = Inr a")
    case False
    have "http_parse_strict_transport_security header_value m = Some (Inl NSERROR_NOT_FOUND,
        http_directive_list_destroy ds (case r2 of Inr (Some _) \<Rightarrow> lwc_string_unref m2 | _ \<Rightarrow> m2))"
      unfolding start using False by (auto split: sum.splits option.splits)
    moreover have "plenty m1 \<longrightarrow> transport_security_of ds = None"
      using False f(2) by (auto simp: transport_security_of_def age_of_def split: option.splits sum.splits)
    moreover have "held (case r2 of Inr (Some _) \<Rightarrow> lwc_string_unref m2 | _ \<Rightarrow> m2) = held m1"
      using f(1) by (auto split: sum.splits option.splits)
    ultimately show ?thesis by auto
  next
    case True
    then obtain v a where r2: "r2 = Inr (Some v)" "parse_max_age v = Inr a" by blast
    have b2: "held m2 = held m1 + a_ref"
      using f(1) r2 by simp
    obtain isd m3 where 3: "http_directive_list_find_item ds corestring_lwc_includesubdomains (lwc_string_unref m2) = (isd, m3)"
      by (cases "http_directive_list_find_item ds corestring_lwc_includesubdomains (lwc_string_unref m2)")
    note g = find_item_value [OF 3]
    have age: "plenty m1 \<longrightarrow> age_of ds = Some a"
      using f(2) r2 by (auto simp: age_of_def split: option.splits)
    have isd: "plenty m1 \<longrightarrow> plenty m3 \<and> isd = (case directive_value ''includesubdomains'' ds of None \<Rightarrow> Inl NSERROR_NOT_FOUND | Some v \<Rightarrow> Inr v)"
      using f(2) g(2) by (simp add: corestring_lwc_includesubdomains_def)
    show ?thesis
    proof (cases "\<exists>x. isd = Inr (Some x)")
      case True
      then have "http_parse_strict_transport_security header_value m =
          Some (Inl NSERROR_NOT_FOUND, http_directive_list_destroy ds (lwc_string_unref m3))"
        by (auto simp: start r2 3)
      moreover have "plenty m1 \<longrightarrow> transport_security_of ds = None"
        using True age isd by (auto simp: transport_security_of_def split: option.splits)
      ultimately show ?thesis
        using b2 g(1) True by auto
    next
      case False
      then have ok: "isd = Inr None \<or> isd = Inl NSERROR_NOT_FOUND"
        using g(1) by (cases isd) auto
      obtain sts m4 where 4: "malloc (http_directive_list_destroy ds m3) = (sts, m4)"
        by (cases "malloc (http_directive_list_destroy ds m3)")
      have "http_parse_strict_transport_security header_value m = Some (if \<not> sts then (Inl NSERROR_NOMEM, m4)
          else (Inr \<lparr>sts_max_age = a, sts_include_sub_domains = (isd = Inr None)\<rparr>, m4))"
        using ok by (auto simp: start r2 3 4)
      moreover have "plenty m1 \<longrightarrow> transport_security_of ds = Some \<lparr>sts_max_age = a, sts_include_sub_domains = (isd = Inr None)\<rparr>"
        using ok age isd by (auto simp: transport_security_of_def split: option.splits)
      moreover have "held m3 = held m1"
        using ok g(1) b2 by auto
      moreover have "plenty m1 \<longrightarrow> sts"
        using isd malloc_plenty [OF 4] by simp
      ultimately show ?thesis
        using malloc_held [OF 4] by auto
    qed
  qed
qed



end
