(* ===== verification/Base64.thy ===== *)
theory Base64
  imports Prelude
begin

unbundle bit_operations_syntax

text \<open>
  \<^verbatim>\<open>contrib/libnsutils/src/base64.c\<close>: encoding and decoding in the two alphabets of RFC 4648.
  The decoder is given the buffer that the text lies in and where, since it reads the last
  two bytes before it looks at the length; an access outside the buffers is \<open>None\<close>.
\<close>

section \<open>Definitions\<close>

datatype nsuerror =
    NSUERROR_OK | NSUERROR_UNKNOWN | NSUERROR_NOMEM | NSUERROR_NO_FETCH_HANDLER
  | NSUERROR_NOT_FOUND | NSUERROR_NOT_DIRECTORY | NSUERROR_SAVE_FAILED | NSUERROR_CLONE_FAILED
  | NSUERROR_INIT_FAILED | NSUERROR_MNG_ERROR | NSUERROR_BAD_ENCODING | NSUERROR_NEED_DATA
  | NSUERROR_ENCODING_CHANGE | NSUERROR_BAD_PARAMETER | NSUERROR_INVALID | NSUERROR_BOX_CONVERT
  | NSUERROR_STOPPED | NSUERROR_DOM | NSUERROR_CSS | NSUERROR_CSS_BASE
  | NSUERROR_BAD_URL | NSUERROR_BAD_CONTENT | NSUERROR_FRAME_DEPTH | NSUERROR_PERMISSION
  | NSUERROR_NOSPACE
  | NSUERROR_BAD_SIZE
  | NSUERROR_NOT_IMPLEMENTED

text \<open>The 62nd and 63rd digits are all that differs between the alphabets.\<close>

definition alphabet :: "char \<Rightarrow> char \<Rightarrow> 8 word list" where
  "alphabet c62 c63 = map of_char (''ABCDEFGHIJKLMNOPQRSTUVWXYZ'' @ ''abcdefghijklmnopqrstuvwxyz'' @ ''0123456789'' @ [c62, c63])"

definition b64_encoding_table :: "8 word list" where
  "b64_encoding_table = alphabet (CHR ''+'') (CHR ''/'')"

definition b64url_encoding_table :: "8 word list" where
  "b64url_encoding_table = alphabet (CHR ''-'') (CHR ''_'')"

definition b64_decoding_table :: "8 word list" where
  "b64_decoding_table =
     replicate 43 0xff @ [62] @ replicate 3 0xff @ [63] @ map word_of_nat [52..<62] @ replicate 3 0xff @ [64] @
     replicate 3 0xff @ map word_of_nat [0..<26] @ replicate 6 0xff @ map word_of_nat [26..<52] @ replicate 133 0xff"

definition b64url_decoding_table :: "8 word list" where
  "b64url_decoding_table =
     replicate 45 0xff @ [62] @ replicate 2 0xff @ map word_of_nat [52..<62] @ replicate 3 0xff @ [64] @
     replicate 3 0xff @ map word_of_nat [0..<26] @ replicate 4 0xff @ [63] @ [0xff] @ map word_of_nat [26..<52] @
     replicate 133 0xff"

definition mod_table :: "nat list" where
  "mod_table = [0, 2, 1]"

definition quad :: "8 word list \<Rightarrow> 32 word \<Rightarrow> 32 word \<Rightarrow> 32 word \<Rightarrow> 8 word list" where
  "quad encoding_table octet_a octet_b octet_c =
     (let triple = push_bit 0x10 octet_a + push_bit 0x08 octet_b + octet_c in
      map (\<lambda>k. encoding_table ! unat (drop_bit (k * 6) triple AND 0x3F)) [3, 2, 1, 0])"

fun encode_octets :: "8 word list \<Rightarrow> 8 word list \<Rightarrow> 8 word list" where
  "encode_octets table [] = []"
| "encode_octets table [a] = quad table (ucast a) 0 0"
| "encode_octets table [a, b] = quad table (ucast a) (ucast b) 0"
| "encode_octets table (a # b # c # input) = quad table (ucast a) (ucast b) (ucast c) @ encode_octets table input"

definition pad :: "8 word" where
  "pad = of_char (CHR ''='')"

text \<open>The buffer has room for \<open>output_length\<close> bytes; what is written comes back.\<close>

definition table_encode :: "8 word list \<Rightarrow> 8 word list \<Rightarrow> nat \<Rightarrow> nsuerror + 8 word list" where
  "table_encode encoding_table input output_length =
     (let encoded_len = 4 * ((length input + 2) div 3) in
      if encoded_len > output_length then Inl NSUERROR_NOSPACE
      else Inr (foldl (\<lambda>encoded i. encoded[encoded_len - 1 - i := pad]) (encode_octets encoding_table input)
                 [0..<mod_table ! (length input mod 3)]))"

definition table_encode_alloc :: "8 word list \<Rightarrow> 8 word list \<Rightarrow> mem \<Rightarrow> (nsuerror + 8 word list) \<times> mem" where
  "table_encode_alloc encoding_table input m =
     (case malloc m of (ok, m1) \<Rightarrow>
        if \<not> ok then (Inl NSUERROR_NOMEM, m1)
        else (case table_encode encoding_table input (4 * ((length input + 2) div 3)) of
            Inl res \<Rightarrow> (Inl res, free_block m1)
          | Inr encoded \<Rightarrow> (Inr encoded, m1)))"

definition nsu_base64_encode :: "8 word list \<Rightarrow> nat \<Rightarrow> nsuerror + 8 word list" where
  "nsu_base64_encode input output_length = table_encode b64_encoding_table input output_length"

definition nsu_base64_encode_url :: "8 word list \<Rightarrow> nat \<Rightarrow> nsuerror + 8 word list" where
  "nsu_base64_encode_url input output_length = table_encode b64url_encoding_table input output_length"

definition nsu_base64_encode_alloc :: "8 word list \<Rightarrow> mem \<Rightarrow> (nsuerror + 8 word list) \<times> mem" where
  "nsu_base64_encode_alloc input m = table_encode_alloc b64_encoding_table input m"

definition nsu_base64_encode_alloc_url :: "8 word list \<Rightarrow> mem \<Rightarrow> (nsuerror + 8 word list) \<times> mem" where
  "nsu_base64_encode_alloc_url input m = table_encode_alloc b64url_encoding_table input m"

definition three_octets :: "8 word list \<Rightarrow> 8 word list" where
  "three_octets sextet =
     [push_bit 2 (sextet ! 0) OR drop_bit 4 (sextet ! 1), push_bit 4 (sextet ! 1) OR drop_bit 2 (sextet ! 2),
      push_bit 6 (sextet ! 2) OR sextet ! 3]"

text \<open>The loop: the sextets collected and the octets written; a write past the end is \<open>None\<close>.\<close>

definition no_room :: "nat \<Rightarrow> nat \<Rightarrow> bool" where
  "no_room opidx decoded_len \<longleftrightarrow> opidx \<ge> unat (word_of_nat decoded_len - 3 :: 64 word)"

fun decode_loop ::
  "8 word list \<Rightarrow> nat \<Rightarrow> 8 word list \<Rightarrow> 8 word list \<Rightarrow> 8 word list \<Rightarrow> (8 word list \<times> 8 word list) option" where
  "decode_loop decoding_table decoded_len [] sextet decoded = Some (sextet, decoded)"
| "decode_loop decoding_table decoded_len (c # input) sextet decoded =
     (let s = decoding_table ! unat c in
      if s \<ge> 64 then
        (if s = 64 then Some (sextet, decoded) else decode_loop decoding_table decoded_len input sextet decoded)
      else (let sextet' = sextet @ [s] in
        if length sextet' = 4 then
          (if no_room (length decoded) decoded_len then Some (sextet', decoded)
           else if length decoded + 3 > decoded_len then None
           else decode_loop decoding_table decoded_len input [] (decoded @ three_octets sextet'))
        else decode_loop decoding_table decoded_len input sextet' decoded))"

definition remaining_octets :: "8 word list \<Rightarrow> 8 word list" where
  "remaining_octets sextet =
     (if length sextet = 1 then [push_bit 2 (sextet ! 0)]
      else if length sextet = 2 then [push_bit 2 (sextet ! 0) OR drop_bit 4 (sextet ! 1), push_bit 4 (sextet ! 1)]
      else if length sextet = 3 then
        [push_bit 2 (sextet ! 0) OR drop_bit 4 (sextet ! 1), push_bit 4 (sextet ! 1) OR drop_bit 2 (sextet ! 2),
         push_bit 6 (sextet ! 2)]
      else if length sextet = 4 then three_octets sextet
      else [])"

definition base64_decode_alloc ::
  "8 word list \<Rightarrow> 8 word list \<Rightarrow> nat \<Rightarrow> nat \<Rightarrow> mem \<Rightarrow> ((nsuerror + 8 word list) \<times> mem) option" where
  "base64_decode_alloc decoding_table buffer start input_length m =
     (let stop = start + input_length; input = take input_length (drop start buffer) in
      if stop < 2 \<or> stop > length buffer then None
      else (let decoded_len = unat (word_of_nat ((input_length + 3) div 4 * 3) - (if buffer ! (stop - 1) = pad then 1 else 0)
                 - (if buffer ! (stop - 2) = pad then 1 else 0) :: 64 word) in
        case malloc m of (ok, m1) \<Rightarrow>
          if \<not> ok then Some (Inl NSUERROR_NOMEM, m1)
          else (case decode_loop decoding_table decoded_len input [] [] of
              None \<Rightarrow> None
            | Some (sextet, decoded) \<Rightarrow>
                Some (Inr (decoded @ take (decoded_len - length decoded) (remaining_octets sextet)), m1))))"

definition nsu_base64_decode_alloc :: "8 word list \<Rightarrow> nat \<Rightarrow> nat \<Rightarrow> mem \<Rightarrow> ((nsuerror + 8 word list) \<times> mem) option" where
  "nsu_base64_decode_alloc buffer start input_length m = base64_decode_alloc b64_decoding_table buffer start input_length m"

definition nsu_base64_decode_alloc_url :: "8 word list \<Rightarrow> nat \<Rightarrow> nat \<Rightarrow> mem \<Rightarrow> ((nsuerror + 8 word list) \<times> mem) option" where
  "nsu_base64_decode_alloc_url buffer start input_length m =
     base64_decode_alloc b64url_decoding_table buffer start input_length m"

section \<open>Encoding and decoding\<close>

definition sextet_of :: "8 word \<Rightarrow> 8 word \<Rightarrow> 8 word \<Rightarrow> nat \<Rightarrow> 32 word" where
  "sextet_of a b c k = drop_bit (k * 6) (push_bit 0x10 (ucast a) + push_bit 0x08 (ucast b) + ucast c) AND 0x3F"

lemma bit_octet: "bit w n \<Longrightarrow> n < 8" for w :: "8 word"
  using bit_imp_le_length [of w n] by simp

lemma octet_eqI:
  fixes v w :: "8 word"
  assumes "\<And>n. n \<in> {0, 1, 2, 3, 4, 5, 6, 7} \<Longrightarrow> bit v n = bit w n"
  shows "v = w"
proof (rule bit_eqI)
  fix n :: nat
  show "bit v n = bit w n"
  proof (cases "n < 8")
    case True
    then have "n \<in> {0, 1, 2, 3, 4, 5, 6, 7}" by auto
    then show ?thesis by (rule assms)
  next
    case False
    then show ?thesis using bit_octet [of v n] bit_octet [of w n] by blast
  qed
qed

lemma triple_or:
  "push_bit 0x10 (ucast a) + push_bit 0x08 (ucast b) + ucast c =
     push_bit 16 (ucast a) OR push_bit 8 (ucast b) OR (ucast c :: 32 word)" for a b c :: "8 word"
proof -
  have 1: "push_bit 16 (ucast a) + push_bit 8 (ucast b) = push_bit 16 (ucast a) OR (push_bit 8 (ucast b) :: 32 word)"
    by (rule disjunctive_add_eq_or) (rule bit_eqI, auto simp: bit_simps dest: bit_octet)
  have 2: "(push_bit 16 (ucast a) OR push_bit 8 (ucast b)) + ucast c = (push_bit 16 (ucast a) OR push_bit 8 (ucast b)) OR (ucast c :: 32 word)"
    by (rule disjunctive_add_eq_or) (rule bit_eqI, auto simp: bit_simps dest: bit_octet)
  show ?thesis
    using 1 2 by (simp add: or.assoc)
qed

lemma mask_63: "(0x3F :: 32 word) = mask 6"
  by (simp add: mask_eq_exp_minus_1)

lemma sextet_less: "unat (sextet_of a b c k) < 64"
proof -
  have "sextet_of a b c k = take_bit 6 (drop_bit (k * 6) (push_bit 0x10 (ucast a) + push_bit 0x08 (ucast b) + ucast c))"
    by (simp add: sextet_of_def mask_63 take_bit_eq_mask)
  then have "unat (sextet_of a b c k) = take_bit 6 (unat (drop_bit (k * 6) (push_bit 0x10 (ucast a) + push_bit 0x08 (ucast b) + ucast c) :: 32 word))"
    by (simp only: unsigned_take_bit_eq)
  then show ?thesis
    by (simp add: take_bit_nat_def)
qed

lemma sextet_bits:
  "bit (ucast (sextet_of a b c k) :: 8 word) n \<longleftrightarrow> n < 6 \<and>
     (if k * 6 + n < 8 then bit c (k * 6 + n) else if k * 6 + n < 16 then bit b (k * 6 + n - 8)
      else k * 6 + n < 24 \<and> bit a (k * 6 + n - 16))"
  using bit_octet [of a "k * 6 + n - 16"] bit_octet [of b "k * 6 + n - 8"] bit_octet [of c "k * 6 + n"]
  by (simp add: sextet_of_def triple_or mask_63 bit_simps) linarith

lemma three_octets_sextets:
  "push_bit 2 (ucast (sextet_of a b c 3)) OR drop_bit 4 (ucast (sextet_of a b c 2)) = a"
  "push_bit 4 (ucast (sextet_of a b c 2)) OR drop_bit 2 (ucast (sextet_of a b c 1)) = b"
  "push_bit 6 (ucast (sextet_of a b c 1)) OR ucast (sextet_of a b c 0) = c"
  by (rule octet_eqI; auto simp: bit_or_iff bit_push_bit_iff bit_drop_bit_eq sextet_bits; simp add: numeral_2_eq_2 numeral_3_eq_3)+

text \<open>What the code relies on of its tables, and the proof for both alphabets.\<close>

locale alphabet_tables =
  fixes enc dec :: "8 word list"
  assumes decodes: "i < 64 \<Longrightarrow> dec ! unat (enc ! i) = word_of_nat i"
    and decodes_pad: "dec ! unat pad = 64"
begin

definition digits :: "8 word \<Rightarrow> 8 word \<Rightarrow> 8 word \<Rightarrow> nat list \<Rightarrow> 8 word list" where
  "digits a b c ks = map (\<lambda>k. enc ! unat (sextet_of a b c k)) ks"

lemma quad_digits: "quad enc (ucast a) (ucast b) (ucast c) = digits a b c [3, 2, 1, 0]"
  by (simp add: quad_def digits_def sextet_of_def Let_def)

lemma digit_less: "(ucast (sextet_of a b c k) :: 8 word) < 64"
proof -
  have "unat (ucast (sextet_of a b c k) :: 8 word) = unat (sextet_of a b c k)"
    using sextet_less [of a b c k] by (simp add: unsigned_ucast_eq take_bit_nat_eq_self)
  then show ?thesis
    using sextet_less [of a b c k] by (simp add: word_less_nat_alt)
qed

lemma decode_digit: "dec ! unat (enc ! unat (sextet_of a b c k)) = ucast (sextet_of a b c k)"
  using decodes [OF sextet_less] by simp

lemma loop_digit:
  "decode_loop dec n (enc ! unat (sextet_of a b c k) # input) sextets out =
     (let sextets' = sextets @ [ucast (sextet_of a b c k)] in
      if length sextets' = 4 then
        (if no_room (length out) n then Some (sextets', out)
         else if length out + 3 > n then None
         else decode_loop dec n input [] (out @ three_octets sextets'))
      else decode_loop dec n input sextets' out)"
  by (simp add: decode_digit Let_def not_le [THEN iffD2, OF digit_less])

lemma loop_pad: "decode_loop dec n (pad # input) sextets out = Some (sextets, out)"
  by (simp add: decodes_pad)

text \<open>The encoding with its padding in place.\<close>

fun padded :: "8 word list \<Rightarrow> 8 word list" where
  "padded [] = []"
| "padded [a] = digits a 0 0 [3, 2] @ [pad, pad]"
| "padded [a, b] = digits a b 0 [3, 2, 1] @ [pad]"
| "padded (a # b # c # input) = digits a b c [3, 2, 1, 0] @ padded input"

lemma third: "(5 + n) div 3 = Suc (Suc (Suc n) div 3)" for n :: nat
  by presburger

lemma encode_length: "length (encode_octets enc input) = 4 * ((length input + 2) div 3)"
  by (induction enc input rule: encode_octets.induct) (simp_all add: quad_def Let_def third)

lemma padded_length: "length (padded input) = 4 * ((length input + 2) div 3)"
  by (induction input rule: padded.induct) (simp_all add: digits_def third)

lemma foldl_update_append:
  "\<forall>i \<in> set is. i < length ys \<Longrightarrow>
     foldl (\<lambda>e i. e[length xs + length ys - 1 - i := p]) (xs @ ys) is =
     xs @ foldl (\<lambda>e i. e[length ys - 1 - i := p]) ys is"
proof (induction "is" arbitrary: ys)
  case (Cons i "is")
  have "length xs + length ys - 1 - i = length xs + (length ys - 1 - i)"
    using Cons.prems by simp
  then have "(xs @ ys)[length xs + length ys - 1 - i := p] = xs @ ys[length ys - 1 - i := p]"
    by (simp add: list_update_append)
  then show ?case
    using Cons.prems Cons.IH [of "ys[length ys - 1 - i := p]"] by simp
qed simp

lemma encode_padded: "table_encode enc input n =
    (if 4 * ((length input + 2) div 3) > n then Inl NSUERROR_NOSPACE else Inr (padded input))"
proof -
  have "foldl (\<lambda>e i. e[length (encode_octets enc input) - 1 - i := pad]) (encode_octets enc input)
      [0..<mod_table ! (length input mod 3)] = padded input"
  proof (induction input rule: padded.induct)
    case (4 a b c input)
    have "length input mod 3 < 3" by simp
    then have "length input mod 3 \<in> {0, 1, 2}" by auto
    then have "\<forall>i \<in> set [0..<mod_table ! (length input mod 3)]. i < length (encode_octets enc input)"
      by (cases "input = []") (auto simp: mod_table_def encode_length)
    note move = foldl_update_append [OF this, of "digits a b c [3, 2, 1, 0]" pad]
    have "encode_octets enc (a # b # c # input) = digits a b c [3, 2, 1, 0] @ encode_octets enc input"
      by (simp add: quad_digits)
    then show ?case
      using 4 move by (simp only: length_append padded.simps list.size) simp
  next
    case (2 a)
    show ?case
      using quad_digits [of a 0 0] by (simp add: mod_table_def digits_def upt_conv_Cons)
  next
    case (3 a b)
    show ?case
      using quad_digits [of a b 0] by (simp add: mod_table_def digits_def upt_conv_Cons)
  qed (simp add: mod_table_def)
  then show ?thesis
    by (simp add: table_encode_def Let_def encode_length)
qed

end

section \<open>Decoding\<close>

context alphabet_tables
begin

lemma no_room_iff: "3 \<le> n \<Longrightarrow> n < 2 ^ 63 \<Longrightarrow> no_room k n \<longleftrightarrow> n \<le> k + 3"
proof -
  assume n: "3 \<le> n" "n < 2 ^ 63"
  have "unat (word_of_nat n - 3 :: 64 word) = n - 3"
  proof -
    have "word_of_nat n - 3 = (word_of_nat (n - 3) :: 64 word)"
      using n(1) by (simp add: of_nat_diff)
    then show ?thesis
      using n(2) by (simp add: unat_of_nat take_bit_nat_eq_self)
  qed
  then show ?thesis
    using n by (auto simp: no_room_def)
qed

definition valid :: "8 word \<Rightarrow> bool" where
  "valid c \<longleftrightarrow> \<not> dec ! unat c \<ge> 64"

text \<open>No write past the end of the buffer.\<close>

lemma loop_safe:
  assumes "n < 2 ^ 63"
  shows "3 \<le> n \<or> length sextets + length (filter valid input) < 4 \<Longrightarrow> length sextets < 4 \<Longrightarrow> length out \<le> n \<Longrightarrow>
    \<exists>sextets' out'. decode_loop dec n input sextets out = Some (sextets', out') \<and> length out' \<le> n"
proof (induction input arbitrary: sextets out)
  case (Cons c input)
  show ?case
  proof (cases "valid c")
    case False
    then show ?thesis
      using Cons.IH [of sextets out] Cons.prems by (auto simp: valid_def Let_def)
  next
    case valid: True
    let ?sextets = "sextets @ [dec ! unat c]"
    have step: "decode_loop dec n (c # input) sextets out =
        (if length ?sextets = 4 then
          (if no_room (length out) n then Some (?sextets, out)
           else if length out + 3 > n then None
           else decode_loop dec n input [] (out @ three_octets ?sextets))
        else decode_loop dec n input ?sextets out)"
      using valid by (simp add: valid_def Let_def)
    show ?thesis
    proof (cases "length ?sextets = 4")
      case False
      then show ?thesis
        using step Cons.IH [of ?sextets out] Cons.prems valid by simp
    next
      case True
      then have n: "3 \<le> n"
        using Cons.prems(1) valid by auto
      show ?thesis
      proof (cases "no_room (length out) n")
        case True
        then show ?thesis
          using step \<open>length ?sextets = 4\<close> Cons.prems(3) by simp
      next
        case False
        then have "length out + 3 < n"
          using no_room_iff [OF n assms] by simp
        then show ?thesis
          using step \<open>length ?sextets = 4\<close> False Cons.IH [of "[]" "out @ three_octets ?sextets"] n
          by (simp add: three_octets_def)
      qed
    qed
  qed
qed simp

lemma decode_padded:
  "x \<noteq> [] \<Longrightarrow> length out + length x = n \<Longrightarrow> n < 2 ^ 63 \<Longrightarrow>
     \<exists>sextets out'. decode_loop dec n (padded x) [] out = Some (sextets, out') \<and>
       out' @ take (n - length out') (remaining_octets sextets) = out @ x"
proof (induction x arbitrary: out rule: padded.induct)
  case (2 a)
  have n: "n - length out = 1"
    using 2 by simp
  have "decode_loop dec n (padded [a]) [] out = Some ([ucast (sextet_of a 0 0 3), ucast (sextet_of a 0 0 2)], out)"
    by (simp add: digits_def loop_digit loop_pad Let_def del: decode_loop.simps(2))
  moreover have "take 1 (remaining_octets [ucast (sextet_of a 0 0 3), ucast (sextet_of a 0 0 2)]) = [a]"
    unfolding remaining_octets_def using three_octets_sextets(1) [of a 0 0] by simp
  ultimately show ?case
    using n by (metis append_Cons append_Nil)
next
  case (3 a b)
  have n: "n - length out = 2"
    using 3 by simp
  have "decode_loop dec n (padded [a, b]) [] out =
      Some ([ucast (sextet_of a b 0 3), ucast (sextet_of a b 0 2), ucast (sextet_of a b 0 1)], out)"
    by (simp add: digits_def loop_digit loop_pad Let_def del: decode_loop.simps(2))
  moreover have "take 2 (remaining_octets [ucast (sextet_of a b 0 3), ucast (sextet_of a b 0 2), ucast (sextet_of a b 0 1)]) = [a, b]"
    unfolding remaining_octets_def using three_octets_sextets(1,2) [of a b 0] by simp
  ultimately show ?case
    using n by (metis append_Cons append_Nil)
next
  case (4 a b c x)
  let ?sextets = "[ucast (sextet_of a b c 3), ucast (sextet_of a b c 2), ucast (sextet_of a b c 1), ucast (sextet_of a b c 0)]"
  have three: "three_octets ?sextets = [a, b, c]"
    using three_octets_sextets [of a b c] by (simp add: three_octets_def)
  have n: "3 \<le> n"
    using 4(3) by simp
  note room = no_room_iff [OF n 4(4), of "length out"]
  have step: "decode_loop dec n (padded (a # b # c # x)) [] out =
      (if no_room (length out) n then Some (?sextets, out)
       else if length out + 3 > n then None
       else decode_loop dec n (padded x) [] (out @ three_octets ?sextets))"
    by (simp add: digits_def loop_digit Let_def del: decode_loop.simps(2))
  show ?case
  proof (cases "x = []")
    case True
    then have "no_room (length out) n" "n - length out = 3"
      using 4(3) room by auto
    then show ?thesis
      using step True three by (simp add: remaining_octets_def)
  next
    case False
    then have "0 < length x" by simp
    then have "\<not> no_room (length out) n" "\<not> length out + 3 > n"
      using 4(3) room by auto
    moreover have "length (out @ [a, b, c]) + length x = n"
      using 4(3) by simp
    ultimately show ?thesis
      using step three 4(1) [OF False _ 4(4), of "out @ [a, b, c]"] by simp
  qed
qed simp

lemma digit_not_pad: "enc ! unat (sextet_of a b c k) \<noteq> pad"
proof
  assume "enc ! unat (sextet_of a b c k) = pad"
  then have "ucast (sextet_of a b c k) = (64 :: 8 word)"
    using decode_digit [of a b c k] decodes_pad by simp
  then show False
    using digit_less [of a b c k] by simp
qed

lemma padded_tail:
  "x \<noteq> [] \<Longrightarrow> \<exists>front p q. padded x = front @ [p, q] \<and> (q = pad \<longleftrightarrow> length x mod 3 \<noteq> 0) \<and> (p = pad \<longleftrightarrow> length x mod 3 = 1)"
proof (induction x rule: padded.induct)
  case (2 a)
  then show ?case
    by (intro exI [of _ "digits a 0 0 [3, 2]"] exI [of _ pad]) simp
next
  case (3 a b)
  then show ?case
    using digit_not_pad
    by (intro exI [of _ "digits a b 0 [3, 2]"] exI [of _ "enc ! unat (sextet_of a b 0 1)"] exI [of _ pad]) (simp add: digits_def)
next
  case (4 a b c x)
  show ?case
  proof (cases "x = []")
    case True
    then show ?thesis
      using digit_not_pad
      by (intro exI [of _ "digits a b c [3, 2]"] exI [of _ "enc ! unat (sextet_of a b c 1)"] exI [of _ "enc ! unat (sextet_of a b c 0)"])
        (simp add: digits_def)
  next
    case False
    then obtain front p q where "padded x = front @ [p, q]" "q = pad \<longleftrightarrow> length x mod 3 \<noteq> 0" "p = pad \<longleftrightarrow> length x mod 3 = 1"
      using 4 by blast
    then show ?thesis
      by (intro exI [of _ "digits a b c [3, 2, 1, 0] @ front"] exI [of _ p] exI [of _ q]) simp
  qed
qed simp

end

context alphabet_tables
begin

lemma decode_safe:
  assumes "2 \<le> start + len" and "start + len \<le> length buffer" and "length buffer < 2 ^ 62"
  shows "\<exists>r m'. base64_decode_alloc dec buffer start len m = Some (r, m') \<and>
    (case r of Inl e \<Rightarrow> e = NSUERROR_NOMEM \<and> held m' = held m \<and> \<not> plenty m
     | Inr x \<Rightarrow> held m' = held m + a_block \<and> length x \<le> (len + 3) div 4 * 3)"
proof (cases "len = 0")
  case True
  obtain ok m1 where 1: "malloc m = (ok, m1)"
    by (cases "malloc m")
  show ?thesis
    using assms True 1 malloc_held [OF 1] malloc_plenty [OF 1]
    by (auto simp: base64_decode_alloc_def Let_def remaining_octets_def)
next
  case False
  let ?input = "take len (drop start buffer)" and ?q = "(len + 3) div 4 * 3"
  let ?b1 = "buffer ! (start + len - 1) = pad" and ?b2 = "buffer ! (start + len - 2) = pad"
  let ?n = "?q - (if ?b1 then 1 else 0) - (if ?b2 then 1 else 0)"
  have q: "3 \<le> ?q" "?q < 2 ^ 63"
    using False assms(2,3) by (auto simp: less_mult_imp_div_less)
  have "word_of_nat ?q - (if ?b1 then 1 else 0) - (if ?b2 then 1 else 0) = (word_of_nat ?n :: 64 word)"
    using q(1) by (simp add: of_nat_diff)
  then have n: "unat (word_of_nat ?q - (if ?b1 then 1 else 0) - (if ?b2 then 1 else 0) :: 64 word) = ?n"
    using q(2) by (simp add: unat_of_nat take_bit_nat_eq_self)
  have small: "3 \<le> ?n \<or> length (filter valid ?input) < 4"
  proof (rule ccontr)
    assume c: "\<not> (3 \<le> ?n \<or> length (filter valid ?input) < 4)"
    then have four: "4 \<le> length (filter valid ?input)" by simp
    also have "\<dots> \<le> length ?input" by (rule length_filter_le)
    finally have "4 \<le> len" using assms(2) by simp
    moreover have "?q < 6"
      using c by (auto split: if_splits)
    then have "len < 5" by simp
    ultimately have len: "len = 4" by simp
    have "?b1 \<or> ?b2"
      using c len by (auto split: if_splits)
    then have "pad \<in> set ?input"
    proof
      assume ?b1
      moreover have "?input ! 3 = buffer ! (start + len - 1)"
        using len assms(2) by (simp add: add.commute)
      ultimately show ?thesis
        using len assms(2) nth_mem [of 3 ?input] by simp
    next
      assume ?b2
      moreover have "?input ! 2 = buffer ! (start + len - 2)"
        using len assms(2) by (simp add: add.commute)
      ultimately show ?thesis
        using len assms(2) nth_mem [of 2 ?input] by simp
    qed
    moreover have "\<not> valid pad"
      by (simp add: valid_def decodes_pad)
    ultimately have "length (filter valid ?input) < length ?input"
      by (rule length_filter_less)
    then show False
      using four len by simp
  qed
  have "?n < 2 ^ 63"
    by (rule le_less_trans [OF _ q(2)]) simp
  from loop_safe [OF this, of "[]" ?input "[]"] obtain sextets out
    where loop: "decode_loop dec ?n ?input [] [] = Some (sextets, out)" "length out \<le> ?n"
    using small by auto
  obtain ok m1 where 1: "malloc m = (ok, m1)"
    by (cases "malloc m")
  have "base64_decode_alloc dec buffer start len m = Some (if \<not> ok then (Inl NSUERROR_NOMEM, m1)
      else (Inr (out @ take (?n - length out) (remaining_octets sextets)), m1))"
    using assms(1,2) unfolding base64_decode_alloc_def Let_def n 1 prod.case loop(1) option.case by simp
  moreover have "length (out @ take (?n - length out) (remaining_octets sextets)) \<le> ?q"
    using loop(2) by auto
  ultimately show ?thesis
    using malloc_held [OF 1] malloc_plenty [OF 1] by auto
qed

lemma round_trip:
  assumes "x \<noteq> []" and "length x < 2 ^ 60" and enc: "table_encode enc x n = Inr y" and "plenty m"
  shows "\<exists>m'. base64_decode_alloc dec (front @ y @ back) (length front) (length y) m = Some (Inr x, m') \<and> plenty m'"
proof -
  have y: "y = padded x"
    using enc by (simp add: encode_padded split: if_splits)
  obtain i p q where tail: "padded x = i @ [p, q]" "q = pad \<longleftrightarrow> length x mod 3 \<noteq> 0" "p = pad \<longleftrightarrow> length x mod 3 = 1"
    using padded_tail [OF assms(1)] by blast
  let ?L = "length (padded x)" and ?buffer = "front @ padded x @ back"
  have L: "?L = length i + 2" "?L = 4 * ((length x + 2) div 3)"
    using padded_length [of x] tail(1) by simp_all
  have last: "?buffer ! (length front + ?L - 1) = q" "?buffer ! (length front + ?L - 2) = p"
    using L(1) by (simp_all add: nth_append tail(1))
  have quads: "(?L + 3) div 4 * 3 = 3 * ((length x + 2) div 3)"
    using L(2) by simp
  have pads: "3 * ((length x + 2) div 3) = length x + ((if q = pad then 1 else 0) + (if p = pad then 1 else 0))"
  proof -
    have "length x = 3 * (length x div 3) + length x mod 3" "length x mod 3 < 3"
      by simp_all
    then show ?thesis
      using tail(2,3) by (cases "length x mod 3 = 0"; cases "length x mod 3 = 1") (auto, presburger+)
  qed
  have "word_of_nat (3 * ((length x + 2) div 3)) - (if q = pad then 1 else 0) - (if p = pad then 1 else 0) = (word_of_nat (length x) :: 64 word)"
    unfolding pads by simp
  then have n: "unat (word_of_nat ((?L + 3) div 4 * 3) - (if ?buffer ! (length front + ?L - 1) = pad then 1 else 0)
        - (if ?buffer ! (length front + ?L - 2) = pad then 1 else 0) :: 64 word) = length x"
    using assms(2) unfolding quads last by (simp add: unat_of_nat take_bit_nat_eq_self)
  obtain sextets out where loop: "decode_loop dec (length x) (padded x) [] [] = Some (sextets, out)"
      "out @ take (length x - length out) (remaining_octets sextets) = x"
    using decode_padded [OF assms(1), of "[]" "length x"] assms(2) by auto
  obtain m' where 1: "malloc m = (True, m')" "plenty m'"
    by (rule malloc_ok [OF assms(4)])
  have "take ?L (drop (length front) ?buffer) = padded x" "\<not> (length front + ?L < 2 \<or> length front + ?L > length ?buffer)"
    using L(1) by simp_all
  then show ?thesis
    unfolding y base64_decode_alloc_def Let_def n 1(1) prod.case using loop 1(2) by simp
qed

end

lemma table_facts:
  assumes "list_all (\<lambda>i. dec ! unat (enc ! i) = word_of_nat i) [0..<64] \<and> dec ! unat pad = 64"
  shows "alphabet_tables enc dec"
  using assms by unfold_locales (simp_all add: list_all_iff)

interpretation standard: alphabet_tables b64_encoding_table b64_decoding_table
  by (rule table_facts) code_simp

interpretation url: alphabet_tables b64url_encoding_table b64url_decoding_table
  by (rule table_facts) code_simp

section \<open>Properties\<close>

text \<open>
  C8. Round trip in both alphabets: any octets that were encoded into a buffer are decoded
  from it, whatever lies before and behind them; the encoding has the length that the
  callers reserve for it.
\<close>

theorem base64_roundtrip:
  assumes "x \<noteq> []" and "length x < 2 ^ 60" and "plenty m"
  shows "(if 4 * ((length x + 2) div 3) > n then nsu_base64_encode x n = Inl NSUERROR_NOSPACE
     else \<exists>y m'. nsu_base64_encode x n = Inr y \<and> length y = 4 * ((length x + 2) div 3) \<and>
       nsu_base64_decode_alloc (front @ y @ back) (length front) (length y) m = Some (Inr x, m')) \<and>
   (\<exists>y m'. nsu_base64_encode_alloc_url x m = (Inr y, m') \<and>
     (\<exists>m''. nsu_base64_decode_alloc_url (front @ y @ back) (length front) (length y) m' = Some (Inr x, m'')))"
proof (intro conjI)
  show "if 4 * ((length x + 2) div 3) > n then nsu_base64_encode x n = Inl NSUERROR_NOSPACE
     else \<exists>y m'. nsu_base64_encode x n = Inr y \<and> length y = 4 * ((length x + 2) div 3) \<and>
       nsu_base64_decode_alloc (front @ y @ back) (length front) (length y) m = Some (Inr x, m')"
    using standard.round_trip [OF assms(1,2) _ assms(3), of n "standard.padded x" "front" "back"] standard.padded_length [of x]
    by (auto simp: nsu_base64_encode_def nsu_base64_decode_alloc_def standard.encode_padded)
  obtain m1 where 1: "malloc m = (True, m1)" "plenty m1"
    by (rule malloc_ok [OF assms(3)])
  show "\<exists>y m'. nsu_base64_encode_alloc_url x m = (Inr y, m') \<and>
     (\<exists>m''. nsu_base64_decode_alloc_url (front @ y @ back) (length front) (length y) m' = Some (Inr x, m''))"
    using url.round_trip [OF assms(1,2) _ 1(2), of "4 * ((length x + 2) div 3)" "url.padded x" "front" "back"] 1(1)
    by (auto simp: nsu_base64_encode_alloc_url_def table_encode_alloc_def nsu_base64_decode_alloc_url_def url.encode_padded)
qed

theorem base64_roundtrip_witness:
  "\<exists>y m'. nsu_base64_encode [72, 105, 33, 255] 100 = Inr y \<and> length y = 8 \<and>
     nsu_base64_decode_alloc (0 # y @ [0]) 1 8 (fresh_mem []) = Some (Inr [72, 105, 33, 255], m')"
proof -
  have "plenty (fresh_mem [])"
    by (simp add: plenty_def fresh_mem_def)
  then show ?thesis
    using base64_roundtrip [of "[72, 105, 33, 255]" "fresh_mem []" 100 "[0]" "[0]"] by auto
qed

text \<open>
  C30. Decoding never writes past its buffer, for any bytes, as long as two bytes can be read
  before its end; it fails only for want of memory.
\<close>

theorem base64_decode_safe:
  assumes "2 \<le> start + len" and "start + len \<le> length buffer" and "length buffer < 2 ^ 62"
  shows "\<exists>r m'. nsu_base64_decode_alloc buffer start len m = Some (r, m') \<and>
    (case r of Inl e \<Rightarrow> e = NSUERROR_NOMEM \<and> held m' = held m \<and> \<not> plenty m
     | Inr x \<Rightarrow> held m' = held m + a_block \<and> length x \<le> (len + 3) div 4 * 3)"
  unfolding nsu_base64_decode_alloc_def by (rule standard.decode_safe [OF assms])

theorem base64_decode_safe_witness:
  "\<exists>r m'. nsu_base64_decode_alloc [61, 61, 65, 61] 1 3 (fresh_mem [True]) = Some (r, m') \<and>
    (case r of Inl e \<Rightarrow> e = NSUERROR_NOMEM \<and> held m' = held (fresh_mem [True]) \<and> \<not> plenty (fresh_mem [True])
     | Inr x \<Rightarrow> held m' = held (fresh_mem [True]) + a_block \<and> length x \<le> (3 + 3) div 4 * 3)"
  by (rule base64_decode_safe) simp_all

text \<open>A text of one byte at the start of a buffer makes the decoder read before it.\<close>

lemma base64_decode_short: "nsu_base64_decode_alloc [65] 0 1 m = None"
  by (simp add: nsu_base64_decode_alloc_def base64_decode_alloc_def)

end
