(* ===== verification/Ssl_Certs.thy ===== *)
theory Ssl_Certs
  imports Base64 C_Text Nsurl_Parse
begin

text \<open>
  \<^verbatim>\<open>src/utils/ssl_certs.c\<close>: chains of X509 certificates, their copies and their passage through the
  query of a URL.

  A chain is one block, with an array of \<open>MAX_CERT_DEPTH\<close> certificates; the data of a certificate are
  a block of their own, or missing (NULL, with length 0). The error of a certificate is a C enumeration
  that is assigned from untrusted numbers, so it is kept as the 32 bits it is stored in.
\<close>

section \<open>Data\<close>

definition MAX_CERT_DEPTH :: nat where
  "MAX_CERT_DEPTH = 10"

definition SSL_CERT_ERR_OK :: "32 word" where
  "SSL_CERT_ERR_OK = 0"

definition SSL_CERT_ERR_UNKNOWN :: "32 word" where
  "SSL_CERT_ERR_UNKNOWN = 1"

definition SSL_CERT_ERR_MAX_KNOWN :: "32 word" where
  "SSL_CERT_ERR_MAX_KNOWN = 9"

record cert =
  cert_err :: "32 word"
  cert_der :: "8 word list option"

record cert_chain =
  chain_depth :: nat
  chain_certs :: "cert list"

definition no_cert :: cert where
  "no_cert = \<lparr>cert_err = SSL_CERT_ERR_OK, cert_der = None\<rparr>"

definition der_length :: "cert \<Rightarrow> nat" where
  "der_length c = (case cert_der c of None \<Rightarrow> 0 | Some der \<Rightarrow> length der)"

text \<open>Characters as octets.\<close>

definition bytes_of :: "string \<Rightarrow> 8 word list" where
  "bytes_of s = map of_char s"

definition text_of :: "8 word list \<Rightarrow> string" where
  "text_of bytes = map (\<lambda>b. char_of (unat b)) bytes"

text \<open>The cast from one enumeration of errors to the other keeps the number, not the name.\<close>

fun nserror_cast :: "nsuerror \<Rightarrow> nserror" where
  "nserror_cast NSUERROR_OK = NSERROR_OK"
| "nserror_cast NSUERROR_UNKNOWN = NSERROR_UNKNOWN"
| "nserror_cast NSUERROR_NOMEM = NSERROR_NOMEM"
| "nserror_cast NSUERROR_NO_FETCH_HANDLER = NSERROR_NO_FETCH_HANDLER"
| "nserror_cast NSUERROR_NOT_FOUND = NSERROR_NOT_FOUND"
| "nserror_cast NSUERROR_NOT_DIRECTORY = NSERROR_NOT_DIRECTORY"
| "nserror_cast NSUERROR_SAVE_FAILED = NSERROR_SAVE_FAILED"
| "nserror_cast NSUERROR_CLONE_FAILED = NSERROR_CLONE_FAILED"
| "nserror_cast NSUERROR_INIT_FAILED = NSERROR_INIT_FAILED"
| "nserror_cast NSUERROR_MNG_ERROR = NSERROR_BMP_ERROR"
| "nserror_cast NSUERROR_BAD_ENCODING = NSERROR_GIF_ERROR"
| "nserror_cast NSUERROR_NEED_DATA = NSERROR_ICO_ERROR"
| "nserror_cast NSUERROR_ENCODING_CHANGE = NSERROR_PNG_ERROR"
| "nserror_cast NSUERROR_BAD_PARAMETER = NSERROR_SPRITE_ERROR"
| "nserror_cast NSUERROR_INVALID = NSERROR_SVG_ERROR"
| "nserror_cast NSUERROR_BOX_CONVERT = NSERROR_BAD_ENCODING"
| "nserror_cast NSUERROR_STOPPED = NSERROR_NEED_DATA"
| "nserror_cast NSUERROR_DOM = NSERROR_ENCODING_CHANGE"
| "nserror_cast NSUERROR_CSS = NSERROR_BAD_PARAMETER"
| "nserror_cast NSUERROR_CSS_BASE = NSERROR_INVALID"
| "nserror_cast NSUERROR_BAD_URL = NSERROR_BOX_CONVERT"
| "nserror_cast NSUERROR_BAD_CONTENT = NSERROR_STOPPED"
| "nserror_cast NSUERROR_FRAME_DEPTH = NSERROR_DOM"
| "nserror_cast NSUERROR_PERMISSION = NSERROR_CSS"
| "nserror_cast NSUERROR_NOSPACE = NSERROR_CSS_BASE"
| "nserror_cast NSUERROR_BAD_SIZE = NSERROR_BAD_URL"
| "nserror_cast NSUERROR_NOT_IMPLEMENTED = NSERROR_BAD_CONTENT"

section \<open>Operations\<close>

definition cert_chain_alloc :: "nat \<Rightarrow> mem \<Rightarrow> cert_chain result \<times> mem" where
  "cert_chain_alloc depth m =
     (case malloc m of (ok, m1) \<Rightarrow>
        (if ok then Inr \<lparr>chain_depth = depth, chain_certs = replicate MAX_CERT_DEPTH no_cert\<rparr> else Inl NSERROR_NOMEM, m1))"

definition free_der :: "cert \<Rightarrow> mem \<Rightarrow> mem" where
  "free_der c m = (case cert_der c of None \<Rightarrow> m | Some _ \<Rightarrow> free_block m)"

definition cert_chain_free :: "cert_chain option \<Rightarrow> mem \<Rightarrow> mem" where
  "cert_chain_free chain m =
     (case chain of None \<Rightarrow> m | Some ch \<Rightarrow> free_block (fold free_der (take (chain_depth ch) (chain_certs ch)) m))"

text \<open>
  Copying certificates one by one into those of the destination, which is what both copies do:
  a missing certificate leaves what is there; the flag tells whether memory sufficed.
\<close>

fun copy_certs :: "cert list \<Rightarrow> cert list \<Rightarrow> mem \<Rightarrow> bool \<times> cert list \<times> mem" where
  "copy_certs (s # src) (d # dst) m =
     (case cert_der s of
        None \<Rightarrow> (case copy_certs src dst m of (ok, dst', m1) \<Rightarrow> (ok, d\<lparr>cert_err := cert_err s\<rparr> # dst', m1))
      | Some der \<Rightarrow>
          (case malloc m of (ok, m1) \<Rightarrow>
             if \<not> ok then (False, d\<lparr>cert_err := cert_err s, cert_der := None\<rparr> # dst, m1)
             else (case copy_certs src dst m1 of (ok, dst', m2) \<Rightarrow> (ok, \<lparr>cert_err = cert_err s, cert_der = Some der\<rparr> # dst', m2))))"
| "copy_certs src dst m = (True, dst, m)"

definition cert_chain_dup_into :: "cert_chain \<Rightarrow> cert_chain \<Rightarrow> mem \<Rightarrow> nserror \<times> cert_chain \<times> mem" where
  "cert_chain_dup_into src dst m =
     (let old = take (chain_depth dst) (chain_certs dst);
          cleared = map (\<lambda>c. c\<lparr>cert_der := None\<rparr>) old @ drop (chain_depth dst) (chain_certs dst) in
      case copy_certs (take (chain_depth src) (chain_certs src)) cleared (fold free_der old m) of (ok, certs, m1) \<Rightarrow>
        (if ok then NSERROR_OK else NSERROR_NOMEM, \<lparr>chain_depth = chain_depth src, chain_certs = certs\<rparr>, m1))"

definition cert_chain_dup :: "cert_chain \<Rightarrow> mem \<Rightarrow> cert_chain result \<times> mem" where
  "cert_chain_dup src m =
     (case cert_chain_alloc (chain_depth src) m of
        (Inl res, m1) \<Rightarrow> (Inl res, m1)
      | (Inr dst, m1) \<Rightarrow>
          (case copy_certs (take (chain_depth src) (chain_certs src)) (chain_certs dst) m1 of (ok, certs, m2) \<Rightarrow>
             if ok then (Inr (dst\<lparr>chain_certs := certs\<rparr>), m2)
             else (Inl NSERROR_NOMEM, cert_chain_free (Some (dst\<lparr>chain_certs := certs\<rparr>)) m2)))"

definition sizeof_cert_chain :: nat where
  "sizeof_cert_chain = 8 + MAX_CERT_DEPTH * 24"

definition cert_chain_size :: "cert_chain option \<Rightarrow> nat" where
  "cert_chain_size chain =
     (case chain of None \<Rightarrow> 0 | Some ch \<Rightarrow> sizeof_cert_chain + (\<Sum>c \<leftarrow> take (chain_depth ch) (chain_certs ch). der_length c))"

section \<open>Chains in queries\<close>

definition MIN_CERT_LEN :: nat where
  "MIN_CERT_LEN = 64"

text \<open>The section of the query from \<open>kvstart\<close>; a certificate beyond the array is \<open>None\<close>.\<close>

definition process_query_section :: "string \<Rightarrow> nat \<Rightarrow> nat \<Rightarrow> cert_chain \<Rightarrow> mem \<Rightarrow> (cert_chain \<times> mem) option" where
  "process_query_section querystr kvstart len chain m =
     (let str = drop kvstart querystr in
      if len > 5 + MIN_CERT_LEN \<and> take 5 str = ''cert='' then
        (if chain_depth chain \<ge> length (chain_certs chain) then None
         else (case nsu_base64_decode_alloc_url (bytes_of querystr @ [0]) (kvstart + 5) (len - 5) m of
             None \<Rightarrow> None
           | Some (Inl nsures, m1) \<Rightarrow> Some (chain, m1)
           | Some (Inr der, m1) \<Rightarrow>
               Some (chain\<lparr>chain_depth := chain_depth chain + 1,
                       chain_certs := (chain_certs chain)[chain_depth chain := (chain_certs chain ! chain_depth chain)\<lparr>cert_der := Some der\<rparr>]\<rparr>,
                     m1)))
      else if len > 8 \<and> take 8 str = ''certerr='' then
        (if chain_depth chain > 0 then
           Some (chain\<lparr>chain_certs := (chain_certs chain)[chain_depth chain - 1 :=
                   (chain_certs chain ! (chain_depth chain - 1))\<lparr>cert_err := word_of_int (strtoul (drop 8 str))\<rparr>]\<rparr>, m)
         else Some (chain, m))
      else Some (chain, m))"

function process_query :: "string \<Rightarrow> nat \<Rightarrow> cert_chain \<Rightarrow> mem \<Rightarrow> (cert_chain \<times> mem) option" where
  "process_query querystr kvstart chain m =
     (if kvstart \<ge> length querystr then Some (chain, m)
      else (let kvlen = length (takeWhile (\<lambda>c. c \<noteq> CHR ''&'') (drop kvstart querystr)) in
        case process_query_section querystr kvstart kvlen chain m of
          None \<Rightarrow> None
        | Some (chain1, m1) \<Rightarrow> process_query querystr (kvstart + kvlen + 1) chain1 m1))"
  by pat_completeness auto
termination
  by (relation "measure (\<lambda>(querystr, kvstart, chain, m). length querystr - kvstart)") auto

declare process_query.simps [simp del]

definition cert_chain_from_query :: "nsurl \<Rightarrow> mem \<Rightarrow> (cert_chain result \<times> mem) option" where
  "cert_chain_from_query url m =
     (case nsurl_get url {NSURL_QUERY} m of
        (Inl res, m1) \<Rightarrow> Some (Inl res, m1)
      | (Inr (querystr, querylen), m1) \<Rightarrow>
          if querylen < MIN_CERT_LEN then Some (Inl NSERROR_NEED_DATA, free_block m1)
          else (case cert_chain_alloc 0 m1 of
              (Inl res, m2) \<Rightarrow> Some (Inl res, free_block m2)
            | (Inr chain, m2) \<Rightarrow>
                (case process_query querystr 0 chain m2 of
                   None \<Rightarrow> None
                 | Some (chain1, m3) \<Rightarrow>
                     if chain_depth chain1 > 0 then Some (Inr chain1, free_block m3)
                     else Some (Inl NSERROR_INVALID, free_block (free_block m3)))))"

definition query_room :: "cert list \<Rightarrow> nat" where
  "query_room certs =
     20 + (\<Sum>c \<leftarrow> certs. 7 + 4 * ((der_length c + 2) div 3) + (if cert_err c \<noteq> SSL_CERT_ERR_OK then 20 else 0))"

definition append_text :: "nat \<Rightarrow> string \<Rightarrow> string \<Rightarrow> string result" where
  "append_text allocsize urlstr t = (if length t \<ge> allocsize - length urlstr then Inl NSERROR_UNKNOWN else Inr (urlstr @ t))"

definition append_cert :: "nat \<Rightarrow> string \<Rightarrow> cert \<Rightarrow> string result" where
  "append_cert allocsize urlstr c =
     (case append_text allocsize urlstr ''&cert='' of
        Inl res \<Rightarrow> Inl res
      | Inr s1 \<Rightarrow>
          (case nsu_base64_encode_url (case cert_der c of None \<Rightarrow> [] | Some der \<Rightarrow> der) (allocsize - length s1) of
             Inl nsures \<Rightarrow> Inl (nserror_cast nsures)
           | Inr enc \<Rightarrow>
               (let s2 = s1 @ text_of enc in
                if cert_err c \<noteq> SSL_CERT_ERR_OK then append_text allocsize s2 (''&certerr='' @ print_int (sint (cert_err c)))
                else Inr s2)))"

fun append_certs :: "nat \<Rightarrow> string \<Rightarrow> cert list \<Rightarrow> string result" where
  "append_certs allocsize urlstr [] = Inr urlstr"
| "append_certs allocsize urlstr (c # certs) =
     (case append_cert allocsize urlstr c of Inl res \<Rightarrow> Inl res | Inr s \<Rightarrow> append_certs allocsize s certs)"

definition cert_chain_to_query ::
  "cert_chain \<Rightarrow> mem \<Rightarrow> (nsurl result \<times> mem) option" where
  "cert_chain_to_query chain m =
     (let certs = take (chain_depth chain) (chain_certs chain); allocsize = query_room certs in
      case malloc m of (ok, m1) \<Rightarrow>
        if \<not> ok then Some (Inl NSERROR_NOMEM, m1)
        else (case append_certs allocsize ''about:certificate'' certs of
            Inl res \<Rightarrow> Some (Inl res, free_block m1)
          | Inr urlstr \<Rightarrow>
              (case nsurl_create (urlstr[17 := CHR ''?'']) m1 of
                 None \<Rightarrow> None
               | Some (r, m2) \<Rightarrow> Some (r, free_block m2))))"

section \<open>Octets and characters\<close>

lemma of_char_unat: "of_char (char_of (unat b)) = (b :: 8 word)"
proof -
  have "unat b < 256"
    using unat_less_exp [of b] by simp
  then have "of_nat (of_char (char_of (unat b)) :: nat) = b"
    by simp
  then show ?thesis
    by (simp only: of_nat_of_char)
qed

lemma bytes_text [simp]: "bytes_of (text_of bytes) = bytes" "length (text_of bytes) = length bytes"
  by (simp_all add: bytes_of_def text_of_def of_char_unat comp_def)

lemma bytes_append [simp]: "bytes_of (s @ t) = bytes_of s @ bytes_of t" "length (bytes_of s) = length s"
  by (simp_all add: bytes_of_def)

lemma text_of_char: "of_char c \<notin> set bytes \<Longrightarrow> c \<notin> set (text_of bytes)"
  by (auto simp: text_of_def of_char_unat)

section \<open>The query of a chain\<close>

text \<open>What the code writes for a certificate.\<close>

definition der_text :: "cert \<Rightarrow> string" where
  "der_text c = text_of (url.padded (case cert_der c of None \<Rightarrow> [] | Some der \<Rightarrow> der))"

definition err_text :: "cert \<Rightarrow> string" where
  "err_text c = print_int (sint (cert_err c))"

definition cert_text :: "cert \<Rightarrow> string" where
  "cert_text c = ''&cert='' @ der_text c @ (if cert_err c \<noteq> SSL_CERT_ERR_OK then ''&certerr='' @ err_text c else [])"

definition query_of :: "cert list \<Rightarrow> string" where
  "query_of certs = tl (concat (map cert_text certs))"

lemma err_text_facts: "err_text c \<noteq> []" "length (err_text c) \<le> 11" "CHR ''&'' \<notin> set (err_text c)"
proof -
  have "\<bar>sint (cert_err c)\<bar> \<le> 2 ^ 31"
    using sint_greater_eq [of "cert_err c"] sint_less [of "cert_err c"] by simp
  then have n: "nat \<bar>sint (cert_err c)\<bar> < 10 ^ 10"
    by simp
  show "err_text c \<noteq> []" "length (err_text c) \<le> 11"
    using print_nat_length [OF n] by (auto simp: err_text_def print_int_def abs_if split: if_splits)
  show "CHR ''&'' \<notin> set (err_text c)"
    using print_int_chars [of "CHR ''&''"] by (auto simp: err_text_def is_digit_def)
qed

lemma alphabet_no_amp: "of_char CHR ''&'' \<notin> insert pad (set b64url_encoding_table)" "length b64url_encoding_table = 64"
  by code_simp+

lemma digits_in_alphabet: "set (url.digits a b c ks) \<subseteq> set b64url_encoding_table"
  using sextet_less [of a b c] by (auto simp: url.digits_def alphabet_no_amp(2))

lemma padded_in_alphabet: "set (url.padded der) \<subseteq> insert pad (set b64url_encoding_table)"
  using digits_in_alphabet by (induction der rule: url.padded.induct) (auto dest!: subsetD [OF digits_in_alphabet])

lemma der_text_facts: "CHR ''&'' \<notin> set (der_text c)" "length (der_text c) = 4 * ((der_length c + 2) div 3)"
proof -
  have "of_char CHR ''&'' \<notin> set (url.padded der)" for der
    using padded_in_alphabet [of der] alphabet_no_amp(1) by blast
  then show "CHR ''&'' \<notin> set (der_text c)"
    unfolding der_text_def by (rule text_of_char)
  show "length (der_text c) = 4 * ((der_length c + 2) div 3)"
    by (simp add: der_text_def der_length_def url.padded_length split: option.splits)
qed

lemma append_cert_text:
  assumes "length s + length (cert_text c) < n"
  shows "append_cert n s c = Inr (s @ cert_text c)"
proof -
  have len: "length (cert_text c) = 6 + length (der_text c) + (if cert_err c \<noteq> SSL_CERT_ERR_OK then 9 + length (err_text c) else 0)"
    by (simp add: cert_text_def)
  then have "append_text n s ''&cert='' = Inr (s @ ''&cert='')"
    using assms by (simp add: append_text_def)
  moreover have "nsu_base64_encode_url (case cert_der c of None \<Rightarrow> [] | Some der \<Rightarrow> der) (n - length (s @ ''&cert='')) =
      Inr (url.padded (case cert_der c of None \<Rightarrow> [] | Some der \<Rightarrow> der))"
    using assms len der_text_facts(2) [of c]
    by (auto simp: nsu_base64_encode_url_def url.encode_padded der_length_def split: option.splits)
  ultimately show ?thesis
    using assms len
    by (cases "cert_err c = SSL_CERT_ERR_OK")
      (simp_all add: append_cert_def der_text_def [symmetric] append_text_def cert_text_def err_text_def [symmetric])
qed

lemma append_certs_text:
  "length s + length (concat (map cert_text certs)) < n \<Longrightarrow> append_certs n s certs = Inr (s @ concat (map cert_text certs))"
  by (induction certs arbitrary: s) (simp_all add: append_cert_text)

lemma query_room_enough: "17 + length (concat (map cert_text certs)) < query_room certs"
proof -
  have "length (cert_text c) \<le> 7 + 4 * ((der_length c + 2) div 3) + (if cert_err c \<noteq> SSL_CERT_ERR_OK then 20 else 0)" for c
    using err_text_facts(2) [of c] der_text_facts(2) [of c] by (simp add: cert_text_def)
  then have "length (concat (map cert_text certs)) \<le>
      (\<Sum>c \<leftarrow> certs. 7 + 4 * ((der_length c + 2) div 3) + (if cert_err c \<noteq> SSL_CERT_ERR_OK then 20 else 0))"
    unfolding length_concat by (simp add: sum_list_mono comp_def)
  then show ?thesis
    by (simp add: query_room_def)
qed

lemma url_text_of_chain: "(''about:certificate'' @ concat (map cert_text (c # certs)))[17 := CHR ''?''] =
    ''about:certificate?'' @ query_of (c # certs)"
  by (simp add: query_of_def cert_text_def list_update_append numeral_eq_Suc)

section \<open>Reading the query back\<close>

definition chain_of :: "cert list \<Rightarrow> cert_chain" where
  "chain_of certs = \<lparr>chain_depth = length certs, chain_certs = certs @ replicate (MAX_CERT_DEPTH - length certs) no_cert\<rparr>"

definition chain_foot :: "cert_chain \<Rightarrow> footprint" where
  "chain_foot ch = a_block + (\<Sum>c \<leftarrow> take (chain_depth ch) (chain_certs ch). if cert_der c = None then 0 else a_block)"

definition rest_ok :: "string \<Rightarrow> bool" where
  "rest_ok rest \<longleftrightarrow> rest = [] \<or> hd rest = CHR ''&''"

lemma section_end: "CHR ''&'' \<notin> set sec \<Longrightarrow> rest_ok rest \<Longrightarrow> takeWhile (\<lambda>c. c \<noteq> CHR ''&'') (sec @ rest) = sec"
  by (rule takeWhile_append_stop) (auto simp: rest_ok_def)

lemma process_section:
  assumes "CHR ''&'' \<notin> set sec" and "rest_ok rest" and "sec \<noteq> []"
    and "process_query_section (pre @ sec @ rest) (length pre) (length sec) chain m = Some (chain1, m1)"
  shows "process_query (pre @ sec @ rest) (length pre) chain m = process_query (pre @ sec @ rest) (length pre + length sec + 1) chain1 m1"
  using assms(3) by (subst process_query.simps) (simp add: section_end [OF assms(1,2)] assms(4) Let_def)

text \<open>Certificates whose coding is long enough to be recognised.\<close>

definition cert_codable :: "cert \<Rightarrow> bool" where
  "cert_codable c \<longleftrightarrow> (\<exists>der. cert_der c = Some der \<and> MIN_CERT_LEN < 4 * ((length der + 2) div 3) \<and> length der < 2 ^ 60)"

lemma decode_held: "base64_decode_alloc table buffer start len m = Some (Inr x, m') \<Longrightarrow> held m' = held m + a_block"
  by (auto simp: base64_decode_alloc_def Let_def dest!: malloc_held split: if_splits prod.splits option.splits)

lemma process_cert_section:
  assumes "cert_codable c" and "length certs < MAX_CERT_DEPTH" and "plenty m"
  shows "\<exists>m'. process_query_section (pre @ (''cert='' @ der_text c) @ rest) (length pre) (length (''cert='' @ der_text c)) (chain_of certs) m =
    Some (chain_of (certs @ [c\<lparr>cert_err := SSL_CERT_ERR_OK\<rparr>]), m') \<and> plenty m' \<and> held m' = held m + a_block"
proof -
  obtain der where der: "cert_der c = Some der" "MIN_CERT_LEN < 4 * ((length der + 2) div 3)" "length der < 2 ^ 60"
    using assms(1) by (auto simp: cert_codable_def)
  have "der \<noteq> []"
    using der(2) by (auto simp: MIN_CERT_LEN_def)
  have enc: "der_text c = text_of (url.padded der)" "length (der_text c) = 4 * ((length der + 2) div 3)"
    using der_text_facts(2) [of c] by (simp_all add: der_text_def der_length_def der(1))
  have "table_encode b64url_encoding_table der (length (url.padded der)) = Inr (url.padded der)"
    by (simp add: url.encode_padded url.padded_length)
  note round = url.round_trip [OF \<open>der \<noteq> []\<close> der(3) this assms(3), of "bytes_of (pre @ ''cert='')" "bytes_of rest @ [0]"]
  obtain m' where dec: "base64_decode_alloc b64url_decoding_table (bytes_of (pre @ ''cert='') @ url.padded der @ (bytes_of rest @ [0]))
      (length (bytes_of (pre @ ''cert=''))) (length (url.padded der)) m = Some (Inr der, m')" "plenty m'"
    using round by blast
  have "bytes_of (pre @ (''cert='' @ der_text c) @ rest) @ [0] = bytes_of (pre @ ''cert='') @ url.padded der @ (bytes_of rest @ [0])"
    by (simp only: bytes_append append_assoc enc(1) bytes_text)
  moreover have "length (bytes_of (pre @ ''cert='')) = length pre + 5" "length (''cert='' @ der_text c) - 5 = length (url.padded der)"
    by (simp_all add: enc(1))
  ultimately have "nsu_base64_decode_alloc_url (bytes_of (pre @ (''cert='' @ der_text c) @ rest) @ [0]) (length pre + 5)
      (length (''cert='' @ der_text c) - 5) m = Some (Inr der, m')"
    unfolding nsu_base64_decode_alloc_url_def using dec(1) by (simp only:)
  moreover have "held m' = held m + a_block"
    by (rule decode_held [OF dec(1)])
  moreover have "(chain_certs (chain_of certs)) [length certs := no_cert\<lparr>cert_der := Some der\<rparr>] =
      chain_certs (chain_of (certs @ [c\<lparr>cert_err := SSL_CERT_ERR_OK\<rparr>]))"
    using assms(2) der(1) by (cases "MAX_CERT_DEPTH - length certs") (auto simp: chain_of_def no_cert_def list_update_append Suc_diff_Suc)
  ultimately show ?thesis
    using assms(2) dec(2) der(2) enc(2)
    by (simp add: process_query_section_def Let_def chain_of_def nth_append)
qed

lemma word_of_int_mod: "(word_of_int (i mod 2 ^ 64) :: 32 word) = word_of_int i"
  by transfer (simp add: take_bit_eq_mod mod_mod_cancel)

lemma process_err_section:
  assumes "rest_ok rest"
  shows "process_query_section (pre @ (''certerr='' @ err_text c) @ rest) (length pre) (length (''certerr='' @ err_text c)) (chain_of (certs @ [d])) m =
    Some (chain_of (certs @ [d\<lparr>cert_err := cert_err c\<rparr>]), m)"
proof -
  let ?i = "sint (cert_err c)"
  have "rest = [] \<or> \<not> is_digit (hd rest)"
    using assms by (auto simp: rest_ok_def is_digit_def)
  then have scan: "scan_int (err_text c @ rest) = Some ?i"
    unfolding err_text_def by (rule scan_print_int_rest)
  have "\<bar>?i\<bar> < 2 ^ 64"
    using sint_greater_eq [of "cert_err c"] sint_less [of "cert_err c"] by simp
  then have strtoul: "strtoul (err_text c @ rest) = ?i mod 2 ^ 64"
    by (simp add: strtoul_def scan)
  have err: "(word_of_int (strtoul (err_text c @ rest)) :: 32 word) = cert_err c"
    unfolding strtoul word_of_int_mod by simp
  have "length (err_text c) > 0"
    using err_text_facts(1) by simp
  then show ?thesis
    using err by (simp add: process_query_section_def Let_def chain_of_def nth_append list_update_append)
qed

lemma rest_ok_certs: "rest_ok (concat (map cert_text certs))"
  by (cases certs) (simp_all add: rest_ok_def cert_text_def)

definition cert_sections :: "cert \<Rightarrow> string" where
  "cert_sections c = ''cert='' @ der_text c @ (if cert_err c \<noteq> SSL_CERT_ERR_OK then ''&certerr='' @ err_text c else [])"

lemma process_cert:
  assumes "cert_codable c" and "length seen < MAX_CERT_DEPTH" and "plenty m" and T: "T = pre @ cert_sections c @ rest" and "rest_ok rest"
  shows "\<exists>m1. process_query T (length pre) (chain_of seen) m =
      process_query T (length (pre @ cert_sections c) + 1) (chain_of (seen @ [c])) m1 \<and> plenty m1 \<and> held m1 = held m + a_block"
proof -
  let ?sec = "''cert='' @ der_text c" and ?err = "''certerr='' @ err_text c" and ?c0 = "c\<lparr>cert_err := SSL_CERT_ERR_OK\<rparr>"
  have amp: "CHR ''&'' \<notin> set ?sec" "CHR ''&'' \<notin> set ?err"
    using der_text_facts(1) err_text_facts(3) by simp_all
  note step = process_cert_section [OF assms(1-3), of pre]
  show ?thesis
  proof (cases "cert_err c = SSL_CERT_ERR_OK")
    case True
    then have c: "?c0 = c" "cert_sections c = ?sec"
      by (simp_all add: cert_sections_def)
    obtain m1 where 1: "process_query_section T (length pre) (length ?sec) (chain_of seen) m = Some (chain_of (seen @ [c]), m1)"
        "plenty m1" "held m1 = held m + a_block"
      using step [of rest] unfolding T c by blast
    then show ?thesis
      using process_section [OF amp(1) assms(5) _ 1(1) [unfolded T c]] unfolding T c by auto
  next
    case False
    have T1: "T = pre @ ?sec @ (''&'' @ ?err @ rest)" and T2: "T = (pre @ ?sec @ ''&'') @ ?err @ rest"
      using T False by (simp_all add: cert_sections_def)
    obtain m1 where 1: "process_query_section T (length pre) (length ?sec) (chain_of seen) m = Some (chain_of (seen @ [?c0]), m1)"
        "plenty m1" "held m1 = held m + a_block"
      using step [of "''&'' @ ?err @ rest"] unfolding T1 by blast
    have 2: "process_query_section T (length (pre @ ?sec @ ''&'')) (length ?err) (chain_of (seen @ [?c0])) m1 = Some (chain_of (seen @ [c]), m1)"
      using process_err_section [OF assms(5), of "pre @ ?sec @ ''&''" c seen ?c0 m1] unfolding T2 by simp
    have "rest_ok (''&'' @ ?err @ rest)"
      by (simp add: rest_ok_def)
    then have "process_query T (length pre) (chain_of seen) m = process_query T (length (pre @ ?sec @ ''&'')) (chain_of (seen @ [?c0])) m1"
      using process_section [OF amp(1) _ _ 1(1) [unfolded T1]] unfolding T1 by simp
    moreover have "process_query T (length (pre @ ?sec @ ''&'')) (chain_of (seen @ [?c0])) m1 =
        process_query T (length (pre @ cert_sections c) + 1) (chain_of (seen @ [c])) m1"
      using process_section [OF amp(2) assms(5) _ 2 [unfolded T2]] False unfolding T2 by (simp add: cert_sections_def add.assoc)
    ultimately show ?thesis
      using 1(2,3) by auto
  qed
qed

lemma cert_text_sections: "cert_text c = ''&'' @ cert_sections c"
  by (simp add: cert_text_def cert_sections_def)

lemma process_query_certs:
  "\<forall>c \<in> set certs. cert_codable c \<Longrightarrow> length seen + length certs \<le> MAX_CERT_DEPTH \<Longrightarrow> plenty m \<Longrightarrow>
     T = pre @ concat (map cert_text certs) \<Longrightarrow>
     \<exists>m'. process_query T (length pre + 1) (chain_of seen) m = Some (chain_of (seen @ certs), m') \<and>
       plenty m' \<and> held m' = held m + foot_times (length certs) a_block"
proof (induction certs arbitrary: seen m pre)
  case Nil
  then show ?case
    by (subst process_query.simps) simp
next
  case (Cons c certs)
  have T: "T = (pre @ ''&'') @ cert_sections c @ concat (map cert_text certs)"
    using Cons.prems(4) by (simp add: cert_text_sections [of c])
  obtain m1 where 1: "process_query T (length (pre @ ''&'')) (chain_of seen) m =
      process_query T (length ((pre @ ''&'') @ cert_sections c) + 1) (chain_of (seen @ [c])) m1" "plenty m1" "held m1 = held m + a_block"
    using process_cert [OF _ _ Cons.prems(3) T rest_ok_certs, of seen] Cons.prems(1,2) by auto
  have "\<forall>c \<in> set certs. cert_codable c" "length (seen @ [c]) + length certs \<le> MAX_CERT_DEPTH"
      "T = ((pre @ ''&'') @ cert_sections c) @ concat (map cert_text certs)"
    using Cons.prems T by simp_all
  from Cons.IH [OF this(1,2) 1(2) this(3)] 1 show ?case
    by (auto simp: algebra_simps)
qed

lemma process_query_of:
  assumes "\<forall>c \<in> set (c # certs). cert_codable c" and "length (c # certs) \<le> MAX_CERT_DEPTH" and "plenty m"
  shows "\<exists>m'. process_query (query_of (c # certs)) 0 (chain_of []) m = Some (chain_of (c # certs), m') \<and>
    held m' = held m + foot_times (length (c # certs)) a_block"
proof -
  have T: "query_of (c # certs) = [] @ cert_sections c @ concat (map cert_text certs)"
    by (simp add: query_of_def cert_text_sections)
  obtain m1 where 1: "process_query (query_of (c # certs)) 0 (chain_of []) m =
      process_query (query_of (c # certs)) (length (cert_sections c) + 1) (chain_of [c]) m1" "plenty m1" "held m1 = held m + a_block"
    using process_cert [OF _ _ assms(3) T rest_ok_certs, of "[]"] assms(1,2) by (auto simp: MAX_CERT_DEPTH_def)
  then show ?thesis
    using process_query_certs [OF _ _ 1(2), of certs "[c]" _ "cert_sections c"] assms(1,2) T by (auto simp: algebra_simps)
qed

section \<open>Copies\<close>

definition ders_foot :: "cert list \<Rightarrow> footprint" where
  "ders_foot certs = (\<Sum>c \<leftarrow> certs. if cert_der c = None then 0 else a_block)"

lemma ders_foot_simps [simp]:
  "ders_foot [] = 0" "ders_foot (c # certs) = (if cert_der c = None then 0 else a_block) + ders_foot certs"
  "ders_foot (certs @ certs') = ders_foot certs + ders_foot certs'"
  by (simp_all add: ders_foot_def)

lemma free_ders [simp]:
  "held (fold free_der certs m) = held m - ders_foot certs" "plenty (fold free_der certs m) = plenty m"
proof (induction certs arbitrary: m)
  case (Cons c certs)
  {
    case 1
    show ?case
      using Cons by (cases "cert_der c") (simp_all add: free_der_def diff_diff_eq)
  next
    case 2
    show ?case
      using Cons by (cases "cert_der c") (simp_all add: free_der_def)
  }
qed simp_all

lemma copy_certs_correct:
  assumes "length src \<le> length dst" and "\<forall>d \<in> set (take (length src) dst). cert_der d = None" and "copy_certs src dst m = (ok, dst', m')"
  shows "length dst' = length dst \<and> drop (length src) dst' = drop (length src) dst \<and>
    held m' = held m + ders_foot (take (length src) dst') \<and> (plenty m \<longrightarrow> ok \<and> plenty m') \<and>
    (ok \<longrightarrow> take (length src) dst' = src)"
  using assms
proof (induction src dst m arbitrary: ok dst' m' rule: copy_certs.induct)
  case (1 s src d dst m)
  obtain mok m1 where m: "malloc m = (mok, m1)"
    by (cases "malloc m")
  obtain ok2 dst2 m2 where c: "copy_certs src dst (if cert_der s = None then m else m1) = (ok2, dst2, m2)"
    by (rule prod_cases3)
  have clear: "ders_foot (take (length src) dst) = 0" if "\<forall>x \<in> set (take (length src) dst). cert_der x = None"
    using that unfolding ders_foot_def by (simp add: sum_list_0 map_idI [where f = "\<lambda>_. 0"] cong: map_cong)
  show ?case
  proof (cases "cert_der s")
    case None
    then show ?thesis
      using 1(1) [OF None, of ok2 dst2 m2] 1(3-) c by (cases s; cases d) (auto simp: ders_foot_def)
  next
    case (Some der)
    then show ?thesis
      using 1(2) [OF Some m [symmetric], of ok2 dst2 m2] 1(3-) c m clear malloc_held [OF m] malloc_plenty [OF m]
      by (cases mok; cases s; cases d) (auto simp: algebra_simps)
  qed
qed (auto simp: ders_foot_def)

definition chain_ok :: "cert_chain \<Rightarrow> bool" where
  "chain_ok ch \<longleftrightarrow> length (chain_certs ch) = MAX_CERT_DEPTH \<and> chain_depth ch \<le> MAX_CERT_DEPTH"

lemma chain_foot_ders: "chain_foot ch = a_block + ders_foot (take (chain_depth ch) (chain_certs ch))"
  by (simp add: chain_foot_def ders_foot_def)

lemma no_ders: "\<forall>c \<in> set certs. cert_der c = None \<Longrightarrow> ders_foot certs = 0"
  by (induction certs) simp_all

lemma chain_dup:
  assumes "chain_ok src"
  shows "case cert_chain_dup src m of
     (Inl e, m') \<Rightarrow> e = NSERROR_NOMEM \<and> \<not> plenty m \<and> held m' = held m
   | (Inr dst, m') \<Rightarrow> dst = chain_of (take (chain_depth src) (chain_certs src)) \<and> held m' = held m + chain_foot dst \<and>
       (plenty m \<longrightarrow> plenty m')"
proof -
  let ?n = "chain_depth src" and ?src = "take (chain_depth src) (chain_certs src)" and ?dst = "replicate MAX_CERT_DEPTH no_cert"
  have n: "length ?src = ?n" "?n \<le> MAX_CERT_DEPTH"
    using assms by (simp_all add: chain_ok_def)
  obtain ok0 m0 where 0: "malloc m = (ok0, m0)"
    by (cases "malloc m")
  obtain ok certs m1 where 1: "copy_certs ?src ?dst m0 = (ok, certs, m1)"
    by (rule prod_cases3)
  have "\<forall>d \<in> set (take (length ?src) ?dst). cert_der d = None"
    by (auto simp: no_cert_def dest!: in_set_takeD)
  then have copied: "length certs = MAX_CERT_DEPTH" "drop ?n certs = drop ?n ?dst" "held m1 = held m0 + ders_foot (take ?n certs)"
      "plenty m0 \<longrightarrow> ok \<and> plenty m1" "ok \<longrightarrow> take ?n certs = ?src"
    using copy_certs_correct [OF _ _ 1] n by simp_all
  have "ok \<longrightarrow> certs = ?src @ replicate (MAX_CERT_DEPTH - ?n) no_cert"
    by (metis copied(2,5) append_take_drop_id drop_replicate)
  then show ?thesis
    using 0 1 malloc_held [OF 0] malloc_plenty [OF 0] copied n(1)
    by (cases ok0; cases ok) (auto simp: cert_chain_dup_def cert_chain_alloc_def cert_chain_free_def chain_of_def chain_foot_ders algebra_simps)
qed

lemma ders_codable: "\<forall>c \<in> set certs. cert_codable c \<Longrightarrow> ders_foot certs = foot_times (length certs) a_block"
  by (induction certs) (auto simp: cert_codable_def)

lemma to_query_text:
  assumes certs: "certs \<noteq> []" and m: "plenty m"
  shows "\<exists>m1. cert_chain_to_query (chain_of certs) m =
      map_option (map_prod id free_block) (nsurl_create (''about:certificate?'' @ query_of certs) m1)"
proof -
  obtain c cs where cons: "certs = c # cs"
    using certs by (cases certs) auto
  obtain m1 where 1: "malloc m = (True, m1)" "plenty m1"
    by (rule malloc_ok [OF m])
  have take: "take (chain_depth (chain_of certs)) (chain_certs (chain_of certs)) = certs"
    by (simp add: chain_of_def)
  have "append_certs (query_room certs) ''about:certificate'' certs = Inr (''about:certificate'' @ concat (map cert_text certs))"
    using query_room_enough [of certs] by (intro append_certs_text) simp
  then show "\<exists>m1. cert_chain_to_query (chain_of certs) m =
      map_option (map_prod id free_block) (nsurl_create (''about:certificate?'' @ query_of certs) m1)"
    unfolding cert_chain_to_query_def take Let_def 1(1) using url_text_of_chain [of c cs]
    by (intro exI [of _ m1]) (auto simp: cons map_option_case split: option.split)
qed

lemma from_query_certs:
  assumes certs: "certs \<noteq> []" "length certs \<le> MAX_CERT_DEPTH" "\<forall>c \<in> set certs. cert_codable c" and m: "plenty m"
    and url: "uc_query (url_components url) = Some (query_of certs)"
  shows "\<exists>m'. cert_chain_from_query url m = Some (Inr (chain_of certs), m') \<and> held m' = held m + chain_foot (chain_of certs)"
proof -
  obtain c cs where cons: "certs = c # cs"
    using certs(1) by (cases certs) auto
  obtain m1 where 1: "malloc m = (True, m1)" "plenty m1"
    by (rule malloc_ok [OF m])
  have got: "url_text (url_components url) {NSURL_QUERY} = query_of certs"
    using url by (simp add: url_text_def scheme_text_def authority_text_def part_text_def query_text_def fragment_text_def
        chosen_before_query_def chosen_def)
  have long: "length (query_of certs) \<ge> MIN_CERT_LEN"
    using certs(3) der_text_facts(2) [of c] by (auto simp: cons query_of_def cert_text_def cert_codable_def der_length_def)
  then have get: "nsurl_get url {NSURL_QUERY} m = (Inr (query_of certs, length (query_of certs)), m1)"
    unfolding nsurl_get_def components_to_string got 1(1) by (auto simp: MIN_CERT_LEN_def)
  obtain m2 where 2: "malloc m1 = (True, m2)" "plenty m2"
    by (rule malloc_ok [OF 1(2)])
  then have alloc: "cert_chain_alloc 0 m1 = (Inr (chain_of []), m2)"
    by (simp add: cert_chain_alloc_def chain_of_def)
  obtain m3 where 3: "process_query (query_of certs) 0 (chain_of []) m2 = Some (chain_of certs, m3)"
      "held m3 = held m2 + foot_times (length certs) a_block"
    using process_query_of [of c cs m2] certs(2,3) 2(2) by (auto simp: cons)
  have "chain_foot (chain_of certs) = a_block + foot_times (length certs) a_block"
    using certs(3) ders_codable [of certs] by (simp add: chain_foot_ders chain_of_def)
  then have "held (free_block m3) = held m + chain_foot (chain_of certs)"
    using 3(2) malloc_held [OF 1(1)] malloc_held [OF 2(1)] by (simp add: algebra_simps)
  moreover have "cert_chain_from_query url m = Some (Inr (chain_of certs), free_block m3)"
    using long certs(1) by (simp add: cert_chain_from_query_def get alloc 3(1)) (simp add: chain_of_def)
  ultimately show ?thesis
    by blast
qed

section \<open>Properties\<close>

text \<open>
  C35. Copying a chain: the copy has the same certificates, in an array that is clear behind them. A
  copy that fails for want of memory frees everything it had obtained.
\<close>

theorem cert_chain_dup_correct:
  assumes "chain_ok src"
  shows "case cert_chain_dup src m of
     (Inl e, m') \<Rightarrow> e = NSERROR_NOMEM \<and> \<not> plenty m \<and> held m' = held m
   | (Inr dst, m') \<Rightarrow> dst = chain_of (take (chain_depth src) (chain_certs src)) \<and> held m' = held m + chain_foot dst"
  using chain_dup [OF assms, of m] by (auto split: sum.splits)

definition example_cert :: cert where
  "example_cert = \<lparr>cert_err = 6, cert_der = Some (replicate 50 7)\<rparr>"

theorem cert_chain_dup_correct_witness:
  "\<exists>m'. cert_chain_dup (chain_of [example_cert]) (fresh_mem [True, False]) = (Inl NSERROR_NOMEM, m') \<and> held m' = 0"
proof -
  have "chain_ok (chain_of [example_cert])"
    by (simp add: chain_ok_def chain_of_def MAX_CERT_DEPTH_def)
  moreover have "fst (cert_chain_dup (chain_of [example_cert]) (fresh_mem [True, False])) = Inl NSERROR_NOMEM"
    by code_simp
  moreover have "held (fresh_mem [True, False]) = 0"
    by (simp add: held_def fresh_mem_def footprint_defs)
  ultimately show ?thesis
    using cert_chain_dup_correct [of "chain_of [example_cert]" "fresh_mem [True, False]"]
    by (cases "cert_chain_dup (chain_of [example_cert]) (fresh_mem [True, False])") auto
qed


definition example_viewer :: nsurl where
  "example_viewer = url_of ((null_components NSURL_SCHEME_OTHER)\<lparr>uc_scheme := Some ''about'', uc_path := Some ''certificate'',
       uc_query := Some (query_of [example_cert, example_cert])\<rparr>)"


text \<open>
  An eleventh certificate in a query is decoded behind the array: nothing compares the depth with
  \<open>MAX_CERT_DEPTH\<close>.
\<close>

lemma query_overflows_array:
  assumes "length certs = MAX_CERT_DEPTH" and "length (der_text c) > MIN_CERT_LEN"
  shows "process_query_section (''cert='' @ der_text c) 0 (length (''cert='' @ der_text c)) (chain_of certs) m = None"
  using assms by (simp add: process_query_section_def Let_def chain_of_def)

text \<open>Casting the error of the encoder: no room becomes an error of the style sheets.\<close>

lemma cast_no_space: "nserror_cast NSUERROR_NOSPACE = NSERROR_CSS_BASE"
  by simp

end
