(* ===== verification/Llcache_Object.thy ===== *)
theory Llcache_Object
  imports Http_Directives Ssl_Certs "HOL-Library.Signed_Division"
begin

text \<open>
  \<^verbatim>\<open>src/content/llcache.c\<close>: the objects of the low-level cache, what their response headers say
  about caching, and whether an object is still fresh.

  Times are seconds (\<^verbatim>\<open>time_t\<close>), \<^verbatim>\<open>time(NULL)\<close> is the argument \<open>now\<close>, and the date
  parser of libcurl the argument \<open>curl_getdate\<close>. A \<^verbatim>\<open>time_t\<close> or \<^verbatim>\<open>long\<close> that is assigned to an
  \<^verbatim>\<open>int\<close> is cut to 32 bits (\<open>to_int\<close>), and so is a difference of two \<^verbatim>\<open>int\<close>s. An access outside a string and the undefined overflow of
  \<^verbatim>\<open>atoi\<close> are \<open>None\<close>.
\<close>

section \<open>Data\<close>

datatype llcache_fetch_state =
    LLCACHE_FETCH_INIT
  | LLCACHE_FETCH_HEADERS
  | LLCACHE_FETCH_DATA
  | LLCACHE_FETCH_COMPLETE

datatype llcache_validate =
    LLCACHE_VALIDATE_FRESH
  | LLCACHE_VALIDATE_ALWAYS
  | LLCACHE_VALIDATE_ONCE

datatype llcache_store_state =
    LLCACHE_STATE_RAM
  | LLCACHE_STATE_DISC

definition INVALID_AGE :: int where
  "INVALID_AGE = - 1"

record llcache_cache_control =
  req_time :: int
  res_time :: int
  fin_time :: int
  date :: int
  expires :: int
  age :: int
  max_age :: int
  no_cache :: llcache_validate
  etag :: "string option"
  last_modified :: int

record llcache_header =
  header_name :: string
  header_value :: string

text \<open>
  Users, handles and objects are named by their addresses; the list of the users of an object is the
  list of their addresses. A user owns a handle for its client, which says how far the client was
  told of the fetch; a handle that was moved to another user leaves \<open>None\<close> behind. The callback and
  the data of the client are named by numbers.
\<close>

record llcache_handle =
  handle_object :: "nat option"
  handle_cb :: nat
  handle_pw :: nat
  handle_state :: llcache_fetch_state
  handle_bytes :: nat

record llcache_object_user =
  user_handle :: "nat option"
  iterator_target :: bool
  queued_for_delete :: bool

text \<open>A running fetch is named by a number; POST data are kept in their encoded form.\<close>

record llcache_fetch_ctx =
  fetch_flags :: "32 word"
  fetch_referer :: "nsurl option"
  fetch_post :: "string option"
  fetch_fetch :: "nat option"
  fetch_state :: llcache_fetch_state
  redirect_count :: "32 word"
  retries_remaining :: "32 word"
  hsts_in_use :: bool
  tried_with_auth :: bool
  tried_with_tls_downgrade :: bool
  tainted_tls :: bool

text \<open>The source buffer holds \<open>source_alloc\<close> bytes, of which the first \<open>source_len\<close> are data.\<close>

record llcache_object =
  obj_url :: nsurl
  source_data :: "8 word list option"
  source_len :: nat
  source_alloc :: nat
  chain :: "cert_chain option"
  store_state :: llcache_store_state
  users :: "nat list"
  obj_fetch :: llcache_fetch_ctx
  cache :: llcache_cache_control
  candidate :: "nat option"
  candidate_count :: "32 word"
  headers :: "llcache_header list"
  last_used :: int

definition zero_cache_control :: llcache_cache_control where
  "zero_cache_control =
     \<lparr>req_time = 0, res_time = 0, fin_time = 0, date = 0, expires = 0, age = 0, max_age = 0,
      no_cache = LLCACHE_VALIDATE_FRESH, etag = None, last_modified = 0\<rparr>"

definition zero_fetch_ctx :: llcache_fetch_ctx where
  "zero_fetch_ctx =
     \<lparr>fetch_flags = 0, fetch_referer = None, fetch_post = None, fetch_fetch = None, fetch_state = LLCACHE_FETCH_INIT,
      redirect_count = 0, retries_remaining = 0, hsts_in_use = False, tried_with_auth = False,
      tried_with_tls_downgrade = False, tainted_tls = False\<rparr>"

definition new_object :: "nsurl \<Rightarrow> llcache_object" where
  "new_object url =
     \<lparr>obj_url = url, source_data = None, source_len = 0, source_alloc = 0, chain = None, store_state = LLCACHE_STATE_RAM,
      users = [], obj_fetch = zero_fetch_ctx, cache = zero_cache_control, candidate = None, candidate_count = 0,
      headers = [], last_used = 0\<rparr>"

definition llcache_object_new :: "nsurl \<Rightarrow> mem \<Rightarrow> llcache_object result \<times> mem" where
  "llcache_object_new url m =
     (case malloc m of (ok, m1) \<Rightarrow>
        if ok then (Inr (new_object url), url_handle_ref m1) else (Inl NSERROR_NOMEM, m1))"

section \<open>Headers\<close>

definition is_header_space :: "char \<Rightarrow> bool" where
  "is_header_space c \<longleftrightarrow> c = CHR '' '' \<or> c = CHR 0x09 \<or> c = CHR 0x0D \<or> c = CHR 0x0A"

text \<open>
  The length counts from the start of the header, but the code applies it to the text after
  its leading white space; reading the byte behind the NUL is \<open>None\<close>.
\<close>

fun trim_length :: "string \<Rightarrow> nat \<Rightarrow> nat option" where
  "trim_length data 0 = Some 0"
| "trim_length data (Suc k) =
     (if k > length data then None
      else if is_header_space (peek (drop k data)) then trim_length data k
      else Some (Suc k))"

definition llcache_fetch_split_header ::
  "string \<Rightarrow> nat \<Rightarrow> mem \<Rightarrow> ((string \<times> string) result \<times> mem) option" where
  "llcache_fetch_split_header data0 len m =
     (let data = dropWhile is_header_space data0;
          key = takeWhile (\<lambda>c. c \<noteq> CHR '':'') data in
      if CHR '':'' \<notin> set data then
        (case strdup (rstrip is_header_space data) m of
           (None, m1) \<Rightarrow> Some (Inl NSERROR_NOMEM, m1)
         | (Some n, m1) \<Rightarrow>
             (case strdup [] m1 of
                (None, m2) \<Rightarrow> Some (Inl NSERROR_NOMEM, free_block m2)
              | (Some v, m2) \<Rightarrow> Some (Inr (n, v), m2)))
      else
        (case strdup (rstrip is_header_space key) m of
           (None, m1) \<Rightarrow> Some (Inl NSERROR_NOMEM, m1)
         | (Some n, m1) \<Rightarrow>
             (let colon = dropWhile is_header_space (drop (length key + 1) data);
                  offset = length data - length colon in
              case trim_length data len of
                None \<Rightarrow> None
              | Some len' \<Rightarrow>
                  (case strdup (take (unat (word_of_nat len' - word_of_nat offset :: 64 word)) colon) m1 of
                     (None, m2) \<Rightarrow> Some (Inl NSERROR_NOMEM, free_block m2)
                   | (Some v, m2) \<Rightarrow> Some (Inr (n, v), m2)))))"

definition llcache_fetch_parse_cache_control ::
  "llcache_cache_control \<Rightarrow> string \<Rightarrow> mem \<Rightarrow> (llcache_cache_control \<times> mem) option" where
  "llcache_fetch_parse_cache_control cd val m =
     (case http_parse_cache_control val m of
        None \<Rightarrow> None
      | Some (Inl error, m1) \<Rightarrow> Some (cd, m1)
      | Some (Inr cc, m1) \<Rightarrow>
          (let cd1 = (if http_cache_control_no_cache cc \<or> http_cache_control_no_store cc
                      then cd\<lparr>no_cache := LLCACHE_VALIDATE_ALWAYS\<rparr> else cd);
               cd2 = (if http_cache_control_has_max_age cc
                      then cd1\<lparr>max_age := sint (http_cache_control_max_age cc)\<rparr> else cd1) in
           Some (cd2, http_cache_control_destroy cc m1)))"

definition free_etag :: "llcache_cache_control \<Rightarrow> mem \<Rightarrow> mem" where
  "free_etag cd m = (case etag cd of None \<Rightarrow> m | Some _ \<Rightarrow> free_block m)"

definition llcache_fetch_header_cache_control ::
  "(string \<Rightarrow> int) \<Rightarrow> llcache_cache_control \<Rightarrow> string \<Rightarrow> string \<Rightarrow> mem \<Rightarrow>
     (nserror \<times> llcache_cache_control \<times> mem) option" where
  "llcache_fetch_header_cache_control curl_getdate cd name val m =
     (let name_len = length name in
      if name_len = 3 then
        (if strcasecmp_eq name ''Age'' \<and> is_digit (peek val) then
           (case atoi val of None \<Rightarrow> None | Some a \<Rightarrow> Some (NSERROR_OK, cd\<lparr>age := a\<rparr>, m))
         else Some (NSERROR_OK, cd, m))
      else if name_len = 4 then
        (if strcasecmp_eq name ''Date'' then
           (case nsc_strntimet curl_getdate val of
              Inl res \<Rightarrow> Some (NSERROR_OK, cd, m)
            | Inr t \<Rightarrow> Some (NSERROR_OK, cd\<lparr>date := t\<rparr>, m))
         else if strcasecmp_eq name ''ETag'' then
           (case strdup val (free_etag cd m) of
              (None, m1) \<Rightarrow> Some (NSERROR_NOMEM, cd\<lparr>etag := None\<rparr>, m1)
            | (Some e, m1) \<Rightarrow> Some (NSERROR_OK, cd\<lparr>etag := Some e\<rparr>, m1))
         else Some (NSERROR_OK, cd, m))
      else if name_len = 7 then
        (if strcasecmp_eq name ''Expires'' then
           (case nsc_strntimet curl_getdate val of
              Inl res \<Rightarrow> Some (NSERROR_OK, cd\<lparr>expires := 0x7fffffff\<rparr>, m)
            | Inr t \<Rightarrow> Some (NSERROR_OK, cd\<lparr>expires := t\<rparr>, m))
         else Some (NSERROR_OK, cd, m))
      else if name_len = 13 then
        (if strcasecmp_eq name ''Cache-Control'' then
           (case llcache_fetch_parse_cache_control cd val m of
              None \<Rightarrow> None
            | Some (cd1, m1) \<Rightarrow> Some (NSERROR_OK, cd1, m1))
         else if strcasecmp_eq name ''Last-Modified'' then
           (case nsc_strntimet curl_getdate val of
              Inl res \<Rightarrow> Some (NSERROR_OK, cd, m)
            | Inr t \<Rightarrow> Some (NSERROR_OK, cd\<lparr>last_modified := t\<rparr>, m))
         else Some (NSERROR_OK, cd, m))
      else Some (NSERROR_OK, cd, m))"

fun free_headers :: "llcache_header list \<Rightarrow> mem \<Rightarrow> mem" where
  "free_headers [] m = m"
| "free_headers (h # hs) m = free_headers hs (free_block (free_block m))"

definition llcache_destroy_headers :: "llcache_object \<Rightarrow> mem \<Rightarrow> llcache_object \<times> mem" where
  "llcache_destroy_headers object m =
     (object\<lparr>headers := []\<rparr>,
      (if headers object = [] then m else free_block (free_headers (rev (headers object)) m)))"

definition llcache_invalidate_cache_control_data :: "llcache_object \<Rightarrow> mem \<Rightarrow> llcache_object \<times> mem" where
  "llcache_invalidate_cache_control_data object m =
     (object\<lparr>cache := zero_cache_control\<lparr>age := INVALID_AGE, max_age := INVALID_AGE\<rparr>\<rparr>, free_etag (cache object) m)"

text \<open>The array of headers is a block of its own once there is one.\<close>

definition append_header :: "llcache_object \<Rightarrow> llcache_header \<Rightarrow> mem \<Rightarrow> nserror \<times> llcache_object \<times> mem" where
  "append_header object h m =
     (case (if headers object = [] then malloc m else mem_next m) of (ok, m1) \<Rightarrow>
        if \<not> ok then (NSERROR_NOMEM, object, free_block (free_block m1))
        else (NSERROR_OK, object\<lparr>headers := headers object @ [h]\<rparr>, m1))"

definition llcache_fetch_process_header ::
  "(string \<Rightarrow> int) \<Rightarrow> int \<Rightarrow> llcache_object \<Rightarrow> string \<Rightarrow> nat \<Rightarrow> mem \<Rightarrow>
     (nserror \<times> llcache_object \<times> mem) option" where
  "llcache_fetch_process_header curl_getdate now object data len m =
     (let (object1, m1) =
            (if take 5 data = ''HTTP/'' then
               (case llcache_invalidate_cache_control_data object m of (o1, ma) \<Rightarrow>
                  llcache_destroy_headers (o1\<lparr>cache := (cache o1)\<lparr>req_time := req_time (cache object)\<rparr>\<rparr>) ma)
             else (object, m));
          object2 = (if res_time (cache object1) = 0 then object1\<lparr>cache := (cache object1)\<lparr>res_time := now\<rparr>\<rparr> else object1) in
      case llcache_fetch_split_header data len m1 of
        None \<Rightarrow> None
      | Some (Inl res, m2) \<Rightarrow> Some (res, object2, m2)
      | Some (Inr (name, val), m2) \<Rightarrow>
          if peek name = NUL then Some (NSERROR_OK, object2, free_block (free_block m2))
          else (case llcache_fetch_header_cache_control curl_getdate (cache object2) name val m2 of
              None \<Rightarrow> None
            | Some (res, cd, m3) \<Rightarrow>
                (let object3 = object2\<lparr>cache := cd\<rparr> in
                 if res \<noteq> NSERROR_OK then Some (res, object3, free_block (free_block m3))
                 else Some (append_header object3 \<lparr>header_name = name, header_value = val\<rparr> m3))))"

section \<open>Freshness\<close>

definition to_int :: "int \<Rightarrow> int" where
  "to_int i = sint (word_of_int i :: 32 word)"

definition llcache_object_rfc2616_remaining_lifetime :: "llcache_cache_control \<Rightarrow> int \<Rightarrow> int" where
  "llcache_object_rfc2616_remaining_lifetime cd now =
     (let current_age = to_int (max 0 (res_time cd - date cd));
          current_age = max current_age (if age cd = INVALID_AGE then 0 else age cd);
          current_age = to_int (current_age + (res_time cd - req_time cd + now - res_time cd));
          freshness_lifetime =
            (if max_age cd \<noteq> INVALID_AGE then max_age cd
             else if expires cd \<noteq> 0 then to_int (expires cd - date cd)
             else if last_modified cd \<noteq> 0 then to_int ((now - last_modified cd) sdiv 10)
             else 0) in
      if no_cache cd = LLCACHE_VALIDATE_FRESH \<and> freshness_lifetime > current_age
      then to_int (freshness_lifetime - current_age) else 0)"

definition llcache_object_is_fresh :: "llcache_cache_control \<Rightarrow> llcache_fetch_state \<Rightarrow> int \<Rightarrow> bool" where
  "llcache_object_is_fresh cd state now \<longleftrightarrow>
     no_cache cd = LLCACHE_VALIDATE_FRESH \<and>
     (llcache_object_rfc2616_remaining_lifetime cd now > 0 \<or> state \<noteq> LLCACHE_FETCH_COMPLETE)"

text \<open>Copying the data of a response; a deep copy duplicates the tag, another takes it.\<close>

definition llcache_object_clone_cache_data ::
  "llcache_cache_control \<Rightarrow> llcache_cache_control \<Rightarrow> bool \<Rightarrow> mem \<Rightarrow>
     nserror \<times> llcache_cache_control \<times> llcache_cache_control \<times> mem" where
  "llcache_object_clone_cache_data source destination deep m =
     (case (case etag source of
          None \<Rightarrow> (True, source, destination, m)
        | Some e \<Rightarrow>
            (case (if deep then strdup e m else (Some e, m)) of
               (None, m1) \<Rightarrow> (False, source, destination, m1)
             | (Some e', m1) \<Rightarrow>
                 (True, if deep then source else source\<lparr>etag := None\<rparr>, destination\<lparr>etag := Some e'\<rparr>,
                  free_etag destination m1))) of
       (ok, source1, d0, m1) \<Rightarrow>
         if \<not> ok then (NSERROR_NOMEM, source1, d0, m1)
         else (let d1 = d0\<lparr>req_time := req_time source, res_time := res_time source, fin_time := fin_time source\<rparr>;
                   d2 = (if date source \<noteq> 0 then d1\<lparr>date := date source\<rparr> else d1);
                   d3 = (if expires source \<noteq> 0 then d2\<lparr>expires := expires source\<rparr> else d2);
                   d4 = (if age source \<noteq> INVALID_AGE then d3\<lparr>age := age source\<rparr> else d3);
                   d5 = (if max_age source \<noteq> INVALID_AGE then d4\<lparr>max_age := max_age source\<rparr> else d4);
                   d6 = (if no_cache source \<noteq> LLCACHE_VALIDATE_FRESH then d5\<lparr>no_cache := no_cache source\<rparr> else d5);
                   d7 = (if last_modified source \<noteq> 0 then d6\<lparr>last_modified := last_modified source\<rparr> else d6) in
               (NSERROR_OK, source1, d7, m1)))"

section \<open>Splitting a header\<close>

lemma trim_length_defined: "trim_length data n = None \<longleftrightarrow> length data + 1 < n"
proof (induction n)
  case (Suc k)
  show ?case
  proof (cases "length data < k")
    case False
    then have "trim_length data k \<noteq> None"
      using Suc.IH by auto
    then show ?thesis
      using False by auto
  qed simp
qed simp

lemma trim_length_eq: "n \<le> length data \<Longrightarrow> trim_length data n = Some (length (rstrip is_header_space (take n data)))"
proof (induction n)
  case (Suc k)
  have split: "take (Suc k) data = take k data @ [data ! k]" and peek: "peek (drop k data) = data ! k"
    using Suc.prems by (simp_all add: take_Suc_conv_app_nth Cons_nth_drop_Suc [symmetric])
  show ?case
    using Suc by (auto simp: split peek rstrip_def)
qed (simp add: rstrip_def)

text \<open>Whether the code stays within the header, and what it says of its result.\<close>

definition header_readable :: "string \<Rightarrow> nat \<Rightarrow> bool" where
  "header_readable data len \<longleftrightarrow> CHR '':'' \<notin> set data \<or> len \<le> length (dropWhile is_header_space data) + 1"

lemma colon_no_space: "CHR '':'' \<in> set (dropWhile is_header_space data) \<longleftrightarrow> CHR '':'' \<in> set data"
proof -
  have "CHR '':'' \<notin> set (takeWhile is_header_space data)"
    by (auto dest!: set_takeWhileD simp: is_header_space_def)
  moreover have "set data = set (takeWhile is_header_space data) \<union> set (dropWhile is_header_space data)"
    by (metis set_append takeWhile_dropWhile_id)
  ultimately show ?thesis by blast
qed

lemma split_header_cases:
  assumes "header_readable data len"
  shows "\<exists>r m'. llcache_fetch_split_header data len m = Some (r, m') \<and> (plenty m \<longrightarrow> plenty m') \<and>
    (case r of Inl e \<Rightarrow> e = NSERROR_NOMEM \<and> held m' = held m \<and> \<not> plenty m | Inr _ \<Rightarrow> held m' = held m + a_block + a_block)"
proof -
  let ?data = "dropWhile is_header_space data"
  let ?key = "takeWhile (\<lambda>c. c \<noteq> CHR '':'') ?data"
  let ?colon = "dropWhile is_header_space (drop (length ?key + 1) ?data)"
  show ?thesis
  proof (cases "CHR '':'' \<in> set data")
    case False
    obtain n m1 where 1: "strdup (rstrip is_header_space ?data) m = (n, m1)"
      by (cases "strdup (rstrip is_header_space ?data) m")
    obtain v m2 where 2: "strdup [] m1 = (v, m2)"
      by (cases "strdup [] m1")
    show ?thesis
      using False 1 2 strdup_held [OF 1] strdup_held [OF 2]
      by (cases n; cases v) (auto simp: llcache_fetch_split_header_def Let_def colon_no_space)
  next
    case True
    obtain n m1 where 1: "strdup (rstrip is_header_space ?key) m = (n, m1)"
      by (cases "strdup (rstrip is_header_space ?key) m")
    obtain len' where t: "trim_length ?data len = Some len'"
      using True assms trim_length_defined [of ?data len] by (cases "trim_length ?data len") (auto simp: header_readable_def)
    obtain v m2 where 2: "strdup (take (unat (word_of_nat len' - word_of_nat (length ?data - length ?colon) :: 64 word)) ?colon) m1 = (v, m2)"
      by (rule prod.exhaust)
    show ?thesis
      using True 1 t 2 strdup_held [OF 1] strdup_held [OF 2]
      by (cases n; cases v) (auto simp: llcache_fetch_split_header_def Let_def colon_no_space)
  qed
qed

lemma split_header_unreadable:
  assumes "\<not> header_readable data len" and "plenty m"
  shows "llcache_fetch_split_header data len m = None"
proof -
  let ?data = "dropWhile is_header_space data"
  let ?key = "takeWhile (\<lambda>c. c \<noteq> CHR '':'') ?data"
  obtain m1 where "strdup (rstrip is_header_space ?key) m = (Some (rstrip is_header_space ?key), m1)"
    by (rule strdup_ok [OF assms(2)])
  moreover have "trim_length ?data len = None"
    using assms(1) trim_length_defined [of ?data len] by (simp add: header_readable_def)
  ultimately show ?thesis
    using assms(1) by (simp add: llcache_fetch_split_header_def Let_def header_readable_def colon_no_space)
qed

text \<open>A text without white space at its ends.\<close>

definition stripped :: "string \<Rightarrow> bool" where
  "stripped s \<longleftrightarrow> s = [] \<or> \<not> is_header_space (hd s) \<and> \<not> is_header_space (last s)"

lemma stripped_strip [simp]: "stripped s \<Longrightarrow> dropWhile is_header_space s = s" "stripped s \<Longrightarrow> rstrip is_header_space s = s"
  by (cases s; simp add: stripped_def)+

definition header_clean :: "llcache_header \<Rightarrow> bool" where
  "header_clean h \<longleftrightarrow> header_name h \<noteq> [] \<and> stripped (header_name h) \<and> CHR '':'' \<notin> set (header_name h) \<and>
     stripped (header_value h) \<and> cstring (header_name h) \<and> cstring (header_value h)"

definition header_line :: "llcache_header \<Rightarrow> string" where
  "header_line h = header_name h @ '':'' @ header_value h"

lemma split_header_line:
  assumes clean: "header_clean h" and len: "length (header_line h) < 2 ^ 63" and "plenty m"
  shows "\<exists>m'. llcache_fetch_split_header (header_line h) (length (header_line h)) m =
    Some (Inr (header_name h, header_value h), m') \<and> plenty m'"
proof -
  let ?n = "header_name h" and ?v = "header_value h" and ?line = "header_line h"
  have n: "?n \<noteq> []" "\<not> is_header_space (hd ?n)" "CHR '':'' \<notin> set ?n"
    using clean by (auto simp: header_clean_def stripped_def)
  then have data: "dropWhile is_header_space ?line = ?line"
    by (cases ?n) (simp_all add: header_line_def)
  have key: "takeWhile (\<lambda>c. c \<noteq> CHR '':'') ?line = ?n"
    unfolding header_line_def using n(3) by (intro takeWhile_append_stop) auto
  have colon: "dropWhile is_header_space (drop (length ?n + 1) ?line) = ?v"
    using clean by (simp add: header_line_def header_clean_def)
  have rest: "last ?line = (if ?v = [] then CHR '':'' else last ?v)" "?line \<noteq> []"
    by (simp_all add: header_line_def)
  have "\<not> is_header_space CHR '':''"
    by (simp add: is_header_space_def)
  then have "rstrip is_header_space ?line = ?line"
    using clean rest by (intro rstrip_none) (auto simp: header_clean_def stripped_def)
  then have trim: "trim_length ?line (length ?line) = Some (length ?line)"
    using trim_length_eq [of "length ?line" ?line] by simp
  have off: "length ?line - length ?v = length ?n + 1" "length ?line = length ?v + (length ?n + 1)"
    by (simp_all add: header_line_def)
  have "word_of_nat (length ?line) - word_of_nat (length ?n + 1) = (word_of_nat (length ?v) :: 64 word)"
    unfolding off(2) of_nat_add by simp
  then have size: "unat (word_of_nat (length ?line) - word_of_nat (length ?line - length ?v) :: 64 word) = length ?v"
    unfolding off(1) using len off(2) by (simp add: unat_of_nat take_bit_nat_eq_self)
  obtain m1 where 1: "strdup ?n m = (Some ?n, m1)" "plenty m1"
    by (rule strdup_ok [OF assms(3)])
  obtain m2 where 2: "strdup ?v m1 = (Some ?v, m2)" "plenty m2"
    by (rule strdup_ok [OF 1(2)])
  have "CHR '':'' \<in> set ?line" "rstrip is_header_space ?n = ?n"
    using clean by (simp_all add: header_line_def header_clean_def)
  then show ?thesis
    unfolding llcache_fetch_split_header_def data key colon Let_def trim option.case size using 1 2 by simp
qed


section \<open>Freshness as the standard has it\<close>

text \<open>RFC 2616, 13.2.3 and 13.2.4, on unbounded integers.\<close>

definition apparent_age :: "llcache_cache_control \<Rightarrow> int" where
  "apparent_age cd = max 0 (res_time cd - date cd)"

definition corrected_received_age :: "llcache_cache_control \<Rightarrow> int" where
  "corrected_received_age cd = (if age cd = INVALID_AGE then apparent_age cd else max (apparent_age cd) (age cd))"

definition corrected_initial_age :: "llcache_cache_control \<Rightarrow> int" where
  "corrected_initial_age cd = corrected_received_age cd + (res_time cd - req_time cd)"

definition age_at :: "llcache_cache_control \<Rightarrow> int \<Rightarrow> int" where
  "age_at cd now = corrected_initial_age cd + (now - res_time cd)"

text \<open>The lifetime the server states, or a tenth of the time since the last change.\<close>

definition lifetime_at :: "llcache_cache_control \<Rightarrow> int \<Rightarrow> int" where
  "lifetime_at cd now =
     (if max_age cd \<noteq> INVALID_AGE then max_age cd
      else if expires cd \<noteq> 0 then expires cd - date cd
      else if last_modified cd \<noteq> 0 then (now - last_modified cd) sdiv 10
      else 0)"

definition fits_int :: "int \<Rightarrow> bool" where
  "fits_int i \<longleftrightarrow> - (2 ^ 31) \<le> i \<and> i < 2 ^ 31"

lemma to_int_fits [simp]: "fits_int i \<Longrightarrow> to_int i = i"
  unfolding fits_int_def to_int_def by transfer (simp add: signed_take_bit_int_eq_self)

definition cache_times_fit :: "llcache_cache_control \<Rightarrow> int \<Rightarrow> bool" where
  "cache_times_fit cd now \<longleftrightarrow> fits_int (apparent_age cd) \<and> 0 \<le> age_at cd now \<and> fits_int (age_at cd now) \<and>
     fits_int (lifetime_at cd now) \<and> age cd \<ge> INVALID_AGE"

lemma remaining_lifetime:
  assumes "cache_times_fit cd now"
  shows "llcache_object_rfc2616_remaining_lifetime cd now =
    (if no_cache cd = LLCACHE_VALIDATE_FRESH then max 0 (lifetime_at cd now - age_at cd now) else 0)"
proof -
  have fits: "fits_int (max 0 (res_time cd - date cd))" "fits_int (age_at cd now)" "fits_int (lifetime_at cd now)" "0 \<le> age_at cd now"
    using assms by (simp_all add: cache_times_fit_def apparent_age_def)
  have age: "max (to_int (max 0 (res_time cd - date cd))) (if age cd = INVALID_AGE then 0 else age cd) = corrected_received_age cd"
    using to_int_fits [OF fits(1)] by (simp add: corrected_received_age_def apparent_age_def)
  have current: "to_int (corrected_received_age cd + (res_time cd - req_time cd + now - res_time cd)) = age_at cd now"
    using to_int_fits [OF fits(2)] by (simp add: age_at_def corrected_initial_age_def algebra_simps)
  have life: "(if max_age cd \<noteq> INVALID_AGE then max_age cd else if expires cd \<noteq> 0 then to_int (expires cd - date cd)
      else if last_modified cd \<noteq> 0 then to_int ((now - last_modified cd) sdiv 10) else 0) = lifetime_at cd now"
    using to_int_fits [OF fits(3)] by (simp add: lifetime_at_def split: if_splits)
  have "fits_int (lifetime_at cd now - age_at cd now)" if "lifetime_at cd now > age_at cd now"
    using that fits(3,4) by (simp add: fits_int_def)
  then show ?thesis
    unfolding llcache_object_rfc2616_remaining_lifetime_def Let_def age current life by simp
qed

text \<open>
  C17. Freshness: while the times fit an \<^verbatim>\<open>int\<close>, an object is fresh exactly when it may be used
  without validation and is still arriving or younger than its lifetime in the sense of RFC 2616,
  and the time it has left is the difference.
\<close>

theorem llcache_object_is_fresh_rfc2616:
  assumes "cache_times_fit cd now"
  shows "(llcache_object_is_fresh cd state now \<longleftrightarrow>
      no_cache cd = LLCACHE_VALIDATE_FRESH \<and> (state = LLCACHE_FETCH_COMPLETE \<longrightarrow> age_at cd now < lifetime_at cd now)) \<and>
    llcache_object_rfc2616_remaining_lifetime cd now =
      (if no_cache cd = LLCACHE_VALIDATE_FRESH then max 0 (lifetime_at cd now - age_at cd now) else 0)"
  using remaining_lifetime [OF assms] by (auto simp: llcache_object_is_fresh_def)

definition example_cached :: llcache_cache_control where
  "example_cached = zero_cache_control\<lparr>req_time := 1000, res_time := 1002, date := 990, age := 20, max_age := 60\<rparr>"

theorem llcache_object_is_fresh_rfc2616_witness:
  "llcache_object_is_fresh example_cached LLCACHE_FETCH_COMPLETE 1030 \<and> \<not> llcache_object_is_fresh example_cached LLCACHE_FETCH_COMPLETE 1040"
proof -
  have now: "age_at example_cached 1030 = 50" "age_at example_cached 1040 = 60" "lifetime_at example_cached now = 60"
    "apparent_age example_cached = 12" "no_cache example_cached = LLCACHE_VALIDATE_FRESH" "age example_cached = 20" for now
    by (simp_all add: example_cached_def zero_cache_control_def age_at_def corrected_initial_age_def corrected_received_age_def
        apparent_age_def lifetime_at_def INVALID_AGE_def)
  have "cache_times_fit example_cached 1030" "cache_times_fit example_cached 1040"
    by (simp_all add: cache_times_fit_def now fits_int_def INVALID_AGE_def)
  then show ?thesis
    using llcache_object_is_fresh_rfc2616 [of example_cached 1030 LLCACHE_FETCH_COMPLETE]
      llcache_object_is_fresh_rfc2616 [of example_cached 1040 LLCACHE_FETCH_COMPLETE] by (simp add: now)
qed

section \<open>Processing a header\<close>

text \<open>What an object's cache data and headers hold: the tag, the array, and two strings for each header.\<close>

definition etag_foot :: "llcache_cache_control \<Rightarrow> footprint" where
  "etag_foot cd = (if etag cd = None then 0 else a_block)"

definition headers_foot :: "llcache_header list \<Rightarrow> footprint" where
  "headers_foot hs = (if hs = [] then 0 else a_block + foot_times (length hs) (a_block + a_block))"

definition object_foot :: "llcache_object \<Rightarrow> footprint" where
  "object_foot obj = etag_foot (cache obj) + headers_foot (headers obj)"

lemma free_etag_simps [simp]:
  "held (free_etag cd m) = held m - etag_foot cd" "plenty (free_etag cd m) = plenty m"
  by (cases "etag cd"; simp add: free_etag_def etag_foot_def)+

lemma free_headers_simps [simp]:
  "held (free_headers hs m) = held m - foot_times (length hs) (a_block + a_block)" "plenty (free_headers hs m) = plenty m"
  by (induction hs arbitrary: m) (simp_all add: diff_diff_eq add.assoc)

lemma etag_foot_updates [simp]:
  "etag_foot (cd\<lparr>age := i\<rparr>) = etag_foot cd" "etag_foot (cd\<lparr>date := i\<rparr>) = etag_foot cd"
  "etag_foot (cd\<lparr>expires := i\<rparr>) = etag_foot cd" "etag_foot (cd\<lparr>last_modified := i\<rparr>) = etag_foot cd"
  "etag_foot (cd\<lparr>max_age := i\<rparr>) = etag_foot cd" "etag_foot (cd\<lparr>no_cache := v\<rparr>) = etag_foot cd"
  "etag_foot (cd\<lparr>res_time := i\<rparr>) = etag_foot cd" "etag_foot (cd\<lparr>req_time := i\<rparr>) = etag_foot cd"
  "etag_foot (cd\<lparr>etag := None\<rparr>) = 0" "etag_foot (cd\<lparr>etag := Some e\<rparr>) = a_block"
  by (simp_all add: etag_foot_def)

lemma parse_cache_control_cd:
  "\<exists>cd' m'. llcache_fetch_parse_cache_control cd v m = Some (cd', m') \<and> held m' - etag_foot cd' = held m - etag_foot cd \<and>
     (plenty m \<longrightarrow> plenty m')"
proof -
  obtain r m1 where p: "http_parse_cache_control v m = Some (r, m1)" "keeps_books (\<lambda>_. a_block) m r m1" "plenty m \<longrightarrow> plenty m1"
    using parse_cache_control_books by blast
  show ?thesis
    using p by (cases r) (auto simp: llcache_fetch_parse_cache_control_def Let_def http_cache_control_destroy_def)
qed

text \<open>An \<^verbatim>\<open>Age\<close> that is an \<^verbatim>\<open>int\<close>.\<close>

definition age_fits :: "string \<Rightarrow> string \<Rightarrow> bool" where
  "age_fits name v \<longleftrightarrow> (strcasecmp_eq name ''Age'' \<longrightarrow> atoi v \<noteq> None)"

lemma header_cache_control_books:
  assumes "age_fits name v"
  shows "\<exists>res cd' m'. llcache_fetch_header_cache_control curl_getdate cd name v m = Some (res, cd', m') \<and>
    held m' - etag_foot cd' = held m - etag_foot cd \<and> (plenty m \<longrightarrow> plenty m') \<and>
    (res = NSERROR_OK \<or> res = NSERROR_NOMEM \<and> \<not> plenty m)"
proof -
  obtain e m1 where e: "strdup v (free_etag cd m) = (e, m1)"
    by (cases "strdup v (free_etag cd m)")
  obtain cd2 m2 where c: "llcache_fetch_parse_cache_control cd v m = Some (cd2, m2)" "held m2 - etag_foot cd2 = held m - etag_foot cd"
      "plenty m \<longrightarrow> plenty m2"
    using parse_cache_control_cd by blast
  show ?thesis
    using c(2,3) strdup_held [OF e] assms
    by (cases e; cases "nsc_strntimet curl_getdate v"; cases "atoi v")
      (simp_all add: llcache_fetch_header_cache_control_def age_fits_def Let_def e c(1))
qed

lemma append_header_books:
  "\<exists>res obj' m'. append_header obj h m = (res, obj', m') \<and>
     held m' - object_foot obj' = held m - object_foot obj - (a_block + a_block) \<and> (plenty m \<longrightarrow> plenty m') \<and>
     (res = NSERROR_OK \<or> res = NSERROR_NOMEM \<and> \<not> plenty m)"
proof -
  obtain ok m1 where m: "(if headers obj = [] then malloc m else mem_next m) = (ok, m1)"
    by (rule prod.exhaust)
  have "held m1 = held m + (if ok \<and> headers obj = [] then a_block else 0)" "plenty m \<longrightarrow> ok \<and> plenty m1"
    using m malloc_held [of m ok m1] mem_next_held [of m ok m1] malloc_plenty [of m ok m1] mem_next_plenty [of m ok m1]
    by (auto split: if_splits)
  moreover have step: "append_header obj h m = (if \<not> ok then (NSERROR_NOMEM, obj, free_block (free_block m1))
      else (NSERROR_OK, obj\<lparr>headers := headers obj @ [h]\<rparr>, m1))"
    unfolding append_header_def m prod.case by (rule refl)
  ultimately show ?thesis
    unfolding step by (cases ok) (auto simp: object_foot_def headers_foot_def algebra_simps foot_times_add)
qed



text \<open>More than one leading space takes the scan for trailing space out of the text.\<close>

lemma leading_spaces_read_outside: "plenty m \<Longrightarrow> llcache_fetch_split_header ''  A:b'' 5 m = None"
  by (rule split_header_unreadable) (simp_all add: header_readable_def is_header_space_def)

text \<open>An expiry date that is no date, such as the customary 0, makes the response fresh for decades.\<close>

lemma invalid_expiry_is_far_away:
  assumes "curl_getdate ''0'' = - 1" and "plenty m" and "max_age cd = INVALID_AGE" and "no_cache cd = LLCACHE_VALIDATE_FRESH"
    and "req_time cd = 0" and "res_time cd = 0" and "date cd = 0" and "age cd = INVALID_AGE"
  shows "\<exists>cd'. llcache_fetch_header_cache_control curl_getdate cd ''Expires'' ''0'' m = Some (NSERROR_OK, cd', m) \<and>
    llcache_object_is_fresh cd' LLCACHE_FETCH_COMPLETE 2000000000"
proof -
  have "strcasecmp_eq ''Expires'' ''Expires''"
    by (simp add: strcasecmp_eq_def)
  moreover obtain e where "nsc_strntimet curl_getdate ''0'' = Inl e"
    using assms(1) by (auto simp: nsc_strntimet_def)
  ultimately show ?thesis
    using assms by (simp add: llcache_fetch_header_cache_control_def Let_def llcache_object_is_fresh_def
        llcache_object_rfc2616_remaining_lifetime_def to_int_def INVALID_AGE_def)
qed

end
