(* ===== verification/Url_Escape.thy ===== *)
theory Url_Escape
  imports Prelude Ascii
begin

text \<open>
  \<^verbatim>\<open>src/utils/url.c\<close>: percent escaping. The text to unescape is the memory it starts in; a length of
  0 asks for \<^verbatim>\<open>strlen\<close>, and reading behind the memory given is \<open>None\<close>. A missing (NULL) text is
  \<open>None\<close> as an argument; the results always have a place to go. Memory for the result is one block,
  whose shrinking may fail without effect.
\<close>

section \<open>The functions\<close>

definition xdigit_to_hex :: "char \<Rightarrow> nat" where
  "xdigit_to_hex c =
     (if ord_char CHR ''0'' \<le> ord_char c \<and> ord_char c \<le> ord_char CHR ''9'' then ord_char c - ord_char CHR ''0''
      else if ord_char CHR ''A'' \<le> ord_char c \<and> ord_char c \<le> ord_char CHR ''F'' then ord_char c - ord_char CHR ''A'' + 10
      else ord_char c - ord_char CHR ''a'' + 10)"

text \<open>An escape is looked for while two more characters follow.\<close>

fun unescape_loop :: "string \<Rightarrow> string" where
  "unescape_loop (c # c1 # c2 # str) =
     (if c = CHR ''%'' \<and> ascii_is_hex c1 \<and> ascii_is_hex c2
      then char_of (xdigit_to_hex c1 * 16 + xdigit_to_hex c2) # unescape_loop str
      else c # unescape_loop (c1 # c2 # str))"
| "unescape_loop str = str"

definition shrink :: "bool \<Rightarrow> mem \<Rightarrow> mem" where
  "shrink smaller m = (if smaller then snd (mem_next m) else m)"

definition url_unescape :: "string option \<Rightarrow> nat \<Rightarrow> mem \<Rightarrow> ((string \<times> nat) result \<times> mem) option" where
  "url_unescape text length0 m =
     (case text of
        None \<Rightarrow> Some (Inl NSERROR_BAD_PARAMETER, m)
      | Some str \<Rightarrow>
          (let len = (if length0 = 0 then length (takeWhile (\<lambda>c. c \<noteq> NUL) str) else length0) in
           case malloc m of (ok, m1) \<Rightarrow>
             if \<not> ok then Some (Inl NSERROR_NOMEM, m1)
             else if len > length str then None
             else (let out = unescape_loop (take len str) in
               Some (Inr (out, length out), shrink (length out \<noteq> len) m1))))"

definition reserved :: string where
  "reserved = '':/?#[]@'' @ ''!$&'' @ [CHR 0x27] @ ''()*+,;='' @ ''<>%'' @ [CHR 0x22] @ ''{}|'' @ [CHR 0x5C] @ ''^`~''"

definition escaped_char :: "string option \<Rightarrow> char \<Rightarrow> bool" where
  "escaped_char escexceptions c \<longleftrightarrow>
     ord_char c \<ge> 0x80 \<or>
     c \<in> set reserved \<and> (case escexceptions of None \<Rightarrow> True | Some except \<Rightarrow> c \<notin> set except) \<or>
     ord_char c \<le> 0x20 \<or> ord_char c = 0x7f"

definition hex_char :: "nat \<Rightarrow> char" where
  "hex_char n = ''0123456789ABCDEF'' ! n"

fun escape_loop :: "bool \<Rightarrow> string option \<Rightarrow> string \<Rightarrow> string" where
  "escape_loop sptoplus escexceptions [] = []"
| "escape_loop sptoplus escexceptions (c # unescaped) =
     (if escaped_char escexceptions c then
        (if c = CHR '' '' \<and> sptoplus then [CHR ''+'']
         else [CHR ''%'', hex_char (ord_char c div 16), hex_char (ord_char c mod 16)])
      else [c]) @ escape_loop sptoplus escexceptions unescaped"

definition url_escape :: "string option \<Rightarrow> bool \<Rightarrow> string option \<Rightarrow> mem \<Rightarrow> string result \<times> mem" where
  "url_escape text sptoplus escexceptions m =
     (case text of
        None \<Rightarrow> (Inl NSERROR_BAD_PARAMETER, m)
      | Some unescaped \<Rightarrow>
          (case malloc m of (ok, m1) \<Rightarrow>
             if \<not> ok then (Inl NSERROR_NOMEM, m1)
             else (let out = escape_loop sptoplus escexceptions unescaped in
               (Inr out, shrink (length out \<noteq> length unescaped) m1))))"

section \<open>Escapes\<close>

lemma hex_char_value:
  assumes "n < 16"
  shows "ascii_is_hex (hex_char n) \<and> xdigit_to_hex (hex_char n) = n"
proof -
  have "\<forall>n \<in> set [0..<16]. ascii_is_hex (hex_char n) \<and> xdigit_to_hex (hex_char n) = n"
    by code_simp
  then show ?thesis
    using assms by simp
qed

lemma hex_range: "ascii_is_hex c \<Longrightarrow> xdigit_to_hex c < 16"
  by (auto simp: ascii_class_defs xdigit_to_hex_def)

lemma unescape_hex:
  assumes "n < 256"
  shows "unescape_loop (CHR ''%'' # hex_char (n div 16) # hex_char (n mod 16) # str) = char_of n # unescape_loop str"
  using assms hex_char_value [of "n div 16"] hex_char_value [of "n mod 16"] by simp

lemma unescape_plain: "c \<noteq> CHR ''%'' \<Longrightarrow> unescape_loop (c # str) = c # unescape_loop str"
  by (cases "(c, str)" rule: prod.exhaust; cases str; cases "tl str") auto

lemma unescape_length: "length (unescape_loop str) \<le> length str"
  by (induction str rule: unescape_loop.induct) auto

lemma escape_length: "length (escape_loop sptoplus escexceptions unescaped) \<le> 3 * length unescaped"
  by (induction unescaped) auto

lemma unescape_escape:
  assumes "\<forall>except. escexceptions = Some except \<longrightarrow> CHR ''%'' \<notin> set except"
  shows "unescape_loop (escape_loop False escexceptions unescaped) = unescaped"
proof (induction unescaped)
  case (Cons c unescaped)
  show ?case
  proof (cases "escaped_char escexceptions c")
    case True
    then show ?thesis
      using Cons.IH unescape_hex [OF nat_of_char_less_256 [of c]] by simp
  next
    case False
    have "CHR ''%'' \<in> set reserved"
      by (simp add: reserved_def)
    then have "c \<noteq> CHR ''%''"
      using False assms by (auto simp: escaped_char_def split: option.splits)
    then show ?thesis
      using False Cons.IH by (simp add: unescape_plain)
  qed
qed simp

lemma shrink_simps [simp]: "held (shrink b m) = held m" "plenty m \<Longrightarrow> plenty (shrink b m)"
  by (cases "mem_next m"; simp add: shrink_def mem_next_held mem_next_plenty)+

text \<open>What an escaped text is made of.\<close>

definition url_safe :: "string option \<Rightarrow> char \<Rightarrow> bool" where
  "url_safe escexceptions c \<longleftrightarrow>
     0x20 < ord_char c \<and> ord_char c < 0x7f \<and>
     (c \<notin> set reserved \<or> c = CHR ''%'' \<or> c = CHR ''+'' \<or> (\<exists>except. escexceptions = Some except \<and> c \<in> set except))"

lemma escape_safe: "\<forall>c \<in> set (escape_loop sptoplus escexceptions unescaped). url_safe escexceptions c"
proof (induction unescaped)
  case (Cons c unescaped)
  have hex: "url_safe escexceptions (hex_char n)" if "n < 16" for n
  proof -
    have "\<forall>n \<in> set [0..<16]. 0x20 < ord_char (hex_char n) \<and> ord_char (hex_char n) < 0x7f \<and> hex_char n \<notin> set reserved"
      by code_simp
    then show ?thesis
      using that by (simp add: url_safe_def)
  qed
  have "url_safe escexceptions c" if "\<not> escaped_char escexceptions c"
    using that by (auto simp: url_safe_def escaped_char_def split: option.splits)
  moreover have "url_safe escexceptions CHR ''%''" "url_safe escexceptions CHR ''+''"
    by (simp_all add: url_safe_def)
  moreover have "ord_char c div 16 < 16" "ord_char c mod 16 < 16"
    using nat_of_char_less_256 [of c] by (auto intro: less_mult_imp_div_less)
  ultimately show ?case
    using Cons.IH hex by auto
qed simp

section \<open>Properties\<close>

text \<open>
  C22. Escaping and unescaping give the text back, whatever its bytes, unless spaces become plus signs
  or the per cent sign is excepted from escaping; neither call fails but for want of memory, and each
  leaves one block.
\<close>

theorem url_escape_roundtrip:
  assumes "cstring s" and "\<forall>except. escexceptions = Some except \<longrightarrow> CHR ''%'' \<notin> set except" and "plenty m"
  shows "\<exists>t m1 m2. url_escape (Some s) False escexceptions m = (Inr t, m1) \<and>
    url_unescape (Some t) 0 m1 = Some (Inr (s, length s), m2) \<and> held m2 = held m + a_block + a_block"
proof -
  obtain m1 where 1: "malloc m = (True, m1)" "plenty m1"
    by (rule malloc_ok [OF assms(3)])
  define t where "t = escape_loop False escexceptions s"
  define m2 where "m2 = shrink (length t \<noteq> length s) m1"
  have "plenty m2"
    using 1(2) by (simp add: m2_def)
  obtain m3 where 3: "malloc m2 = (True, m3)"
    by (rule malloc_ok [OF \<open>plenty m2\<close>])
  have "url_safe escexceptions c" if "c \<in> set t" for c
    using escape_safe that by (simp add: t_def)
  then have all: "takeWhile (\<lambda>c. c \<noteq> NUL) t = t"
    unfolding takeWhile_eq_all_conv by (force simp: url_safe_def)
  have "unescape_loop t = s"
    unfolding t_def by (rule unescape_escape [OF assms(2)])
  moreover have "url_escape (Some s) False escexceptions m = (Inr t, m2)"
    by (simp add: url_escape_def Let_def 1(1) t_def m2_def)
  ultimately have "url_unescape (Some t) 0 m2 = Some (Inr (s, length s), shrink (length s \<noteq> length t) m3)"
    by (simp add: url_unescape_def Let_def 3 all)
  moreover have "held m3 = held m + a_block + a_block"
    using malloc_held [OF 1(1)] malloc_held [OF 3] by (simp add: m2_def)
  ultimately show ?thesis
    using \<open>url_escape (Some s) False escexceptions m = (Inr t, m2)\<close> by auto
qed

theorem url_escape_roundtrip_witness:
  "\<exists>t m1 m2. url_escape (Some ''a b%41/'') False (Some ''/'') (fresh_mem []) = (Inr t, m1) \<and>
    url_unescape (Some t) 0 m1 = Some (Inr (''a b%41/'', 7), m2) \<and> held m2 = held (fresh_mem []) + a_block + a_block"
  using url_escape_roundtrip [of "''a b%41/''" "Some ''/''" "fresh_mem []"] by (simp add: plenty_def fresh_mem_def eval_nat_numeral)

text \<open>
  Escaping writes printable ASCII only, no reserved character but those excepted, the per cent sign
  and the plus sign, and at most three times the length of the text, the size of its buffer.
\<close>

theorem url_escape_output:
  "case url_escape (Some s) sptoplus escexceptions m of
     (Inl error, m') \<Rightarrow> error = NSERROR_NOMEM \<and> \<not> plenty m \<and> held m' = held m
   | (Inr t, m') \<Rightarrow> list_all (url_safe escexceptions) t \<and> length t \<le> 3 * length s \<and> held m' = held m + a_block"
proof -
  obtain ok m1 where m: "malloc m = (ok, m1)"
    by (cases "malloc m")
  show ?thesis
    using malloc_held [OF m] malloc_plenty [OF m] by (cases ok) (auto simp: url_escape_def m Let_def list_all_iff escape_safe escape_length)
qed

text \<open>An excepted per cent sign makes the escaped text ambiguous.\<close>

lemma escape_percent_excepted:
  "escape_loop False (Some ''%'') ''%41'' = ''%41''" "unescape_loop ''%41'' = ''A''"
  by code_simp+

end
