(* ===== verification/Llcache_Metadata.thy ===== *)
theory Llcache_Metadata
  imports Llcache_Object Nsurl_Create Fs_Store
begin

text \<open>
  \<^verbatim>\<open>src/content/llcache.c\<close>: the metadata of an object that the low-level cache keeps in its backing
  store: a sequence of NUL-terminated lines with the URL, the length of the data, three times, the
  headers and the certificates.

  The backing store is an argument (the table of functions \<^verbatim>\<open>guit->llcache\<close>); \<open>Fs_Store\<close> is the one
  for discs. Reading a line that has no NUL before the end of the metadata is \<open>None\<close>.
\<close>

section \<open>Writing\<close>

text \<open>What was written and the room that is left. \<^verbatim>\<open>snprintf\<close> never writes behind the room.\<close>

type_synonym out = "8 word list \<times> nat"

definition line_bytes :: "string \<Rightarrow> 8 word list" where
  "line_bytes s = bytes_of s @ [0]"

definition put_line :: "string \<Rightarrow> out \<Rightarrow> out result" where
  "put_line s = (\<lambda>(out, room). if length s + 1 > room then Inl NSERROR_INVALID else Inr (out @ line_bytes s, room - (length s + 1)))"

text \<open>
  \<^verbatim>\<open>nsc_sntimet\<close> also returns the length of the whole text, but the code only looks for 0. When the
  text does not fit, the room that is left becomes negative, and the next line is written to memory
  that is not the buffer's.
\<close>

definition put_time :: "int \<Rightarrow> out \<Rightarrow> out option" where
  "put_time t = (\<lambda>(out, room). let s = nsc_sntimet t in if length s + 1 > room then None else Some (out @ line_bytes s, room - (length s + 1)))"

fun put_headers :: "llcache_header list \<Rightarrow> out \<Rightarrow> out result" where
  "put_headers [] w = Inr w"
| "put_headers (h # hs) w =
     (case put_line (header_name h @ '':'' @ header_value h) w of Inl e \<Rightarrow> Inl e | Inr o1 \<Rightarrow> put_headers hs o1)"

definition put_der :: "8 word list option \<Rightarrow> out \<Rightarrow> out result" where
  "put_der der = (\<lambda>(out, room).
     case (case der of None \<Rightarrow> Inr [] | Some d \<Rightarrow> nsu_base64_encode d room) of
       Inl nsures \<Rightarrow> Inl NSERROR_INVALID
     | Inr enc \<Rightarrow> if length enc + 1 > room then Inl NSERROR_INVALID else Inr (out @ enc @ [0], room - (length enc + 1)))"

fun put_certs :: "cert list \<Rightarrow> out \<Rightarrow> out result" where
  "put_certs [] w = Inr w"
| "put_certs (c # certs) w =
     (case put_line (print_int (sint (cert_err c))) w of
        Inl e \<Rightarrow> Inl e
      | Inr o1 \<Rightarrow> (case put_der (cert_der c) o1 of Inl e \<Rightarrow> Inl e | Inr o2 \<Rightarrow> put_certs certs o2))"

definition chain_certificates :: "cert_chain option \<Rightarrow> cert list" where
  "chain_certificates ch = (case ch of None \<Rightarrow> [] | Some c \<Rightarrow> take (chain_depth c) (chain_certs c))"

definition metadata_room :: "llcache_object \<Rightarrow> nat" where
  "metadata_room object =
     5 * (10 + 1) + (\<Sum>h \<leftarrow> headers object. length (header_name h) + 1 + (length (header_value h) + 1)) +
     (url_length (obj_url object) + 1) + (10 + 1) +
     (\<Sum>c \<leftarrow> chain_certificates (chain object). (10 + 1) + 4 * ((der_length c + 2) div 3))"

definition llcache_serialise_metadata :: "llcache_object \<Rightarrow> mem \<Rightarrow> (8 word list result \<times> mem) option" where
  "llcache_serialise_metadata object m =
     (case malloc m of (ok, m1) \<Rightarrow>
        if \<not> ok then Some (Inl NSERROR_NOMEM, m1)
        else (let fail = (\<lambda>e. Some (Inl e, free_block m1)); certs = chain_certificates (chain object) in
          case put_line (url_string (obj_url object)) ([], metadata_room object) of Inl e \<Rightarrow> fail e | Inr o1 \<Rightarrow>
         (case put_line (print_nat (source_len object)) o1 of Inl e \<Rightarrow> fail e | Inr o2 \<Rightarrow>
         (case put_time (req_time (cache object)) o2 of None \<Rightarrow> None | Some o3 \<Rightarrow>
         (case put_time (res_time (cache object)) o3 of None \<Rightarrow> None | Some o4 \<Rightarrow>
         (case put_time (fin_time (cache object)) o4 of None \<Rightarrow> None | Some o5 \<Rightarrow>
         (case put_line (print_nat (length (headers object))) o5 of Inl e \<Rightarrow> fail e | Inr o6 \<Rightarrow>
         (case put_headers (headers object) o6 of Inl e \<Rightarrow> fail e | Inr o7 \<Rightarrow>
         (case put_line (print_nat (length certs)) o7 of Inl e \<Rightarrow> fail e | Inr o8 \<Rightarrow>
         (case put_certs certs o8 of Inl e \<Rightarrow> fail e | Inr (out, room) \<Rightarrow> Some (Inr out, m1)))))))))))"

section \<open>Reading\<close>

definition read_line :: "8 word list \<Rightarrow> (string \<times> 8 word list) option" where
  "read_line data = (if 0 \<in> set data then Some (text_of (takeWhile (\<lambda>b. b \<noteq> 0) data), tl (dropWhile (\<lambda>b. b \<noteq> 0) data)) else None)"

text \<open>What a stage of the reader returns: undefined, an error, or a value to go on with.\<close>

type_synonym 'a stage = "'a result option"

definition bind_stage :: "'a stage \<Rightarrow> ('a \<Rightarrow> 'b stage) \<Rightarrow> 'b stage" where
  "bind_stage r f = (case r of None \<Rightarrow> None | Some (Inl e) \<Rightarrow> Some (Inl e) | Some (Inr x) \<Rightarrow> f x)"

definition read_size :: "8 word list \<Rightarrow> (nat \<times> 8 word list) stage" where
  "read_size data =
     (case read_line data of
        None \<Rightarrow> None
      | Some (ln, rest) \<Rightarrow>
          if length ln < 1 then Some (Inl NSERROR_INVALID)
          else (case sscanf_size ln of None \<Rightarrow> Some (Inl NSERROR_INVALID) | Some n \<Rightarrow> Some (Inr (n, rest))))"

definition read_time :: "8 word list \<Rightarrow> (int \<times> 8 word list) stage" where
  "read_time data =
     (case read_line data of
        None \<Rightarrow> None
      | Some (ln, rest) \<Rightarrow> (case nsc_snptimet ln (length ln) of Inl e \<Rightarrow> Some (Inl e) | Inr t \<Rightarrow> Some (Inr (t, rest))))"

text \<open>The headers go straight into the object.\<close>

fun read_headers ::
  "(string \<Rightarrow> int) \<Rightarrow> int \<Rightarrow> nat \<Rightarrow> 8 word list \<Rightarrow> llcache_object \<Rightarrow> mem \<Rightarrow> (nserror \<times> llcache_object \<times> 8 word list \<times> mem) option" where
  "read_headers curl_getdate now 0 data object m = Some (NSERROR_OK, object, data, m)"
| "read_headers curl_getdate now (Suc n) data object m =
     (case read_line data of
        None \<Rightarrow> None
      | Some (ln, rest) \<Rightarrow>
          (case llcache_fetch_process_header curl_getdate now object ln (length ln) m of
             None \<Rightarrow> None
           | Some (res, object1, m1) \<Rightarrow>
               if res \<noteq> NSERROR_OK then Some (res, object1, rest, m1)
               else read_headers curl_getdate now n rest object1 m1))"

text \<open>\<^verbatim>\<open>sscanf\<close> with \<^verbatim>\<open>%d\<close>, and the error code that is stored for it.\<close>

definition sscanf_int :: "string \<Rightarrow> int option" where
  "sscanf_int str = (case scan_int str of
     None \<Rightarrow> None
   | Some i \<Rightarrow> Some (to_int (if i < - (2 ^ 63) then - (2 ^ 63) else if i \<ge> 2 ^ 63 then 2 ^ 63 - 1 else i)))"

definition stored_err :: "int \<Rightarrow> 32 word" where
  "stored_err errcode =
     (if word_of_int errcode < SSL_CERT_ERR_OK \<or> word_of_int errcode > SSL_CERT_ERR_MAX_KNOWN then SSL_CERT_ERR_UNKNOWN
      else word_of_int errcode)"

definition set_cert :: "nat \<Rightarrow> cert \<Rightarrow> cert_chain \<Rightarrow> cert_chain" where
  "set_cert k c ch = ch\<lparr>chain_certs := (chain_certs ch)[k := c]\<rparr>"

definition read_cert ::
  "8 word list \<Rightarrow> nat \<Rightarrow> 8 word list \<Rightarrow> cert_chain \<Rightarrow> mem \<Rightarrow> (nserror \<times> cert_chain \<times> 8 word list \<times> mem) option" where
  "read_cert metadata k data ch m =
     (case read_line data of
        None \<Rightarrow> None
      | Some (ln, rest) \<Rightarrow>
          if length ln < 1 then Some (NSERROR_INVALID, ch, rest, m)
          else (case sscanf_int ln of
              None \<Rightarrow> Some (NSERROR_INVALID, ch, rest, m)
            | Some errcode \<Rightarrow>
                (let c = \<lparr>cert_err = stored_err errcode, cert_der = cert_der (chain_certs ch ! k)\<rparr> in
                 case read_line rest of
                   None \<Rightarrow> None
                 | Some (ln, rest2) \<Rightarrow>
                     if length ln > 0 then
                       (case nsu_base64_decode_alloc metadata (length metadata - length rest) (length ln) m of
                          None \<Rightarrow> None
                        | Some (Inl nsures, m1) \<Rightarrow> Some (NSERROR_NOMEM, set_cert k c ch, rest2, m1)
                        | Some (Inr der, m1) \<Rightarrow> Some (NSERROR_OK, set_cert k (c\<lparr>cert_der := Some der\<rparr>) ch, rest2, m1))
                     else Some (NSERROR_OK, set_cert k c ch, rest2, m))))"

fun read_certs ::
  "8 word list \<Rightarrow> nat \<Rightarrow> nat \<Rightarrow> 8 word list \<Rightarrow> cert_chain \<Rightarrow> mem \<Rightarrow> (nserror \<times> cert_chain \<times> mem) option" where
  "read_certs metadata k 0 data ch m = Some (NSERROR_OK, ch, m)"
| "read_certs metadata k (Suc n) data ch m =
     (case read_cert metadata k data ch m of
        None \<Rightarrow> None
      | Some (res, ch1, rest, m1) \<Rightarrow>
          if res \<noteq> NSERROR_OK then Some (res, ch1, m1) else read_certs metadata (k + 1) n rest ch1 m1)"

text \<open>The certificates are missing in metadata that end after the headers.\<close>

definition read_chain :: "8 word list \<Rightarrow> 8 word list \<Rightarrow> mem \<Rightarrow> (cert_chain option result \<times> mem) option" where
  "read_chain metadata data m =
     (if data = [] then Some (Inr None, m)
      else (case read_size data of
          None \<Rightarrow> None
        | Some (Inl e) \<Rightarrow> Some (Inl e, m)
        | Some (Inr (ssl_cert_count, rest)) \<Rightarrow>
            if ssl_cert_count = 0 then Some (Inr None, m)
            else if ssl_cert_count > MAX_CERT_DEPTH then Some (Inl NSERROR_INVALID, m)
            else (case cert_chain_alloc ssl_cert_count m of
                (Inl res, m1) \<Rightarrow> Some (Inl res, m1)
              | (Inr ch, m1) \<Rightarrow>
                  (case read_certs metadata 0 ssl_cert_count rest ch m1 of
                     None \<Rightarrow> None
                   | Some (res, ch1, m2) \<Rightarrow>
                       if res \<noteq> NSERROR_OK then Some (Inl res, cert_chain_free (Some ch1) m2) else Some (Inr (Some ch1), m2)))))"

definition check_url :: "nsurl \<Rightarrow> string \<Rightarrow> mem \<Rightarrow> (nserror \<times> mem) option" where
  "check_url url ln m =
     (if length ln < 7 then Some (NSERROR_INVALID, m)
      else (case nsurl_create ln m of
          None \<Rightarrow> None
        | Some (Inl res, m1) \<Rightarrow> Some (res, m1)
        | Some (Inr metadataurl, m1) \<Rightarrow>
            Some (if nsurl_compare url metadataurl NSURL_COMPLETE then NSERROR_OK else NSERROR_BAD_URL,
                  snd (nsurl_unref metadataurl m1))))"

definition read_numbers :: "8 word list \<Rightarrow> (nat \<times> int \<times> int \<times> int \<times> nat \<times> 8 word list) stage" where
  "read_numbers data =
     bind_stage (read_size data) (\<lambda>(source_length, d1).
     bind_stage (read_time d1) (\<lambda>(request_time, d2).
     bind_stage (read_time d2) (\<lambda>(response_time, d3).
     bind_stage (read_time d3) (\<lambda>(completion_time, d4).
     bind_stage (read_size d4) (\<lambda>(num_headers, d5).
       Some (Inr (source_length, request_time, response_time, completion_time, num_headers, d5)))))))"

definition process_lines ::
  "(string \<Rightarrow> int) \<Rightarrow> int \<Rightarrow> llcache_object \<Rightarrow> 8 word list \<Rightarrow> mem \<Rightarrow>
     (nserror \<times> llcache_object \<times> mem) option" where
  "process_lines curl_getdate now object metadata m =
     (case read_line metadata of
        None \<Rightarrow> None
      | Some (ln, data) \<Rightarrow>
     (case check_url (obj_url object) ln m of
        None \<Rightarrow> None
      | Some (res, m1) \<Rightarrow>
     if res \<noteq> NSERROR_OK then Some (res, object, m1)
     else
     (case read_numbers data of
        None \<Rightarrow> None
      | Some (Inl res) \<Rightarrow> Some (res, object, m1)
      | Some (Inr (source_length, request_time, response_time, completion_time, num_headers, data1)) \<Rightarrow>
     (case read_headers curl_getdate now num_headers data1 object m1 of
        None \<Rightarrow> None
      | Some (res, object1, data2, m2) \<Rightarrow>
     if res \<noteq> NSERROR_OK then Some (res, object1, m2)
     else
     (case read_chain metadata data2 m2 of
        None \<Rightarrow> None
      | Some (Inl res, m3) \<Rightarrow> Some (res, object1, m3)
      | Some (Inr ch, m3) \<Rightarrow>
          Some (NSERROR_OK,
            object1\<lparr>source_len := source_length, source_alloc := length metadata,
              cache := (cache object1)\<lparr>req_time := request_time, res_time := response_time, fin_time := completion_time\<rparr>,
              chain := ch, store_state := LLCACHE_STATE_DISC\<rparr>, m3))))))"

definition llcache_process_metadata ::
  "(nsurl \<Rightarrow> 8 word \<Rightarrow> 's \<Rightarrow> 8 word list result \<times> 's) \<Rightarrow> (nsurl \<Rightarrow> 8 word \<Rightarrow> 's \<Rightarrow> nserror \<times> 's) \<Rightarrow>
     (string \<Rightarrow> int) \<Rightarrow> int \<Rightarrow> llcache_object \<Rightarrow> 's \<Rightarrow> mem \<Rightarrow>
     (nserror \<times> llcache_object \<times> 's \<times> mem) option" where
  "llcache_process_metadata bs_fetch bs_release curl_getdate now object s m =
     (case bs_fetch (obj_url object) BACKING_STORE_META s of
        (Inl res, s1) \<Rightarrow> Some (res, object, s1, m)
      | (Inr metadata, s1) \<Rightarrow>
          (case process_lines curl_getdate now object metadata m of
             None \<Rightarrow> None
           | Some (res, object1, m1) \<Rightarrow> Some (res, object1, snd (bs_release (obj_url object) BACKING_STORE_META s1), m1)))"

section \<open>Lines\<close>

lemma unat_of_char: "unat (of_char c :: 8 word) = of_char c"
proof -
  have "unat (of_nat (of_char c :: nat) :: 8 word) = of_char c"
    using nat_of_char_less_256 [of c] by (simp only: unat_of_nat) (simp add: take_bit_nat_eq_self)
  then show ?thesis
    by (simp only: of_nat_of_char)
qed

lemma text_bytes [simp]: "text_of (bytes_of s) = s"
  by (simp add: text_of_def bytes_of_def comp_def map_idI unat_of_char)

lemma bytes_no_zero: "cstring s \<Longrightarrow> 0 \<notin> set (bytes_of s)"
proof
  assume "cstring s" "0 \<in> set (bytes_of s)"
  then obtain c where c: "c \<in> set s" "of_char c = (0 :: 8 word)"
    by (auto simp: bytes_of_def)
  then have "(of_char c :: nat) = 0"
    using unat_of_char [of c] by simp
  then have "(of_char c :: nat) = of_char NUL"
    by simp
  then have "c = NUL"
    by (simp only: of_char_eq_iff)
  then show False
    using c(1) \<open>cstring s\<close> by (simp add: cstring_def)
qed

lemma read_line_bytes [simp]: "cstring s \<Longrightarrow> read_line (line_bytes s @ rest) = Some (s, rest)"
proof -
  assume "cstring s"
  then have no: "\<forall>b \<in> set (bytes_of s). b \<noteq> 0"
    using bytes_no_zero by metis
  have "takeWhile (\<lambda>b. b \<noteq> 0) (bytes_of s @ 0 # rest) = bytes_of s" "dropWhile (\<lambda>b. b \<noteq> 0) (bytes_of s @ 0 # rest) = 0 # rest"
    using no takeWhile_append_stop [OF no, of "0 # rest"] dropWhile_append_stop [OF no, of "0 # rest"] by simp_all
  then show ?thesis
    by (simp add: read_line_def line_bytes_def)
qed

lemma line_length [simp]: "length (line_bytes s) = length s + 1"
  by (simp add: line_bytes_def)

lemma put_line_ok: "put_line s (out, length (line_bytes s) + r) = Inr (out @ line_bytes s, r)"
  by (simp add: put_line_def)

lemma put_time_ok: "put_time t (out, length (line_bytes (nsc_sntimet t)) + r) = Some (out @ line_bytes (nsc_sntimet t), r)"
  by (simp add: put_time_def Let_def)

text \<open>What is written for the headers, the certificates and the object.\<close>

definition header_lines :: "llcache_header list \<Rightarrow> 8 word list" where
  "header_lines hs = concat (map (\<lambda>h. line_bytes (header_line h)) hs)"

definition der_bytes :: "8 word list option \<Rightarrow> 8 word list" where
  "der_bytes der = (case der of None \<Rightarrow> [] | Some d \<Rightarrow> standard.padded d)"

definition cert_line :: "cert \<Rightarrow> 8 word list" where
  "cert_line c = line_bytes (print_int (sint (cert_err c))) @ der_bytes (cert_der c) @ [0]"

definition cert_lines :: "cert list \<Rightarrow> 8 word list" where
  "cert_lines certs = concat (map cert_line certs)"

lemma lines_simps [simp]:
  "header_lines [] = []" "header_lines (h # hs) = line_bytes (header_line h) @ header_lines hs"
  "cert_lines [] = []" "cert_lines (c # certs) = cert_line c @ cert_lines certs"
  by (simp_all add: header_lines_def cert_lines_def)

definition metadata_of :: "llcache_object \<Rightarrow> 8 word list" where
  "metadata_of obj =
     line_bytes (url_string (obj_url obj)) @ line_bytes (print_nat (source_len obj)) @
     line_bytes (nsc_sntimet (req_time (cache obj))) @ line_bytes (nsc_sntimet (res_time (cache obj))) @
     line_bytes (nsc_sntimet (fin_time (cache obj))) @ line_bytes (print_nat (length (headers obj))) @
     header_lines (headers obj) @ line_bytes (print_nat (length (chain_certificates (chain obj)))) @
     cert_lines (chain_certificates (chain obj))"

lemma put_headers_ok: "put_headers hs (out, length (header_lines hs) + r) = Inr (out @ header_lines hs, r)"
proof (induction hs arbitrary: out)
  case (Cons h hs)
  then show ?case
    using put_line_ok [of "header_line h" out "length (header_lines hs) + r"] by (simp add: header_line_def add.assoc)
qed simp

lemma put_der_ok: "put_der der (out, length (der_bytes der) + 1 + r) = Inr (out @ der_bytes der @ [0], r)"
  by (cases der) (simp_all add: put_der_def der_bytes_def nsu_base64_encode_def standard.encode_padded standard.padded_length)

lemma put_certs_ok: "put_certs certs (out, length (cert_lines certs) + r) = Inr (out @ cert_lines certs, r)"
proof (induction certs arbitrary: out)
  case (Cons c certs)
  let ?err = "print_int (sint (cert_err c))"
  have "length (cert_lines (c # certs)) + r = length (line_bytes ?err) + (length (der_bytes (cert_der c)) + 1 + (length (cert_lines certs) + r))"
    by (simp add: cert_line_def)
  then show ?case
    by (simp only: put_certs.simps put_line_ok put_der_ok Cons.IH sum.case lines_simps cert_line_def append_assoc)
qed simp

section \<open>Writing succeeds\<close>

text \<open>Objects whose numbers have the number of digits for which the code leaves room.\<close>

definition small :: "int \<Rightarrow> bool" where
  "small i \<longleftrightarrow> 0 \<le> i \<and> i < 10 ^ 10"

definition writable :: "llcache_object \<Rightarrow> bool" where
  "writable obj \<longleftrightarrow>
     length (url_string (obj_url obj)) \<le> url_length (obj_url obj) \<and> source_len obj < 10 ^ 10 \<and>
     small (req_time (cache obj)) \<and> small (res_time (cache obj)) \<and> small (fin_time (cache obj)) \<and>
     length (headers obj) < 10 ^ 10 \<and> length (chain_certificates (chain obj)) < 10 ^ 10 \<and>
     (\<forall>c \<in> set (chain_certificates (chain obj)). cert_err c \<le> SSL_CERT_ERR_MAX_KNOWN)"

lemma small_length: "small t \<Longrightarrow> length (nsc_sntimet t) \<le> 10"
  using print_nat_length [of "nat t" 10] by (simp add: small_def nsc_sntimet_def print_int_def nat_less_iff)

lemma known_err:
  assumes "e \<le> SSL_CERT_ERR_MAX_KNOWN"
  shows "sint e = uint e" and "sint e \<le> 9" and "0 \<le> sint e" and "length (print_int (sint e)) \<le> 1"
proof -
  have e: "uint e \<le> 9"
    using assms by (simp add: SSL_CERT_ERR_MAX_KNOWN_def word_le_def)
  have pos: "0 \<le> uint e"
    by (rule uint_ge_0)
  have "uint e < 2 ^ 31"
    using e by simp
  moreover have "- (2 ^ 31) \<le> uint e"
    by (rule order_trans [OF _ pos]) simp
  ultimately have "signed_take_bit 31 (uint e) = uint e"
    by (rule signed_take_bit_int_eq_self [rotated])
  then show s: "sint e = uint e"
    by (simp add: sint_uint)
  show "sint e \<le> 9" "0 \<le> sint e"
    using e pos unfolding s by simp_all
  then show "length (print_int (sint e)) \<le> 1"
    using print_nat_length [of "nat (sint e)" 1] by (simp add: print_int_def)
qed

lemma header_lines_length: "length (header_lines hs) \<le> (\<Sum>h \<leftarrow> hs. length (header_name h) + 1 + (length (header_value h) + 1))"
  by (induction hs) (simp_all add: header_line_def)

lemma cert_lines_length:
  "\<forall>c \<in> set certs. cert_err c \<le> SSL_CERT_ERR_MAX_KNOWN \<Longrightarrow>
     length (cert_lines certs) \<le> (\<Sum>c \<leftarrow> certs. (10 + 1) + 4 * ((der_length c + 2) div 3))"
proof (induction certs)
  case (Cons c certs)
  have "length (der_bytes (cert_der c)) = 4 * ((der_length c + 2) div 3)"
    by (simp add: der_bytes_def der_length_def standard.padded_length split: option.split)
  then show ?case
    using Cons known_err(4) [of "cert_err c"] by (simp add: cert_line_def)
qed simp

lemma metadata_fits:
  assumes "writable obj"
  shows "length (metadata_of obj) \<le> metadata_room obj"
proof -
  have numbers: "length (print_nat (source_len obj)) \<le> 10" "length (print_nat (length (headers obj))) \<le> 10"
      "length (print_nat (length (chain_certificates (chain obj)))) \<le> 10"
    using assms by (auto simp: writable_def intro!: print_nat_length)
  moreover have "length (nsc_sntimet (req_time (cache obj))) \<le> 10" "length (nsc_sntimet (res_time (cache obj))) \<le> 10"
      "length (nsc_sntimet (fin_time (cache obj))) \<le> 10"
    using assms by (auto simp: writable_def intro!: small_length)
  ultimately show ?thesis
    using assms header_lines_length [of "headers obj"] cert_lines_length [of "chain_certificates (chain obj)"]
    by (simp add: metadata_of_def metadata_room_def writable_def)
qed

lemma serialise_writes:
  assumes "writable obj" and "malloc m = (True, m1)"
  shows "llcache_serialise_metadata obj m = Some (Inr (metadata_of obj), m1)"
proof -
  obtain r where "metadata_room obj = length (metadata_of obj) + r"
    using metadata_fits [OF assms(1)] le_Suc_ex by blast
  then have room: "metadata_room obj =
     length (line_bytes (url_string (obj_url obj))) + (length (line_bytes (print_nat (source_len obj))) +
     (length (line_bytes (nsc_sntimet (req_time (cache obj)))) + (length (line_bytes (nsc_sntimet (res_time (cache obj)))) +
     (length (line_bytes (nsc_sntimet (fin_time (cache obj)))) + (length (line_bytes (print_nat (length (headers obj)))) +
     (length (header_lines (headers obj)) + (length (line_bytes (print_nat (length (chain_certificates (chain obj))))) +
     (length (cert_lines (chain_certificates (chain obj))) + r))))))))"
    by (simp add: metadata_of_def)
  show ?thesis
    unfolding llcache_serialise_metadata_def assms(2) Let_def prod.case room
    by (simp only: put_line_ok put_time_ok put_headers_ok put_certs_ok sum.case option.case prod.case simp_thms if_False
        metadata_of_def append_Nil append_assoc)
qed

section \<open>Reading what was written\<close>

lemma cstring_print [simp]: "cstring (print_nat n)" "cstring (print_int i)"
  using print_nat_digits [of n] print_int_chars [of NUL i] by (auto simp: cstring_def is_digit_def)

lemma read_size_ok: "n < 2 ^ 64 \<Longrightarrow> read_size (line_bytes (print_nat n) @ rest) = Some (Inr (n, rest))"
proof -
  assume "n < 2 ^ 64"
  moreover have "scan_int (print_nat n) = Some (int n)"
    using scan_print_nat [of "[]" n] by simp
  moreover have "length (print_nat n) > 0"
    using print_nat_not_Nil by blast
  ultimately show ?thesis
    by (simp add: read_size_def sscanf_size_def nat_mod_distrib)
qed

lemma read_time_ok:
  assumes "small t"
  shows "read_time (line_bytes (nsc_sntimet t) @ rest) = Some (Inr (t, rest))"
proof -
  have "nsc_sntimet t \<noteq> []"
    using assms by (simp add: nsc_sntimet_def print_int_def small_def)
  then have "nsc_snptimet (nsc_sntimet t) (length (nsc_sntimet t)) = Inr t"
    using assms by (intro nsc_time_roundtrip) (auto simp: small_def)
  then show ?thesis
    by (simp add: read_time_def) (simp add: nsc_sntimet_def)
qed

text \<open>Headers that are read back as they are.\<close>

definition header_ok :: "llcache_header \<Rightarrow> bool" where
  "header_ok h \<longleftrightarrow> header_clean h \<and> length (header_line h) < 2 ^ 63 \<and> age_fits (header_name h) (header_value h)"

definition status_line :: "llcache_header \<Rightarrow> bool" where
  "status_line h \<longleftrightarrow> take 5 (header_line h) = ''HTTP/''"

definition headers_ok :: "llcache_header list \<Rightarrow> bool" where
  "headers_ok hs \<longleftrightarrow> (\<forall>h \<in> set hs. header_ok h) \<and> (\<forall>h \<in> set (tl hs). \<not> status_line h)"

lemma header_line_cstring: "header_ok h \<Longrightarrow> cstring (header_line h)"
  by (simp add: header_ok_def header_clean_def header_line_def)

lemma process_header_line:
  assumes h: "header_ok h" and m: "plenty m" and status: "status_line h \<longrightarrow> headers obj = []"
  shows "\<exists>cd m'. llcache_fetch_process_header curl_getdate now obj (header_line h) (length (header_line h)) m =
    Some (NSERROR_OK, obj\<lparr>cache := cd, headers := headers obj @ [h]\<rparr>, m') \<and> plenty m'"
proof -
  define reset where "reset = (if take 5 (header_line h) = ''HTTP/'' then
               (case llcache_invalidate_cache_control_data obj m of (o1, ma) \<Rightarrow>
                  llcache_destroy_headers (o1\<lparr>cache := (cache o1)\<lparr>req_time := req_time (cache obj)\<rparr>\<rparr>) ma)
             else (obj, m))"
  obtain cd1 m1 where reset1: "reset = (obj\<lparr>cache := cd1\<rparr>, m1)" and m1: "plenty m1"
  proof (cases "status_line h")
    case True
    then have "headers obj = []"
      using status by simp
    then have "obj\<lparr>cache := cd, headers := []\<rparr> = obj\<lparr>cache := cd\<rparr>" for cd
      by (cases obj) simp
    then show ?thesis
      using that [of "zero_cache_control\<lparr>age := INVALID_AGE, max_age := INVALID_AGE, req_time := req_time (cache obj)\<rparr>"] True m
      \<open>headers obj = []\<close>
      by (simp add: reset_def status_line_def llcache_invalidate_cache_control_data_def llcache_destroy_headers_def)
  next
    case False
    then have "reset = (obj\<lparr>cache := cache obj\<rparr>, m)"
      by (simp add: reset_def status_line_def)
    then show ?thesis
      using that m by blast
  qed
  define obj2 where "obj2 = (if res_time (cache (obj\<lparr>cache := cd1\<rparr>)) = 0
      then obj\<lparr>cache := cd1, cache := (cache (obj\<lparr>cache := cd1\<rparr>))\<lparr>res_time := now\<rparr>\<rparr> else obj\<lparr>cache := cd1\<rparr>)"
  obtain cd2 where obj2: "obj2 = obj\<lparr>cache := cd2\<rparr>"
    by (cases "res_time cd1 = 0") (simp_all add: obj2_def)
  obtain m2 where split: "llcache_fetch_split_header (header_line h) (length (header_line h)) m1 =
      Some (Inr (header_name h, header_value h), m2)" "plenty m2"
    using split_header_line [OF _ _ m1, of h] h by (auto simp: header_ok_def)
  obtain cd m3 where cd: "llcache_fetch_header_cache_control curl_getdate (cache obj2) (header_name h) (header_value h) m2 =
      Some (NSERROR_OK, cd, m3)" "plenty m3"
    using header_cache_control_books [of "header_name h" "header_value h" curl_getdate "cache obj2" m2] h split(2)
    by (auto simp: header_ok_def)
  obtain ok m4 where alloc: "(if headers obj = [] then malloc m3 else mem_next m3) = (ok, m4)"
    by (rule prod.exhaust)
  have ok: "ok" "plenty m4"
    using alloc malloc_plenty [of m3 ok m4] mem_next_plenty [of m3 ok m4] cd(2) by (auto split: if_splits)
  have app: "append_header (obj2\<lparr>cache := cd\<rparr>) \<lparr>header_name = header_name h, header_value = header_value h\<rparr> m3 =
      (NSERROR_OK, obj\<lparr>cache := cd, headers := headers obj @ [h]\<rparr>, m4)"
    using alloc ok(1) by (simp add: append_header_def obj2)
  have "peek (header_name h) \<noteq> NUL"
    using h by (cases "header_name h") (auto simp: header_ok_def header_clean_def)
  then show ?thesis
    unfolding llcache_fetch_process_header_def reset_def [symmetric] reset1 Let_def prod.case obj2_def [symmetric] split(1) option.case
      sum.case cd(1) app using ok(2) by (intro exI [of _ cd] exI [of _ m4]) simp
qed

lemma read_headers_ok:
  "\<forall>h \<in> set hs. header_ok h \<Longrightarrow> (\<forall>h \<in> set (tl hs). \<not> status_line h) \<Longrightarrow> (headers obj \<noteq> [] \<longrightarrow> \<not> list_ex status_line hs) \<Longrightarrow> plenty m \<Longrightarrow>
     \<exists>cd m'. read_headers curl_getdate now (length hs) (header_lines hs @ rest) obj m =
       Some (NSERROR_OK, obj\<lparr>cache := cd, headers := headers obj @ hs\<rparr>, rest, m') \<and> plenty m'"
proof (induction hs arbitrary: obj m)
  case Nil
  then show ?case
    by (intro exI [of _ "cache obj"] exI [of _ m]) simp
next
  case (Cons h hs)
  obtain cd m1 where 1: "llcache_fetch_process_header curl_getdate now obj (header_line h) (length (header_line h)) m =
      Some (NSERROR_OK, obj\<lparr>cache := cd, headers := headers obj @ [h]\<rparr>, m1)" "plenty m1"
    using process_header_line [of h m obj curl_getdate now] Cons.prems by auto
  have "\<forall>h \<in> set (tl hs). \<not> status_line h" "\<not> list_ex status_line hs"
    using Cons.prems(2) by (cases hs; auto simp: list_ex_iff)+
  then obtain cd2 m2 where "read_headers curl_getdate now (length hs) (header_lines hs @ rest) (obj\<lparr>cache := cd, headers := headers obj @ [h]\<rparr>) m1 =
      Some (NSERROR_OK, obj\<lparr>cache := cd2, headers := headers obj @ h # hs\<rparr>, rest, m2)" "plenty m2"
    using Cons.IH [of "obj\<lparr>cache := cd, headers := headers obj @ [h]\<rparr>" m1] Cons.prems(1) 1(2) by auto
  then show ?case
    using 1(1) header_line_cstring [of h] Cons.prems(1) by (intro exI [of _ cd2] exI [of _ m2]) simp
qed


lemma standard_alphabet: "0 \<notin> insert pad (set b64_encoding_table)" "length b64_encoding_table = 64"
  by code_simp+

lemma standard_digits: "set (standard.digits a b c ks) \<subseteq> set b64_encoding_table"
  using sextet_less [of a b c] by (auto simp: standard.digits_def standard_alphabet(2))

lemma standard_padded: "set (standard.padded der) \<subseteq> insert pad (set b64_encoding_table)"
  using standard_digits by (induction der rule: standard.padded.induct) (auto dest!: subsetD [OF standard_digits])

lemma der_line: "der_bytes der @ [0] = line_bytes (text_of (der_bytes der))" "cstring (text_of (der_bytes der))"
proof -
  show "der_bytes der @ [0] = line_bytes (text_of (der_bytes der))"
    by (simp add: line_bytes_def)
  have "0 \<notin> set (der_bytes der)"
    using standard_padded [of "the der"] standard_alphabet(1) by (cases der) (auto simp: der_bytes_def)
  then show "cstring (text_of (der_bytes der))"
    using text_of_char [of NUL "der_bytes der"] by (simp add: cstring_def)
qed

definition cert_storable :: "cert \<Rightarrow> bool" where
  "cert_storable c \<longleftrightarrow> cert_err c \<le> SSL_CERT_ERR_MAX_KNOWN \<and> (\<forall>der \<in> set_option (cert_der c). der \<noteq> [] \<and> length der < 2 ^ 60)"

definition partial_chain :: "nat \<Rightarrow> cert list \<Rightarrow> cert_chain" where
  "partial_chain depth certs = \<lparr>chain_depth = depth, chain_certs = certs @ replicate (MAX_CERT_DEPTH - length certs) no_cert\<rparr>"

lemma set_cert_next: "length seen < MAX_CERT_DEPTH \<Longrightarrow> set_cert (length seen) c (partial_chain n seen) = partial_chain n (seen @ [c])"
  by (cases "MAX_CERT_DEPTH - length seen")
    (auto simp: set_cert_def partial_chain_def list_update_append Suc_diff_le diff_Suc split: nat.splits)

lemma sscanf_int_err: "cert_err c \<le> SSL_CERT_ERR_MAX_KNOWN \<Longrightarrow> sscanf_int (print_int (sint (cert_err c))) = Some (sint (cert_err c))"
  using known_err(2,3) [of "cert_err c"] scan_print_int [of "sint (cert_err c)"] by (simp add: sscanf_int_def to_int_fits fits_int_def)

lemma stored_err_same: "e \<le> SSL_CERT_ERR_MAX_KNOWN \<Longrightarrow> stored_err (sint e) = e"
  by (simp add: stored_err_def SSL_CERT_ERR_OK_def leD)

lemma read_cert_ok:
  assumes c: "cert_storable c" and room: "length seen < MAX_CERT_DEPTH" and m: "plenty m"
    and metadata: "metadata = front @ cert_line c @ rest"
  shows "\<exists>m'. read_cert metadata (length seen) (cert_line c @ rest) (partial_chain n seen) m =
    Some (NSERROR_OK, partial_chain n (seen @ [c]), rest, m') \<and> plenty m'"
proof -
  let ?err = "print_int (sint (cert_err c))" and ?der = "text_of (der_bytes (cert_der c))"
  have line1: "read_line (cert_line c @ rest) = Some (?err, line_bytes ?der @ rest)"
    unfolding cert_line_def append_assoc der_line(1) [symmetric] by simp
  have err: "sscanf_int ?err = Some (sint (cert_err c))" "stored_err (sint (cert_err c)) = cert_err c" "\<not> length ?err < 1"
    using c sscanf_int_err [of c] stored_err_same [of "cert_err c"] by (auto simp: cert_storable_def print_int_def print_nat_not_Nil)
  have line2: "read_line (line_bytes ?der @ rest) = Some (?der, rest)"
    by (rule read_line_bytes) (rule der_line(2))
  have start: "length metadata - length (line_bytes ?der @ rest) = length (front @ line_bytes ?err)"
    by (simp add: metadata cert_line_def)
  have none: "cert_der (chain_certs (partial_chain n seen) ! length seen) = None"
    using room by (simp add: partial_chain_def nth_append no_cert_def)
  have c_eq: "c = \<lparr>cert_err = cert_err c, cert_der = cert_der c\<rparr>"
    by simp
  note step = read_cert_def line1 option.case prod.case err none Let_def line2 if_False
  show ?thesis
  proof (cases "cert_der c")
    case None
    then have "\<not> length ?der > 0" "set_cert (length seen) \<lparr>cert_err = cert_err c, cert_der = None\<rparr> (partial_chain n seen) = partial_chain n (seen @ [c])"
      using set_cert_next [OF room, of c n] c_eq unfolding None by (simp_all add: der_bytes_def text_of_def)
    then show ?thesis
      unfolding step using m err(3) by simp
  next
    case (Some der)
    have der: "der \<noteq> []" "length der < 2 ^ 60"
      using c Some by (simp_all add: cert_storable_def)
    have buf: "metadata = (front @ line_bytes ?err) @ standard.padded der @ ([0] @ rest)"
      by (simp add: metadata cert_line_def der_bytes_def Some)
    have "standard.padded der \<noteq> []"
      using der(1) standard.padded_length [of der] by (cases der) auto
    then have len: "length ?der > 0" "length ?der = length (standard.padded der)"
      by (simp_all add: der_bytes_def Some)
    obtain m1 where dec: "nsu_base64_decode_alloc metadata (length (front @ line_bytes ?err)) (length ?der) m = Some (Inr der, m1)" "plenty m1"
      using standard.round_trip [OF der _ m, of "length (standard.padded der)" "standard.padded der" "front @ line_bytes ?err" "[0] @ rest"]
      unfolding buf len(2) nsu_base64_decode_alloc_def by (auto simp: standard.encode_padded standard.padded_length)
    have "set_cert (length seen) (\<lparr>cert_err = cert_err c, cert_der = None\<rparr>\<lparr>cert_der := Some der\<rparr>) (partial_chain n seen) = partial_chain n (seen @ [c])"
      using set_cert_next [OF room, of c n] c_eq unfolding Some by simp
    then show ?thesis
      unfolding step start dec(1) using len(1) dec(2) err(3) by simp
  qed
qed

lemma read_certs_ok:
  "\<forall>c \<in> set certs. cert_storable c \<Longrightarrow> length seen + length certs \<le> MAX_CERT_DEPTH \<Longrightarrow> plenty m \<Longrightarrow> metadata = front @ cert_lines certs \<Longrightarrow>
     \<exists>m'. read_certs metadata (length seen) (length certs) (cert_lines certs) (partial_chain n seen) m =
       Some (NSERROR_OK, partial_chain n (seen @ certs), m') \<and> plenty m'"
proof (induction certs arbitrary: seen m front)
  case (Cons c certs)
  have "metadata = front @ cert_line c @ cert_lines certs" "length seen < MAX_CERT_DEPTH" "cert_storable c"
    using Cons.prems by simp_all
  then obtain m1 where 1: "read_cert metadata (length seen) (cert_line c @ cert_lines certs) (partial_chain n seen) m =
      Some (NSERROR_OK, partial_chain n (seen @ [c]), cert_lines certs, m1)" "plenty m1"
    using read_cert_ok [of c seen m metadata front "cert_lines certs" n] Cons.prems(3) by blast
  obtain m2 where "read_certs metadata (length (seen @ [c])) (length certs) (cert_lines certs) (partial_chain n (seen @ [c])) m1 =
      Some (NSERROR_OK, partial_chain n ((seen @ [c]) @ certs), m2)" "plenty m2"
    using Cons.IH [of "seen @ [c]" m1 "front @ cert_line c"] Cons.prems 1(2) by auto
  then show ?case
    using 1(1) by simp
qed simp

text \<open>Chains that come back: at least one certificate in the places that are in use, nothing behind them.\<close>

definition chain_storable :: "cert_chain option \<Rightarrow> bool" where
  "chain_storable ch \<longleftrightarrow> (case ch of None \<Rightarrow> True | Some c \<Rightarrow>
     (\<exists>certs. certs \<noteq> [] \<and> length certs \<le> MAX_CERT_DEPTH \<and> (\<forall>c \<in> set certs. cert_storable c) \<and> c = chain_of certs))"

lemma read_chain_ok:
  assumes "chain_storable ch" and "plenty m" and certs: "certs = chain_certificates ch"
    and metadata: "metadata = front @ line_bytes (print_nat (length certs)) @ cert_lines certs"
  shows "\<exists>m'. read_chain metadata (line_bytes (print_nat (length certs)) @ cert_lines certs) m = Some (Inr ch, m')"
proof -
  let ?data = "line_bytes (print_nat (length certs)) @ cert_lines certs"
  have data: "?data \<noteq> []"
    by (simp add: line_bytes_def)
  have len: "length certs \<le> MAX_CERT_DEPTH" "length certs = 0 \<longleftrightarrow> ch = None" "\<forall>c \<in> set certs. cert_storable c"
      "\<forall>c. ch = Some c \<longrightarrow> c = partial_chain (length certs) certs"
    using assms(1) by (auto simp: certs chain_storable_def chain_certificates_def chain_of_def partial_chain_def split: option.splits)
  have size: "read_size ?data = Some (Inr (length certs, cert_lines certs))"
    using len(1) by (intro read_size_ok) (simp add: MAX_CERT_DEPTH_def)
  obtain m1 where m1: "malloc m = (True, m1)" "plenty m1"
    by (rule malloc_ok [OF assms(2)])
  have "metadata = (front @ line_bytes (print_nat (length certs))) @ cert_lines certs"
    by (simp add: metadata)
  then obtain m2 where read: "read_certs metadata 0 (length certs) (cert_lines certs) (partial_chain (length certs) []) m1 =
      Some (NSERROR_OK, partial_chain (length certs) certs, m2)"
    using read_certs_ok [of certs "[]" m1 metadata _ "length certs"] len(1,3) m1(2) by fastforce
  have alloc: "cert_chain_alloc (length certs) m = (Inr (partial_chain (length certs) []), m1)"
    by (simp add: cert_chain_alloc_def m1(1) partial_chain_def)
  show ?thesis
  proof (cases ch)
    case None
    then show ?thesis
      using data len(2) size by (simp add: read_chain_def)
  next
    case (Some c)
    then show ?thesis
      using data len by (simp add: read_chain_def size alloc read not_less)
  qed
qed

text \<open>Objects that the metadata describe completely.\<close>

definition storable :: "llcache_object \<Rightarrow> bool" where
  "storable obj \<longleftrightarrow> writable obj \<and> cstring (url_string (obj_url obj)) \<and> 7 \<le> length (url_string (obj_url obj)) \<and>
     headers_ok (headers obj) \<and> chain_storable (chain obj)"

definition url_reparses :: "nsurl \<Rightarrow> mem \<Rightarrow> bool" where
  "url_reparses url m =
     (case nsurl_create (url_string url) m of
        Some (Inr u, m1) \<Rightarrow> nsurl_compare url u NSURL_COMPLETE \<and> plenty m1
      | _ \<Rightarrow> False)"

lemma component_plenty [simp]: "plenty (unref_component c m) = plenty m"
  by (cases c) (simp_all add: unref_component_def)

lemma unref_plenty [simp]: "plenty (snd (nsurl_unref u m)) = plenty m"
  by (simp add: nsurl_unref_def nsurl__components_destroy_def)

lemma check_url_ok:
  "url_reparses url m \<Longrightarrow> 7 \<le> length (url_string url) \<Longrightarrow>
     \<exists>m'. check_url url (url_string url) m = Some (NSERROR_OK, m') \<and> plenty m'"
  by (auto simp: url_reparses_def check_url_def split: option.splits prod.splits sum.splits)

lemma read_numbers_ok:
  assumes "writable obj"
  shows "read_numbers (line_bytes (print_nat (source_len obj)) @
     line_bytes (nsc_sntimet (req_time (cache obj))) @ line_bytes (nsc_sntimet (res_time (cache obj))) @
     line_bytes (nsc_sntimet (fin_time (cache obj))) @ line_bytes (print_nat (length (headers obj))) @ rest) =
   Some (Inr (source_len obj, req_time (cache obj), res_time (cache obj), fin_time (cache obj), length (headers obj), rest))"
  using assms by (simp add: read_numbers_def bind_stage_def writable_def read_size_ok read_time_ok)

lemma process_lines_ok:
  assumes "storable obj" and "url_reparses (obj_url obj) m"
  shows "\<exists>cd m'. process_lines curl_getdate now (new_object (obj_url obj)) (metadata_of obj) m =
    Some (NSERROR_OK, (new_object (obj_url obj))\<lparr>source_len := source_len obj, source_alloc := length (metadata_of obj),
      cache := cd\<lparr>req_time := req_time (cache obj), res_time := res_time (cache obj), fin_time := fin_time (cache obj)\<rparr>,
      headers := headers obj, chain := chain obj, store_state := LLCACHE_STATE_DISC\<rparr>, m')"
proof -
  let ?certs = "chain_certificates (chain obj)" and ?new = "new_object (obj_url obj)"
  let ?tail = "line_bytes (print_nat (length ?certs)) @ cert_lines ?certs"
  obtain front where metadata: "metadata_of obj = front @ ?tail"
    by (simp add: metadata_of_def)
  obtain m1 where 1: "check_url (obj_url obj) (url_string (obj_url obj)) m = Some (NSERROR_OK, m1)" "plenty m1"
    using check_url_ok [OF assms(2)] assms(1) by (auto simp: storable_def)
  obtain cd m2 where 2: "read_headers curl_getdate now (length (headers obj)) (header_lines (headers obj) @ ?tail) ?new m1 =
      Some (NSERROR_OK, ?new\<lparr>cache := cd, headers := headers obj\<rparr>, ?tail, m2)" "plenty m2"
    using read_headers_ok [of "headers obj" ?new m1 curl_getdate now ?tail] assms(1) 1(2)
    by (auto simp: storable_def headers_ok_def new_object_def)
  obtain m3 where 3: "read_chain (metadata_of obj) ?tail m2 = Some (Inr (chain obj), m3)"
    using read_chain_ok [OF _ 2(2) refl metadata] assms(1) by (auto simp: storable_def)
  have line: "read_line (metadata_of obj) = Some (url_string (obj_url obj),
     line_bytes (print_nat (source_len obj)) @
     line_bytes (nsc_sntimet (req_time (cache obj))) @ line_bytes (nsc_sntimet (res_time (cache obj))) @
     line_bytes (nsc_sntimet (fin_time (cache obj))) @ line_bytes (print_nat (length (headers obj))) @ header_lines (headers obj) @ ?tail)"
    unfolding metadata_of_def using assms(1) by (simp add: storable_def)
  have "obj_url ?new = obj_url obj" "writable obj"
    using assms(1) by (simp_all add: new_object_def storable_def)
  then show ?thesis
    by (intro exI [of _ cd] exI [of _ m3]) (simp add: process_lines_def line 1 read_numbers_ok 2 3)
qed

lemma new_object_url: "obj_url (new_object url) = url"
  by (simp add: new_object_def)

section \<open>Properties\<close>


definition example_stored :: llcache_object where
  "example_stored = (new_object (url_of ((null_components NSURL_SCHEME_HTTP)\<lparr>uc_scheme := Some ''http'', uc_host := Some ''ex.org'', uc_path := Some ''/''\<rparr>)))
     \<lparr>source_len := 5, cache := zero_cache_control\<lparr>req_time := 1000, res_time := 1001, fin_time := 1002\<rparr>,
      headers := [\<lparr>header_name = ''ETag'', header_value = ''x''\<rparr>], chain := Some (chain_of [\<lparr>cert_err = SSL_CERT_ERR_OK, cert_der = Some [1, 2]\<rparr>])\<rparr>"

lemma example_storable: "storable example_stored" "url_reparses (obj_url example_stored) (fresh_mem [])"
proof -
  have url: "url_string (obj_url example_stored) = ''http://ex.org/''" "url_length (obj_url example_stored) = 14"
    by code_simp+
  have "writable example_stored"
    unfolding writable_def url by (simp add: example_stored_def small_def chain_certificates_def chain_of_def SSL_CERT_ERR_OK_def SSL_CERT_ERR_MAX_KNOWN_def)
  moreover have "cstring (url_string (obj_url example_stored))" "7 \<le> length (url_string (obj_url example_stored))"
    unfolding url by (simp_all add: cstring_def)
  moreover have "header_clean \<lparr>header_name = ''ETag'', header_value = ''x''\<rparr>" "age_fits ''ETag'' ''x''"
    by code_simp+
  then have "headers_ok (headers example_stored)"
    by (simp add: headers_ok_def example_stored_def header_ok_def header_line_def)
  moreover have "chain_storable (chain example_stored)"
    by (auto simp: chain_storable_def example_stored_def cert_storable_def MAX_CERT_DEPTH_def SSL_CERT_ERR_OK_def
      intro!: exI [of _ "[\<lparr>cert_err = 0, cert_der = Some [1, 2]\<rparr>]"])
  ultimately show "storable example_stored"
    by (simp add: storable_def)
  show "url_reparses (obj_url example_stored) (fresh_mem [])"
    by code_simp
qed


text \<open>A missing certificate is written as 10 and read back as an unknown error: it lies behind the largest known code.\<close>

lemma missing_certificate_forgotten: "stored_err 10 = SSL_CERT_ERR_UNKNOWN"
  by code_simp

text \<open>
  Metadata with too many certificates are refused, but the headers before them already are in the
  object.
\<close>

definition spoilt_metadata :: "8 word list" where
  "spoilt_metadata = line_bytes ''http://ex.org/'' @ line_bytes ''5'' @ line_bytes ''1'' @ line_bytes ''2'' @ line_bytes ''3'' @
     line_bytes ''1'' @ line_bytes ''ETag:x'' @ line_bytes ''11''"

lemma refused_metadata_leave_headers:
  "(case process_lines (\<lambda>_. 0) 2000 (new_object (obj_url example_stored)) spoilt_metadata (fresh_mem []) of
      Some (res, obj1, m') \<Rightarrow> res = NSERROR_INVALID \<and> headers obj1 = [\<lparr>header_name = ''ETag'', header_value = ''x''\<rparr>] \<and>
        etag (cache obj1) = Some ''x''
    | None \<Rightarrow> False)"
  by code_simp

text \<open>Metadata that were cut off inside a line are read behind their end.\<close>

lemma truncated_metadata_read_outside:
  "0 \<notin> set metadata \<Longrightarrow> process_lines curl_getdate now object metadata m = None"
  by (simp add: process_lines_def read_line_def)

end
