(* ===== verification/Llcache_Heap.thy ===== *)
theory Llcache_Heap
  imports Llcache_Object "HOL-Library.Monad_Syntax"
begin

text \<open>
  \<^verbatim>\<open>src/content/llcache.c\<close>: the heap of objects, users and handles of the low-level cache, the
  operations on the users of an object and the part of the interface for clients that works on the
  handles they hold.

  The heap is three maps from addresses and the next free address. An operation is \<open>None\<close> when the
  code would follow a null or a dangling pointer, or break an assertion. The world outside the cache
  (clients, fetchers, backing store) is one value that the code it calls may change.
\<close>

section \<open>State\<close>

text \<open>The states of a fetch are compared as the numbers of the enumeration.\<close>

fun state_rank :: "llcache_fetch_state \<Rightarrow> nat" where
  "state_rank LLCACHE_FETCH_INIT = 0"
| "state_rank LLCACHE_FETCH_HEADERS = 1"
| "state_rank LLCACHE_FETCH_DATA = 2"
| "state_rank LLCACHE_FETCH_COMPLETE = 3"

instantiation llcache_fetch_state :: linorder
begin

definition less_eq_llcache_fetch_state :: "llcache_fetch_state \<Rightarrow> llcache_fetch_state \<Rightarrow> bool" where
  "less_eq_llcache_fetch_state s t = (state_rank s \<le> state_rank t)"

definition less_llcache_fetch_state :: "llcache_fetch_state \<Rightarrow> llcache_fetch_state \<Rightarrow> bool" where
  "less_llcache_fetch_state s t = (state_rank s < state_rank t)"

instance
proof
  fix s t :: llcache_fetch_state
  assume "s \<le> t" "t \<le> s"
  then show "s = t"
    by (cases s; cases t) (simp_all add: less_eq_llcache_fetch_state_def)
qed (auto simp: less_eq_llcache_fetch_state_def less_llcache_fetch_state_def)

end

text \<open>What the cache asks the front end to call later.\<close>

datatype scheduled_call = Catch_Up_All_Users | Persist | Persist_Slowcheck

record llcache_s =
  cached_objects :: "nat list"
  uncached_objects :: "nat list"
  limit :: "32 word"
  fetch_attempts :: "32 word"
  all_caught_up :: bool
  minimum_lifetime :: int
  time_quantum :: nat
  minimum_bandwidth :: nat
  maximum_bandwidth :: nat
  total_written :: nat
  total_elapsed :: nat

record 'x world = llcache_s +
  object_at :: "nat \<Rightarrow> llcache_object option"
  user_at :: "nat \<Rightarrow> llcache_object_user option"
  handle_at :: "nat \<Rightarrow> llcache_handle option"
  next_address :: nat
  memory :: mem
  scheduled :: "(int \<times> scheduled_call) list"
  outside :: 'x

definition set_object :: "nat \<Rightarrow> llcache_object \<Rightarrow> 'x world \<Rightarrow> 'x world" where
  "set_object a obj w = w\<lparr>object_at := (object_at w)(a \<mapsto> obj)\<rparr>"

definition set_user :: "nat \<Rightarrow> llcache_object_user \<Rightarrow> 'x world \<Rightarrow> 'x world" where
  "set_user u user w = w\<lparr>user_at := (user_at w)(u \<mapsto> user)\<rparr>"

definition set_handle :: "nat \<Rightarrow> llcache_handle \<Rightarrow> 'x world \<Rightarrow> 'x world" where
  "set_handle h hdl w = w\<lparr>handle_at := (handle_at w)(h \<mapsto> hdl)\<rparr>"

definition with_memory :: "(mem \<Rightarrow> mem) \<Rightarrow> 'x world \<Rightarrow> 'x world" where
  "with_memory f w = w\<lparr>memory := f (memory w)\<rparr>"

text \<open>\<^verbatim>\<open>calloc\<close>: a new address, or \<open>None\<close>.\<close>

definition allocate :: "'x world \<Rightarrow> nat option \<times> 'x world" where
  "allocate w =
     (case malloc (memory w) of (ok, m) \<Rightarrow>
        if ok then (Some (next_address w), w\<lparr>memory := m, next_address := next_address w + 1\<rparr>) else (None, w\<lparr>memory := m\<rparr>))"

text \<open>
  The functions of the outside world: the clock, the fetchers of \<^verbatim>\<open>fetch.c\<close>, the URL data base of
  \<^verbatim>\<open>urldb.c\<close>, the backing store \<^verbatim>\<open>guit->llcache\<close> and the functions of libraries.
\<close>

record 'x environment =
  env_time :: "'x \<Rightarrow> int"
  env_monotonic_ms :: "'x \<Rightarrow> nat"
  env_messages_get :: "string \<Rightarrow> string"
  env_fetch_start :: "nsurl \<Rightarrow> nsurl option \<Rightarrow> bool \<Rightarrow> string option \<Rightarrow> bool \<Rightarrow> bool \<Rightarrow> string list \<Rightarrow> 'x \<Rightarrow> nat result \<times> 'x"
  env_fetch_abort :: "nat \<Rightarrow> 'x \<Rightarrow> 'x"
  env_fetch_http_code :: "nat \<Rightarrow> 'x \<Rightarrow> int"
  env_fetch_can_fetch :: "nsurl \<Rightarrow> 'x \<Rightarrow> bool"
  env_get_hsts_enabled :: "nsurl \<Rightarrow> 'x \<Rightarrow> bool"
  env_set_hsts_policy :: "nsurl \<Rightarrow> string \<Rightarrow> 'x \<Rightarrow> 'x"
  env_get_auth_details :: "nsurl \<Rightarrow> string \<Rightarrow> 'x \<Rightarrow> string option"
  env_store_fetch :: "nsurl \<Rightarrow> 8 word \<Rightarrow> 'x \<Rightarrow> 8 word list result \<times> 'x"
  env_store_store :: "nsurl \<Rightarrow> 8 word \<Rightarrow> 8 word list \<Rightarrow> 'x \<Rightarrow> nserror \<times> 'x"
  env_store_release :: "nsurl \<Rightarrow> 8 word \<Rightarrow> 'x \<Rightarrow> nserror \<times> 'x"
  env_store_invalidate :: "nsurl \<Rightarrow> 'x \<Rightarrow> nserror \<times> 'x"
  env_store_initialise :: "'x \<Rightarrow> nserror \<times> 'x"
  env_store_finalise :: "'x \<Rightarrow> 'x"
  env_send_referer :: bool
  env_curl_getdate :: "string \<Rightarrow> int"
  env_rfc1123_date :: "int \<Rightarrow> string"

definition time_now :: "'x environment \<Rightarrow> 'x world \<Rightarrow> int" where
  "time_now env w = env_time env (outside w)"

definition outside_do :: "('x \<Rightarrow> 'x) \<Rightarrow> 'x world \<Rightarrow> 'x world" where
  "outside_do f w = w\<lparr>outside := f (outside w)\<rparr>"

definition BACKING_STORE_NONE :: "8 word" where
  "BACKING_STORE_NONE = 0"

section \<open>Users\<close>

definition llcache_users_not_caught_up :: "'x world \<Rightarrow> 'x world" where
  "llcache_users_not_caught_up w =
     (if all_caught_up w then w\<lparr>all_caught_up := False, scheduled := scheduled w @ [(0, Catch_Up_All_Users)]\<rparr> else w)"

definition llcache_object_user_new :: "nat \<Rightarrow> nat \<Rightarrow> 'x world \<Rightarrow> nat result \<times> 'x world" where
  "llcache_object_user_new cb pw w =
     (case allocate w of
        (None, w1) \<Rightarrow> (Inl NSERROR_NOMEM, w1)
      | (Some h, w1) \<Rightarrow>
          (case allocate w1 of
             (None, w2) \<Rightarrow> (Inl NSERROR_NOMEM, with_memory free_block w2)
           | (Some u, w2) \<Rightarrow>
               (Inr u, set_user u \<lparr>user_handle = Some h, iterator_target = False, queued_for_delete = False\<rparr>
                  (set_handle h \<lparr>handle_object = None, handle_cb = cb, handle_pw = pw, handle_state = LLCACHE_FETCH_INIT,
                     handle_bytes = 0\<rparr> w2))))"

definition llcache_object_user_destroy :: "nat \<Rightarrow> 'x world \<Rightarrow> 'x world option" where
  "llcache_object_user_destroy u w =
     do {
       user \<leftarrow> user_at w u;
       let w1 = (case user_handle user of
           None \<Rightarrow> w
         | Some h \<Rightarrow> with_memory free_block (w\<lparr>handle_at := (handle_at w)(h := None)\<rparr>));
       Some (with_memory free_block (w1\<lparr>user_at := (user_at w1)(u := None)\<rparr>))
     }"

text \<open>The assertions of the code: a user that is removed is in the list, and its handle is the object's.\<close>

definition llcache_object_remove_user :: "'x environment \<Rightarrow> nat \<Rightarrow> nat \<Rightarrow> 'x world \<Rightarrow> 'x world option" where
  "llcache_object_remove_user env a u w =
     do {
       obj \<leftarrow> object_at w a;
       user \<leftarrow> user_at w u;
       own \<leftarrow> (case user_handle user of None \<Rightarrow> Some True | Some h \<Rightarrow> do { hdl \<leftarrow> handle_at w h; Some (handle_object hdl = Some a) });
       if own \<and> u \<in> set (users obj) then
         (let rest = remove1 u (users obj) in
          Some (set_object a (obj\<lparr>users := rest, last_used := (if rest = [] then time_now env w else last_used obj)\<rparr>) w))
       else None
     }"

definition llcache_object_add_user :: "nat \<Rightarrow> nat \<Rightarrow> 'x world \<Rightarrow> 'x world option" where
  "llcache_object_add_user a u w =
     do {
       obj \<leftarrow> object_at w a;
       user \<leftarrow> user_at w u;
       h \<leftarrow> user_handle user;
       hdl \<leftarrow> handle_at w h;
       Some (set_object a (obj\<lparr>users := u # users obj\<rparr>) (set_handle h (hdl\<lparr>handle_object := Some a\<rparr>) w))
     }"

text \<open>The user that has a handle: \<open>Some None\<close> when none of those in the list has it.\<close>

fun find_user :: "nat list \<Rightarrow> nat \<Rightarrow> 'x world \<Rightarrow> nat option option" where
  "find_user [] h w = Some None"
| "find_user (u # us) h w =
     do { user \<leftarrow> user_at w u; if user_handle user = Some h then Some (Some u) else find_user us h w }"

definition llcache_object_find_user :: "nat \<Rightarrow> 'x world \<Rightarrow> nat option option" where
  "llcache_object_find_user h w =
     do { hdl \<leftarrow> handle_at w h; a \<leftarrow> handle_object hdl; obj \<leftarrow> object_at w a; find_user (users obj) h w }"

text \<open>The node that follows a user in the list.\<close>

definition next_of :: "nat \<Rightarrow> nat list \<Rightarrow> nat option" where
  "next_of u us = (case tl (dropWhile (\<lambda>v. v \<noteq> u) us) of [] \<Rightarrow> None | v # _ \<Rightarrow> Some v)"

section \<open>Objects\<close>

definition make_object :: "nsurl \<Rightarrow> 'x world \<Rightarrow> nat result \<times> 'x world" where
  "make_object url w =
     (case llcache_object_new url (memory w) of
        (Inl e, m) \<Rightarrow> (Inl e, w\<lparr>memory := m\<rparr>)
      | (Inr obj, m) \<Rightarrow>
          (Inr (next_address w), w\<lparr>memory := m, next_address := next_address w + 1, object_at := (object_at w)(next_address w \<mapsto> obj)\<rparr>))"

definition free_opt :: "'a option \<Rightarrow> mem \<Rightarrow> mem" where
  "free_opt x m = (case x of None \<Rightarrow> m | Some _ \<Rightarrow> free_block m)"

definition free_object :: "llcache_object \<Rightarrow> mem \<Rightarrow> mem" where
  "free_object obj m =
     (let m1 = cert_chain_free (chain obj) m;
          m2 = (if store_state obj = LLCACHE_STATE_DISC then m1 else free_opt (source_data obj) m1);
          m3 = url_handle_unref m2;
          m4 = (case fetch_referer (obj_fetch obj) of None \<Rightarrow> m3 | Some _ \<Rightarrow> url_handle_unref m3);
          m5 = (case fetch_post (obj_fetch obj) of None \<Rightarrow> m4 | Some _ \<Rightarrow> free_block (free_block m4));
          m6 = free_headers (headers obj) (free_etag (cache obj) m5);
          m7 = (if headers obj = [] then m6 else free_block m6)
      in free_block m7)"

text \<open>Data on the disc are released, a fetch that is running is aborted.\<close>

definition release_source :: "'x environment \<Rightarrow> llcache_object \<Rightarrow> 'x \<Rightarrow> 'x" where
  "release_source env obj x =
     (if source_data obj \<noteq> None \<and> store_state obj = LLCACHE_STATE_DISC
      then snd (env_store_release env (obj_url obj) BACKING_STORE_NONE x) else x)"

definition abort_fetch :: "'x environment \<Rightarrow> llcache_object \<Rightarrow> 'x \<Rightarrow> 'x" where
  "abort_fetch env obj x = (case fetch_fetch (obj_fetch obj) of None \<Rightarrow> x | Some f \<Rightarrow> env_fetch_abort env f x)"

definition llcache_object_destroy :: "'x environment \<Rightarrow> nat \<Rightarrow> 'x world \<Rightarrow> 'x world option" where
  "llcache_object_destroy env a w =
     do {
       obj \<leftarrow> object_at w a;
       let w1 = outside_do (abort_fetch env obj \<circ> release_source env obj) (with_memory (free_object obj) w);
       Some (w1\<lparr>object_at := (object_at w1)(a := None)\<rparr>)
     }"

definition llcache_object_add_to_list :: "nat \<Rightarrow> nat list \<Rightarrow> nat list" where
  "llcache_object_add_to_list a list = a # list"

definition llcache_object_remove_from_list :: "nat \<Rightarrow> nat list \<Rightarrow> nat list" where
  "llcache_object_remove_from_list a list = remove1 a list"

definition llcache_object_in_list :: "nat \<Rightarrow> nat list \<Rightarrow> bool" where
  "llcache_object_in_list a list \<longleftrightarrow> a \<in> set list"

text \<open>Headers are copied one after the other; what was copied so far belongs to the new object.\<close>

fun copy_headers :: "llcache_header list \<Rightarrow> llcache_header list \<Rightarrow> mem \<Rightarrow> bool \<times> llcache_header list \<times> mem" where
  "copy_headers [] copied m = (True, copied, m)"
| "copy_headers (h # hs) copied m =
     (case strdup (header_name h) m of (name, m1) \<Rightarrow>
      case strdup (header_value h) m1 of (val, m2) \<Rightarrow>
        (case (name, val) of
           (Some n, Some v) \<Rightarrow> copy_headers hs (copied @ [\<lparr>header_name = n, header_value = v\<rparr>]) m2
         | _ \<Rightarrow> (False, copied, free_opt val (free_opt name m2))))"

text \<open>\<^verbatim>\<open>memcpy\<close> from the source data: \<open>None\<close> where there are fewer bytes.\<close>

definition read_source :: "nat \<Rightarrow> llcache_object \<Rightarrow> 8 word list option" where
  "read_source from obj =
     (if source_len obj - from = 0 then Some []
      else case source_data obj of
          None \<Rightarrow> None
        | Some buf \<Rightarrow> if source_len obj \<le> length buf then Some (drop from (take (source_len obj) buf)) else None)"

definition snapshot_parts :: "llcache_object \<Rightarrow> 8 word list \<Rightarrow> llcache_object \<Rightarrow> mem \<Rightarrow> nserror \<times> llcache_object \<times> mem" where
  "snapshot_parts obj bytes newobj m =
     (let o1 = newobj\<lparr>source_alloc := source_len obj, source_len := source_len obj\<rparr> in
      case (if source_len obj > 0 then malloc m else (True, m)) of (ok, m1) \<Rightarrow>
        if \<not> ok then (NSERROR_NOMEM, o1, m1)
        else (let o2 = (if source_len obj > 0 then o1\<lparr>source_data := Some bytes\<rparr> else o1) in
          case (if headers obj = [] then (True, m1) else malloc m1) of (ok, m2) \<Rightarrow>
            if \<not> ok then (NSERROR_NOMEM, o2, m2)
            else (case copy_headers (headers obj) [] m2 of (ok, hs, m3) \<Rightarrow>
              let o3 = o2\<lparr>headers := hs\<rparr> in
              if \<not> ok then (NSERROR_NOMEM, o3, m3)
              else (case chain obj of
                  None \<Rightarrow> (NSERROR_OK, o3, m3)
                | Some c \<Rightarrow>
                    (case cert_chain_dup c m3 of
                       (Inl e, m4) \<Rightarrow> (e, o3, m4)
                     | (Inr c', m4) \<Rightarrow> (NSERROR_OK, o3\<lparr>chain := Some c'\<rparr>, m4))))))"

definition llcache_object_snapshot :: "'x environment \<Rightarrow> nat \<Rightarrow> 'x world \<Rightarrow> (nat result \<times> 'x world) option" where
  "llcache_object_snapshot env a w =
     do {
       obj \<leftarrow> object_at w a;
       case make_object (obj_url obj) w of
         (Inl e, w1) \<Rightarrow> Some (Inl e, w1)
       | (Inr b, w1) \<Rightarrow>
           do {
             bytes \<leftarrow> read_source 0 obj;
             newobj \<leftarrow> object_at w1 b;
             case snapshot_parts obj bytes newobj (memory w1) of (res, newobj1, m1) \<Rightarrow>
               let w2 = (set_object b newobj1 w1)\<lparr>memory := m1\<rparr> in
               if res \<noteq> NSERROR_OK then do { w3 \<leftarrow> llcache_object_destroy env b w2; Some (Inl res, w3) }
               else Some (Inr b, set_object b (newobj1\<lparr>obj_fetch := (obj_fetch newobj1)\<lparr>fetch_state := LLCACHE_FETCH_COMPLETE\<rparr>\<rparr>) w2)
           }
     }"

section \<open>Handles\<close>

definition retrieve_stream_data :: "32 word" where
  "retrieve_stream_data = 8"

definition llcache_handle_change_callback :: "nat \<Rightarrow> nat \<Rightarrow> nat \<Rightarrow> 'x world \<Rightarrow> 'x world option" where
  "llcache_handle_change_callback h cb pw w =
     do { hdl \<leftarrow> handle_at w h; Some (set_handle h (hdl\<lparr>handle_cb := cb, handle_pw := pw\<rparr>) w) }"

definition llcache_handle_release :: "'x environment \<Rightarrow> nat \<Rightarrow> 'x world \<Rightarrow> 'x world option" where
  "llcache_handle_release env h w =
     do {
       hdl \<leftarrow> handle_at w h;
       a \<leftarrow> handle_object hdl;
       found \<leftarrow> llcache_object_find_user h w;
       u \<leftarrow> found;
       user \<leftarrow> user_at w u;
       if iterator_target user then Some (set_user u (user\<lparr>queued_for_delete := True\<rparr>) w)
       else do { w1 \<leftarrow> llcache_object_remove_user env a u w; llcache_object_user_destroy u w1 }
     }"

definition llcache_handle_clone :: "nat \<Rightarrow> 'x world \<Rightarrow> (nat result \<times> 'x world) option" where
  "llcache_handle_clone h w =
     do {
       hdl \<leftarrow> handle_at w h;
       case llcache_object_user_new (handle_cb hdl) (handle_pw hdl) w of
         (Inl e, w1) \<Rightarrow> Some (Inl e, w1)
       | (Inr u, w1) \<Rightarrow>
           do {
             a \<leftarrow> handle_object hdl;
             w2 \<leftarrow> llcache_object_add_user a u w1;
             user \<leftarrow> user_at w2 u;
             new \<leftarrow> user_handle user;
             hdl2 \<leftarrow> handle_at w2 new;
             Some (Inr new, set_handle new (hdl2\<lparr>handle_state := handle_state hdl\<rparr>) w2)
           }
     }"

definition stop_fetch :: "'x environment \<Rightarrow> nat \<Rightarrow> llcache_object \<Rightarrow> 'x world \<Rightarrow> 'x world" where
  "stop_fetch env a obj w =
     (let w1 = outside_do (abort_fetch env obj) w in
      case llcache_invalidate_cache_control_data
             (obj\<lparr>obj_fetch := (obj_fetch obj)\<lparr>fetch_fetch := None, fetch_state := LLCACHE_FETCH_COMPLETE\<rparr>\<rparr>) (memory w1) of
        (obj1, m1) \<Rightarrow> (set_object a obj1 w1)\<lparr>memory := m1\<rparr>)"

text \<open>
  A client that shares its object gets a snapshot of it; when it aborts from its callback, its user
  stays behind without a handle until the iteration has passed it.
\<close>

definition move_to_snapshot :: "'x environment \<Rightarrow> nat \<Rightarrow> nat \<Rightarrow> nat \<Rightarrow> 'x world \<Rightarrow> (nserror \<times> 'x world) option" where
  "move_to_snapshot env a u newobject w =
     do {
       user \<leftarrow> user_at w u;
       if iterator_target user then
         (case allocate w of
            (None, w1) \<Rightarrow> do { w2 \<leftarrow> llcache_object_destroy env newobject w1; Some (NSERROR_NOMEM, w2) }
          | (Some newuser, w1) \<Rightarrow>
              do {
                w2 \<leftarrow> llcache_object_add_user newobject newuser
                  (set_user u (user\<lparr>user_handle := None, queued_for_delete := True\<rparr>)
                    (set_user newuser \<lparr>user_handle = user_handle user, iterator_target = False, queued_for_delete = False\<rparr> w1));
                Some (NSERROR_OK, w2)
              })
       else do {
         w1 \<leftarrow> llcache_object_remove_user env a u w;
         w2 \<leftarrow> llcache_object_add_user newobject u w1;
         Some (NSERROR_OK, w2)
       }
     }"

definition llcache_handle_abort :: "'x environment \<Rightarrow> nat \<Rightarrow> 'x world \<Rightarrow> (nserror \<times> 'x world) option" where
  "llcache_handle_abort env h w =
     do {
       hdl \<leftarrow> handle_at w h;
       a \<leftarrow> handle_object hdl;
       found \<leftarrow> llcache_object_find_user h w;
       u \<leftarrow> found;
       obj \<leftarrow> object_at w a;
       if users obj \<noteq> [u] then
         do {
           (snapshot, w1) \<leftarrow> llcache_object_snapshot env a w;
           case snapshot of
             Inl e \<Rightarrow> Some (e, w1)
           | Inr newobject \<Rightarrow>
               do {
                 (res, w2) \<leftarrow> move_to_snapshot env a u newobject w1;
                 if res \<noteq> NSERROR_OK then Some (res, w2)
                 else Some (NSERROR_OK, w2\<lparr>uncached_objects := llcache_object_add_to_list newobject (uncached_objects w2)\<rparr>)
               }
         }
       else Some (NSERROR_OK, stop_fetch env a obj w)
     }"

definition llcache_handle_force_stream :: "nat \<Rightarrow> 'x world \<Rightarrow> 'x world option" where
  "llcache_handle_force_stream h w =
     do {
       hdl \<leftarrow> handle_at w h;
       a \<leftarrow> handle_object hdl;
       found \<leftarrow> llcache_object_find_user h w;
       u \<leftarrow> found;
       obj \<leftarrow> object_at w a;
       if users obj \<noteq> [u] then Some w
       else
         (let w1 = (if llcache_object_in_list a (cached_objects w)
             then w\<lparr>cached_objects := llcache_object_remove_from_list a (cached_objects w),
                    uncached_objects := llcache_object_add_to_list a (uncached_objects w)\<rparr>
             else w) in
          Some (set_object a (obj\<lparr>obj_fetch := (obj_fetch obj)\<lparr>fetch_flags := fetch_flags (obj_fetch obj) OR retrieve_stream_data\<rparr>\<rparr>) w1))
     }"

definition llcache_handle_invalidate_cache_data :: "nat \<Rightarrow> 'x world \<Rightarrow> 'x world option" where
  "llcache_handle_invalidate_cache_data h w =
     do {
       hdl \<leftarrow> handle_at w h;
       case handle_object hdl of
         None \<Rightarrow> Some w
       | Some a \<Rightarrow>
           do {
             obj \<leftarrow> object_at w a;
             if fetch_fetch (obj_fetch obj) = None \<and> no_cache (cache obj) = LLCACHE_VALIDATE_FRESH
             then Some (set_object a (obj\<lparr>cache := (cache obj)\<lparr>no_cache := LLCACHE_VALIDATE_ONCE\<rparr>\<rparr>) w)
             else Some w
           }
     }"

end
