(* ===== verification/Llcache_Heap_Inv.thy ===== *)
theory Llcache_Heap_Inv
  imports Llcache_Heap
begin

text \<open>
  The invariant of the heap of the low-level cache: no list holds a dangling pointer, a handle belongs
  to one user and points back to its object, a user without a handle waits to be deleted, and the data
  of an object in use are in memory. Every operation on handles keeps it.
\<close>

section \<open>Lists\<close>

definition after :: "nat \<Rightarrow> nat list \<Rightarrow> nat list" where
  "after u us = tl (dropWhile (\<lambda>v. v \<noteq> u) us)"

lemma after_simps [simp]: "after u [] = []" "after u (v # us) = (if v = u then us else after u us)"
  by (simp_all add: after_def)

lemma next_of_after: "next_of u us = (case after u us of [] \<Rightarrow> None | v # _ \<Rightarrow> Some v)"
  by (simp add: next_of_def after_def)

lemma after_set: "set (after u us) \<subseteq> set us"
  by (induction us) auto

lemma remove1_filter: "distinct us \<Longrightarrow> remove1 v us = filter (\<lambda>x. x \<noteq> v) us"
  by (simp add: distinct_remove1_removeAll removeAll_filter_not_eq) (rule filter_cong, auto)

lemma after_remove1: "u \<noteq> v \<Longrightarrow> distinct us \<Longrightarrow> after u (remove1 v us) = filter (\<lambda>x. x \<noteq> v) (after u us)"
proof (induction us)
  case (Cons x us)
  then have "v \<notin> set us \<Longrightarrow> filter (\<lambda>x. x \<noteq> v) (after u us) = after u us"
    using after_set [of u us] by (intro filter_True) auto
  then show ?case
    using Cons by (auto simp: remove1_filter)
qed simp

lemma after_append: "u \<notin> set us \<Longrightarrow> after u (us @ vs) = after u vs"
  by (induction us) auto

lemma after_split: "u \<in> set us \<Longrightarrow> distinct us \<Longrightarrow> \<exists>front. us = front @ u # after u us \<and> u \<notin> set front"
proof (induction us)
  case (Cons x us)
  show ?case
  proof (cases "x = u")
    case False
    then obtain front where "us = front @ u # after u us" "u \<notin> set front"
      using Cons by auto
    then show ?thesis
      using False by (intro exI [of _ "x # front"]) auto
  qed auto
qed simp

lemma after_member: "v \<in> set (after u us) \<Longrightarrow> u \<in> set us"
  by (induction us) (auto split: if_splits)

lemma after_next:
  assumes "distinct us" and "after u us = v # vs"
  shows "after v us = vs"
proof -
  obtain front where us: "us = front @ u # v # vs"
    using after_split [of u us] after_member [of v u us] assms by auto
  then show ?thesis
    using assms(1) after_append [of v "front @ [u]" "v # vs"] by simp
qed

section \<open>The invariant\<close>

definition user_ok :: "'x world \<Rightarrow> nat \<Rightarrow> nat \<Rightarrow> bool" where
  "user_ok w a u \<longleftrightarrow> (\<exists>user. user_at w u = Some user \<and> (queued_for_delete user \<longrightarrow> iterator_target user) \<and>
     (user_handle user = None \<longrightarrow> queued_for_delete user) \<and>
     (\<forall>h. user_handle user = Some h \<longrightarrow> (\<exists>hdl. handle_at w h = Some hdl \<and> handle_object hdl = Some a)))"

definition object_ok :: "'x world \<Rightarrow> nat \<Rightarrow> llcache_object \<Rightarrow> bool" where
  "object_ok w a obj \<longleftrightarrow> distinct (users obj) \<and> (\<forall>u \<in> set (users obj). user_ok w a u) \<and>
     (users obj \<noteq> [] \<longrightarrow> read_source 0 obj \<noteq> None)"

definition owners_ok :: "'x world \<Rightarrow> bool" where
  "owners_ok w \<longleftrightarrow>
     (\<forall>a b x y u. object_at w a = Some x \<longrightarrow> object_at w b = Some y \<longrightarrow> u \<in> set (users x) \<longrightarrow> u \<in> set (users y) \<longrightarrow> a = b) \<and>
     (\<forall>u v x y h. user_at w u = Some x \<longrightarrow> user_at w v = Some y \<longrightarrow> user_handle x = Some h \<longrightarrow> user_handle y = Some h \<longrightarrow> u = v) \<and>
     (\<forall>u x h. user_at w u = Some x \<longrightarrow> user_handle x = Some h \<longrightarrow> handle_at w h \<noteq> None)"

definition fresh_ok :: "'x world \<Rightarrow> bool" where
  "fresh_ok w \<longleftrightarrow> (\<forall>a. a \<ge> next_address w \<longrightarrow> object_at w a = None \<and> user_at w a = None \<and> handle_at w a = None)"

definition lists_ok :: "'x world \<Rightarrow> bool" where
  "lists_ok w \<longleftrightarrow> distinct (cached_objects w @ uncached_objects w) \<and>
     (\<forall>a \<in> set (cached_objects w @ uncached_objects w). object_at w a \<noteq> None)"

definition heap_ok :: "'x world \<Rightarrow> bool" where
  "heap_ok w \<longleftrightarrow> (\<forall>a obj. object_at w a = Some obj \<longrightarrow> object_ok w a obj) \<and> owners_ok w \<and> fresh_ok w \<and> lists_ok w"

text \<open>
  What code that is called from an iteration leaves alone: the users that are iterated over stay where
  they are, no user is added behind them, and no other user becomes the target of an iteration.
\<close>

definition targets :: "'x world \<Rightarrow> nat set" where
  "targets w = {u. \<exists>user. user_at w u = Some user \<and> iterator_target user}"

definition keeps_positions :: "'x world \<Rightarrow> 'x world \<Rightarrow> bool" where
  "keeps_positions w w' \<longleftrightarrow> (\<forall>a obj u user. object_at w a = Some obj \<longrightarrow> u \<in> set (users obj) \<longrightarrow> user_at w u = Some user \<longrightarrow>
     iterator_target user \<longrightarrow>
     (\<exists>obj' user' P. object_at w' a = Some obj' \<and> u \<in> set (users obj') \<and> user_at w' u = Some user' \<and> iterator_target user' \<and>
       after u (users obj') = filter P (after u (users obj)) \<and>
       (queued_for_delete user' \<or> user_handle user' = user_handle user \<and> queued_for_delete user' = queued_for_delete user)))"

definition keeps_targets :: "'x world \<Rightarrow> 'x world \<Rightarrow> bool" where
  "keeps_targets w w' \<longleftrightarrow> keeps_positions w w' \<and> targets w' \<subseteq> targets w"

lemma keeps_positions_refl: "keeps_positions w w"
  by (auto simp: keeps_positions_def intro!: exI [of _ "\<lambda>_. True"])

lemma keeps_positionsE:
  assumes "keeps_positions w w'" and "object_at w a = Some obj" and "u \<in> set (users obj)" and "user_at w u = Some user" and "iterator_target user"
  obtains obj' user' P where "object_at w' a = Some obj'" "u \<in> set (users obj')" "user_at w' u = Some user'" "iterator_target user'"
    "after u (users obj') = filter P (after u (users obj))"
    "queued_for_delete user' \<or> user_handle user' = user_handle user \<and> queued_for_delete user' = queued_for_delete user"
  using assms unfolding keeps_positions_def by blast

lemma keeps_positions_trans:
  assumes 1: "keeps_positions w1 w2" and 2: "keeps_positions w2 w3"
  shows "keeps_positions w1 w3"
  unfolding keeps_positions_def
proof (intro allI impI)
  fix a obj u user
  assume "object_at w1 a = Some obj" "u \<in> set (users obj)" "user_at w1 u = Some user" "iterator_target user"
  then obtain obj2 user2 P where 3: "object_at w2 a = Some obj2" "u \<in> set (users obj2)" "user_at w2 u = Some user2" "iterator_target user2"
      "after u (users obj2) = filter P (after u (users obj))"
      "queued_for_delete user2 \<or> user_handle user2 = user_handle user \<and> queued_for_delete user2 = queued_for_delete user"
    by (rule keeps_positionsE [OF 1])
  obtain obj3 user3 Q where 4: "object_at w3 a = Some obj3" "u \<in> set (users obj3)" "user_at w3 u = Some user3" "iterator_target user3"
      "after u (users obj3) = filter Q (after u (users obj2))"
      "queued_for_delete user3 \<or> user_handle user3 = user_handle user2 \<and> queued_for_delete user3 = queued_for_delete user2"
    by (rule keeps_positionsE [OF 2 3(1-4)])
  show "\<exists>obj' user' P. object_at w3 a = Some obj' \<and> u \<in> set (users obj') \<and> user_at w3 u = Some user' \<and> iterator_target user' \<and>
       after u (users obj') = filter P (after u (users obj)) \<and>
       (queued_for_delete user' \<or> user_handle user' = user_handle user \<and> queued_for_delete user' = queued_for_delete user)"
    using 3(5,6) by (intro exI [of _ obj3] exI [of _ user3] exI [of _ "\<lambda>x. P x \<and> Q x"]) (use 4 in auto)
qed

lemma keeps_targets_refl [simp]: "keeps_targets w w"
  by (simp add: keeps_targets_def keeps_positions_refl)

lemma keeps_targets_trans: "keeps_targets w1 w2 \<Longrightarrow> keeps_targets w2 w3 \<Longrightarrow> keeps_targets w1 w3"
  unfolding keeps_targets_def using keeps_positions_trans by blast

lemmas keeps_defs = keeps_targets_def keeps_positions_def targets_def

section \<open>Changes of single cells\<close>

lemmas heap_defs = heap_ok_def object_ok_def owners_ok_def fresh_ok_def lists_ok_def

lemma user_ok_cong:
  "user_at w' u = user_at w u \<Longrightarrow> handle_at w' = handle_at w \<Longrightarrow> user_ok w' a u = user_ok w a u"
  by (simp add: user_ok_def)

lemma heap_ok_frame [simp]:
  "heap_ok (w\<lparr>memory := m\<rparr>) = heap_ok w" "heap_ok (w\<lparr>outside := x\<rparr>) = heap_ok w"
  "heap_ok (w\<lparr>scheduled := sc\<rparr>) = heap_ok w" "heap_ok (w\<lparr>all_caught_up := b\<rparr>) = heap_ok w"
  "heap_ok (outside_do f w) = heap_ok w" "heap_ok (with_memory g w) = heap_ok w" "heap_ok (llcache_users_not_caught_up w) = heap_ok w"
  by (simp_all add: heap_defs user_ok_def outside_do_def with_memory_def llcache_users_not_caught_up_def)

lemma keeps_targets_frame [simp]:
  "keeps_targets w (w'\<lparr>memory := m\<rparr>) = keeps_targets w w'" "keeps_targets w (w'\<lparr>outside := x\<rparr>) = keeps_targets w w'"
  "keeps_targets w (outside_do f w') = keeps_targets w w'" "keeps_targets w (with_memory g w') = keeps_targets w w'"
  "keeps_targets w (llcache_users_not_caught_up w') = keeps_targets w w'"
  "keeps_targets w (w'\<lparr>uncached_objects := us\<rparr>) = keeps_targets w w'" "keeps_targets w (w'\<lparr>cached_objects := us\<rparr>) = keeps_targets w w'"
  by (simp_all add: keeps_defs outside_do_def with_memory_def llcache_users_not_caught_up_def)

lemma heap_okD:
  assumes "heap_ok w" and "object_at w a = Some obj"
  shows "distinct (users obj)" and "u \<in> set (users obj) \<Longrightarrow> user_ok w a u" and "users obj \<noteq> [] \<Longrightarrow> \<exists>bytes. read_source 0 obj = Some bytes"
    and "a < next_address w"
  using assms by (auto simp: heap_defs not_le [symmetric])

lemma owner_unique:
  "heap_ok w \<Longrightarrow> object_at w a = Some x \<Longrightarrow> object_at w b = Some y \<Longrightarrow> u \<in> set (users x) \<Longrightarrow> u \<in> set (users y) \<Longrightarrow> a = b"
  unfolding heap_ok_def owners_ok_def by blast

lemma handle_unique:
  "heap_ok w \<Longrightarrow> user_at w u = Some x \<Longrightarrow> user_at w v = Some y \<Longrightarrow> user_handle x = Some h \<Longrightarrow> user_handle y = Some h \<Longrightarrow> u = v"
  unfolding heap_ok_def owners_ok_def by blast

lemma handle_exists: "heap_ok w \<Longrightarrow> user_at w u = Some x \<Longrightarrow> user_handle x = Some h \<Longrightarrow> handle_at w h \<noteq> None"
  unfolding heap_ok_def owners_ok_def by blast

lemma listed_alive: "heap_ok w \<Longrightarrow> a \<in> set (cached_objects w @ uncached_objects w) \<Longrightarrow> object_at w a \<noteq> None"
  unfolding heap_ok_def lists_ok_def by blast

lemma heap_ok_set_user:
  assumes "heap_ok w" and "user_at w u = Some user" and "user_handle user' = user_handle user"
    and "queued_for_delete user' \<longrightarrow> iterator_target user'" and "user_handle user = None \<longrightarrow> queued_for_delete user'"
  shows "heap_ok (set_user u user' w)"
proof -
  have "user_ok (set_user u user' w) a v" if "user_ok w a v" for a v
    using that assms(2-) by (cases "v = u") (auto simp: user_ok_def set_user_def split: option.splits)
  moreover have "u < next_address w"
    using assms(1,2) by (auto simp: heap_defs not_le [symmetric])
  moreover have "owners_ok (set_user u user' w)"
    using assms(1-3) unfolding heap_ok_def owners_ok_def set_user_def by (auto split: if_splits)
  ultimately show ?thesis
    using assms(1) by (auto simp: heap_ok_def object_ok_def fresh_ok_def lists_ok_def set_user_def)
qed

lemma heap_ok_set_handle:
  assumes "heap_ok w" and "handle_at w h = Some hdl" and "handle_object hdl' = handle_object hdl"
  shows "heap_ok (set_handle h hdl' w)"
proof -
  have "user_ok (set_handle h hdl' w) a v" if "user_ok w a v" for a v
    using that assms(2-) by (auto simp: user_ok_def set_handle_def split: option.splits)
  moreover have "h < next_address w"
    using assms(1,2) by (auto simp: heap_defs not_le [symmetric])
  moreover have "owners_ok (set_handle h hdl' w)"
    using assms(1-3) unfolding heap_ok_def owners_ok_def set_handle_def by auto
  ultimately show ?thesis
    using assms(1) by (auto simp: heap_ok_def object_ok_def fresh_ok_def lists_ok_def set_handle_def)
qed

lemma heap_ok_set_object:
  assumes "heap_ok w" and "object_at w a = Some obj" and "users obj' = users obj" and "users obj \<noteq> [] \<longrightarrow> read_source 0 obj' \<noteq> None"
  shows "heap_ok (set_object a obj' w)"
proof -
  have "user_ok (set_object a obj' w) b v = user_ok w b v" for b v
    by (simp add: user_ok_def set_object_def)
  moreover have "a < next_address w"
    using assms(1,2) by (rule heap_okD)
  moreover have "owners_ok (set_object a obj' w)"
    using assms(1-3) unfolding heap_ok_def owners_ok_def set_object_def by (auto split: if_splits)
  ultimately show ?thesis
    using assms by (auto simp: heap_ok_def object_ok_def fresh_ok_def lists_ok_def set_object_def)
qed

lemma heap_ok_new_object:
  assumes "heap_ok w" and "users obj = []"
  shows "heap_ok (w\<lparr>next_address := next_address w + 1, object_at := (object_at w)(next_address w \<mapsto> obj)\<rparr>)" (is "heap_ok ?w")
proof -
  have "user_ok ?w b v = user_ok w b v" for b v
    by (simp add: user_ok_def)
  moreover have "owners_ok ?w"
    using assms unfolding heap_ok_def owners_ok_def by (auto split: if_splits)
  ultimately show ?thesis
    using assms by (auto simp: heap_ok_def object_ok_def fresh_ok_def lists_ok_def)
qed

lemma heap_ok_allocate: "heap_ok w \<Longrightarrow> allocate w = (r, w') \<Longrightarrow> heap_ok w'"
  by (auto simp: allocate_def heap_defs user_ok_def split: prod.splits if_splits)

section \<open>Changes of lists of users\<close>

text \<open>Removing a user and destroying it, as the code always does together.\<close>

definition detach :: "'x environment \<Rightarrow> nat \<Rightarrow> nat \<Rightarrow> 'x world \<Rightarrow> 'x world option" where
  "detach env a u w = do { w1 \<leftarrow> llcache_object_remove_user env a u w; llcache_object_user_destroy u w1 }"

lemma detach_eq:
  assumes "heap_ok w" and "object_at w a = Some obj" and "u \<in> set (users obj)"
  shows "\<exists>user. user_at w u = Some user \<and> detach env a u w = Some (w\<lparr>
      memory := (if user_handle user = None then free_block (memory w) else free_block (free_block (memory w))),
      object_at := (object_at w)(a \<mapsto> obj\<lparr>users := remove1 u (users obj),
        last_used := (if remove1 u (users obj) = [] then time_now env w else last_used obj)\<rparr>),
      user_at := (user_at w)(u := None),
      handle_at := (case user_handle user of None \<Rightarrow> handle_at w | Some h \<Rightarrow> (handle_at w)(h := None))\<rparr>)"
proof -
  obtain user where user: "user_at w u = Some user" "\<And>h. user_handle user = Some h \<Longrightarrow> \<exists>hdl. handle_at w h = Some hdl \<and> handle_object hdl = Some a"
    using heap_okD(2) [OF assms] by (auto simp: user_ok_def)
  show ?thesis
  proof (cases "user_handle user")
    case None
    then show ?thesis
      using user(1) by (simp add: detach_def llcache_object_remove_user_def llcache_object_user_destroy_def assms(2,3) set_object_def
          with_memory_def Let_def)
  next
    case (Some h)
    then show ?thesis
      using user(1) user(2) [OF Some] assms(3)
      by (clarsimp simp: detach_def llcache_object_remove_user_def llcache_object_user_destroy_def assms(2,3) set_object_def
          with_memory_def Let_def)
  qed
qed

lemma read_source_users [simp]: "read_source n (obj\<lparr>users := us\<rparr>) = read_source n obj" "read_source n (obj\<lparr>last_used := t\<rparr>) = read_source n obj"
  by (simp_all add: read_source_def split: option.split)

lemma detach_ok:
  assumes heap: "heap_ok w" and obj: "object_at w a = Some obj" and u: "u \<in> set (users obj)"
  shows "\<exists>w'. detach env a u w = Some w' \<and> heap_ok w' \<and> object_at w' a = Some (obj\<lparr>users := remove1 u (users obj), last_used := last_used (the (object_at w' a))\<rparr>) \<and>
    (\<forall>b. b \<noteq> a \<longrightarrow> object_at w' b = object_at w b) \<and> (\<forall>v. v \<noteq> u \<longrightarrow> user_at w' v = user_at w v) \<and>
    ((\<exists>user. user_at w u = Some user \<and> \<not> iterator_target user) \<longrightarrow> keeps_targets w w')"
proof -
  obtain user m t where user: "user_at w u = Some user" and eq: "detach env a u w = Some (w\<lparr>memory := m,
      object_at := (object_at w)(a \<mapsto> obj\<lparr>users := remove1 u (users obj), last_used := t\<rparr>),
      user_at := (user_at w)(u := None),
      handle_at := (case user_handle user of None \<Rightarrow> handle_at w | Some h \<Rightarrow> (handle_at w)(h := None))\<rparr>)"
    (is "_ = Some ?w")
    using detach_eq [OF assms, of env] by blast
  have others: "owners_ok w" "\<And>b y v. object_at w b = Some y \<Longrightarrow> v \<in> set (users y) \<Longrightarrow> v = u \<Longrightarrow> b = a"
    using heap obj u by (auto simp: heap_ok_def owners_ok_def)
  have handles: "\<And>v y h. user_at w v = Some y \<Longrightarrow> user_handle y = Some h \<Longrightarrow> user_handle user = Some h \<Longrightarrow> v = u"
    using others(1) user by (auto simp: owners_ok_def)
  have users_ok: "user_ok ?w b v" if "user_ok w b v" "v \<noteq> u" for b v
    using that handles by (fastforce simp: user_ok_def split: option.splits)
  have "users obj \<noteq> []"
    using u by auto
  have "object_ok ?w b y" if "object_at ?w b = Some y" for b y
  proof (cases "b = a")
    case True
    then show ?thesis
      using that heap_okD(1,2) [OF heap obj] heap_okD(3) [OF heap obj] users_ok \<open>users obj \<noteq> []\<close> by (auto simp: object_ok_def set_remove1_eq)
  next
    case False
    then show ?thesis
      using that heap_okD [OF heap] users_ok others(2) by (fastforce simp: object_ok_def)
  qed
  moreover have "owners_ok ?w"
  proof -
    have old: "\<exists>y0. object_at w b = Some y0 \<and> set (users y) \<subseteq> set (users y0)" if "object_at ?w b = Some y" for b y
      using that obj set_remove1_subset [of u "users obj"] by (auto split: if_splits)
    have "b = c" if "object_at ?w b = Some x" "object_at ?w c = Some y" "v \<in> set (users x)" "v \<in> set (users y)" for b c x y v
      using old [OF that(1)] old [OF that(2)] that(3,4) others(1) unfolding owners_ok_def by blast
    moreover have "v = v'" if "user_at ?w v = Some x" "user_at ?w v' = Some y" "user_handle x = Some h" "user_handle y = Some h" for v v' x y h
      using that others(1) by (auto simp: owners_ok_def split: if_splits)
    moreover have "handle_at ?w h \<noteq> None" if "user_at ?w v = Some x" "user_handle x = Some h" for v x h
      using that handles [of v x h] others(1) by (auto simp: owners_ok_def split: if_splits option.splits)
    ultimately show ?thesis
      unfolding owners_ok_def by blast
  qed
  moreover have "fresh_ok ?w" "lists_ok ?w"
    using heap obj heap_okD(4) [OF heap obj] by (auto simp: heap_ok_def fresh_ok_def lists_ok_def split: option.splits)
  ultimately have ok: "heap_ok ?w"
    by (simp add: heap_ok_def)
  moreover have "keeps_targets w ?w" if "\<not> iterator_target user"
    unfolding keeps_targets_def keeps_positions_def
  proof (intro conjI allI impI)
    fix b y v x
    assume "object_at w b = Some y" "v \<in> set (users y)" "user_at w v = Some x" "iterator_target x"
    then show "\<exists>obj' user' P. object_at ?w b = Some obj' \<and> v \<in> set (users obj') \<and> user_at ?w v = Some user' \<and> iterator_target user' \<and>
       after v (users obj') = filter P (after v (users y)) \<and>
       (queued_for_delete user' \<or> user_handle user' = user_handle x \<and> queued_for_delete user' = queued_for_delete x)"
      using that user obj heap_okD(1) [OF heap obj]
      by (intro exI [of _ "if b = a then obj\<lparr>users := remove1 u (users obj), last_used := t\<rparr> else y"] exI [of _ x] exI [of _ "\<lambda>z. b = a \<longrightarrow> z \<noteq> u"])
        (auto simp: after_remove1)
  next
    show "targets ?w \<subseteq> targets w"
      by (auto simp: targets_def set_object_def set_handle_def split: if_splits)
  qed
  ultimately show ?thesis
    using eq user by auto
qed

text \<open>A user that no list holds, with a handle of its own, joins an object.\<close>

definition unattached :: "'x world \<Rightarrow> nat \<Rightarrow> bool" where
  "unattached w u \<longleftrightarrow> (\<exists>user h. user_at w u = Some user \<and> user_handle user = Some h \<and> handle_at w h \<noteq> None \<and>
     \<not> queued_for_delete user \<and> (\<forall>a obj. object_at w a = Some obj \<longrightarrow> u \<notin> set (users obj)))"

lemma add_user_ok:
  assumes heap: "heap_ok w" and obj: "object_at w a = Some obj" and source: "read_source 0 obj \<noteq> None" and u: "unattached w u"
  shows "\<exists>w'. llcache_object_add_user a u w = Some w' \<and> heap_ok w' \<and> keeps_targets w w' \<and> user_at w' = user_at w \<and>
    object_at w' = (object_at w)(a \<mapsto> obj\<lparr>users := u # users obj\<rparr>) \<and> (\<forall>h. handle_at w' h = None \<longleftrightarrow> handle_at w h = None)"
proof -
  obtain user h hdl where user: "user_at w u = Some user" "user_handle user = Some h" "handle_at w h = Some hdl" "\<not> queued_for_delete user"
      and free: "\<And>b y. object_at w b = Some y \<Longrightarrow> u \<notin> set (users y)"
    using u by (auto simp: unattached_def)
  let ?w = "set_object a (obj\<lparr>users := u # users obj\<rparr>) (set_handle h (hdl\<lparr>handle_object := Some a\<rparr>) w)"
  have others: "owners_ok w"
    using heap by (simp add: heap_ok_def)
  then have handles: "\<And>v y. user_at w v = Some y \<Longrightarrow> user_handle y = Some h \<Longrightarrow> v = u"
    using user(1,2) by (auto simp: owners_ok_def)
  have users_ok: "user_ok ?w b v" if "user_ok w b v" "v \<noteq> u" for b v
    using that handles by (fastforce simp: user_ok_def set_object_def set_handle_def)
  have "user_ok ?w a u"
    using user by (simp add: user_ok_def set_object_def set_handle_def)
  have "object_ok ?w b y" if "object_at ?w b = Some y" for b y
  proof (cases "b = a")
    case True
    then have "y = obj\<lparr>users := u # users obj\<rparr>"
      using that by (simp add: set_object_def)
    moreover have "user_ok ?w a v" if "v \<in> set (users obj)" for v
      using that users_ok [of a v] heap_okD(2) [OF heap obj] free [OF obj] by blast
    ultimately show ?thesis
      using True source free [OF obj] heap_okD(1) [OF heap obj] \<open>user_ok ?w a u\<close> by (auto simp: object_ok_def)
  next
    case False
    then have y: "object_at w b = Some y"
      using that by (simp add: set_object_def set_handle_def)
    have "user_ok ?w b v" if "v \<in> set (users y)" for v
      using that users_ok [of b v] heap_okD(2) [OF heap y] free [OF y] by blast
    then show ?thesis
      using heap_okD(1) [OF heap y] heap_okD(3) [OF heap y] by (auto simp: object_ok_def)
  qed
  moreover have "owners_ok ?w"
  proof -
    have old: "v = u \<and> b = a \<or> v \<noteq> u \<and> (\<exists>y0. object_at w b = Some y0 \<and> v \<in> set (users y0))"
      if "object_at ?w b = Some y" "v \<in> set (users y)" for b y v
      using that obj free by (cases "b = a") (auto simp: set_object_def set_handle_def)
    have "b = c" if "object_at ?w b = Some x" "object_at ?w c = Some y" "v \<in> set (users x)" "v \<in> set (users y)" for b c x y v
      using old [OF that(1,3)] old [OF that(2,4)] others unfolding owners_ok_def by blast
    then have "\<forall>a b x y u. object_at ?w a = Some x \<longrightarrow> object_at ?w b = Some y \<longrightarrow> u \<in> set (users x) \<longrightarrow> u \<in> set (users y) \<longrightarrow> a = b"
      by blast
    moreover have same: "user_at ?w = user_at w" "\<And>h. (handle_at ?w h \<noteq> None) = (handle_at w h \<noteq> None)"
      using user by (simp_all add: set_object_def set_handle_def)
    moreover have "\<forall>u v x y h. user_at w u = Some x \<longrightarrow> user_at w v = Some y \<longrightarrow> user_handle x = Some h \<longrightarrow> user_handle y = Some h \<longrightarrow> u = v"
        "\<forall>u x h. user_at w u = Some x \<longrightarrow> user_handle x = Some h \<longrightarrow> handle_at w h \<noteq> None"
      using others unfolding owners_ok_def by blast+
    ultimately show ?thesis
      unfolding owners_ok_def same by blast
  qed
  moreover have "fresh_ok ?w" "lists_ok ?w"
    using heap obj heap_okD(4) [OF heap obj] user(3) by (auto simp: heap_ok_def fresh_ok_def lists_ok_def set_object_def set_handle_def)
  ultimately have "heap_ok ?w"
    by (simp add: heap_ok_def)
  moreover have "keeps_targets w ?w"
    unfolding keeps_targets_def keeps_positions_def
  proof (intro conjI allI impI)
    fix b y v x
    assume "object_at w b = Some y" "v \<in> set (users y)" "user_at w v = Some x" "iterator_target x"
    then show "\<exists>obj' user' P. object_at ?w b = Some obj' \<and> v \<in> set (users obj') \<and> user_at ?w v = Some user' \<and> iterator_target user' \<and>
       after v (users obj') = filter P (after v (users y)) \<and>
       (queued_for_delete user' \<or> user_handle user' = user_handle x \<and> queued_for_delete user' = queued_for_delete x)"
      using obj free [of b y]
      by (intro exI [of _ "if b = a then obj\<lparr>users := u # users obj\<rparr> else y"] exI [of _ x] exI [of _ "\<lambda>_. True"])
        (auto simp: set_object_def set_handle_def)
  next
    show "targets ?w \<subseteq> targets w"
      by (auto simp: targets_def set_object_def set_handle_def split: if_splits)
  qed
  moreover have "llcache_object_add_user a u w = Some ?w"
    using obj user by (simp add: llcache_object_add_user_def)
  ultimately show ?thesis
    using user(3) by (simp add: set_object_def set_handle_def)
qed

lemma user_new_ok:
  assumes heap: "heap_ok w" and new: "llcache_object_user_new cb pw w = (r, w')"
  shows "heap_ok w' \<and> keeps_targets w w' \<and> object_at w' = object_at w \<and>
    (\<forall>u. r = Inr u \<longrightarrow> unattached w' u \<and> (\<exists>h. user_at w' u = Some \<lparr>user_handle = Some h, iterator_target = False, queued_for_delete = False\<rparr>))"
proof (cases r)
  case (Inl e)
  then show ?thesis
    using new heap by (auto simp: llcache_object_user_new_def allocate_def heap_defs keeps_defs user_ok_def with_memory_def
        split: prod.splits option.splits if_splits intro!: exI [of _ "\<lambda>_. True"])
next
  case (Inr u)
  obtain ok1 m1 ok m where mallocs: "malloc (memory w) = (ok1, m1)" "malloc m1 = (ok, m)"
    by (metis prod.exhaust)
  then have u: "u = next_address w + 1" and w': "w' = w\<lparr>memory := m, next_address := next_address w + 2,
      user_at := (user_at w)(u \<mapsto> \<lparr>user_handle = Some (next_address w), iterator_target = False, queued_for_delete = False\<rparr>),
      handle_at := (handle_at w)(next_address w \<mapsto> \<lparr>handle_object = None, handle_cb = cb, handle_pw = pw, handle_state = LLCACHE_FETCH_INIT,
        handle_bytes = 0\<rparr>)\<rparr>"
    using new Inr by (auto simp: llcache_object_user_new_def allocate_def set_user_def set_handle_def split: if_splits)
  have none: "user_at w u = None" "handle_at w (next_address w) = None"
    using heap by (simp_all add: u heap_ok_def fresh_ok_def)
  have unused: "u \<notin> set (users obj)" if "object_at w a = Some obj" for a obj
    using heap_okD(2) [OF heap that, of u] none by (auto simp: user_ok_def)
  note fresh = none unused
  have owners: "owners_ok w"
    using heap by (simp add: heap_ok_def)
  have users_ok: "user_ok w' a v" if "user_ok w a v" for a v
    using that fresh by (auto simp: user_ok_def w')
  have "object_ok w' a obj" if "object_at w a = Some obj" for a obj
    using that users_ok heap_okD [OF heap that] by (auto simp: object_ok_def)
  moreover have "owners_ok w'"
  proof -
    have new: "user_handle x \<noteq> Some (next_address w)" if "user_at w v = Some x" for v x
      using handle_exists [OF heap that] none(2) by blast
    have "v = v'" if "user_at w' v = Some x" "user_at w' v' = Some y" "user_handle x = Some h" "user_handle y = Some h" for v v' x y h
      using that new [of v] new [of v'] handle_unique [OF heap, of v x v' y h] by (auto simp: w' split: if_splits)
    moreover have "handle_at w' h \<noteq> None" if "user_at w' v = Some x" "user_handle x = Some h" for v x h
      using that handle_exists [OF heap, of v x h] by (auto simp: w' split: if_splits)
    moreover have "a = b" if "object_at w' a = Some x" "object_at w' b = Some y" "v \<in> set (users x)" "v \<in> set (users y)" for a b x y v
      using that owner_unique [OF heap, of a x b y v] by (simp add: w')
    ultimately show ?thesis
      unfolding owners_ok_def by blast
  qed
  moreover have "fresh_ok w'" "lists_ok w'"
    using heap by (auto simp: w' u heap_ok_def fresh_ok_def lists_ok_def)
  moreover have "keeps_targets w w'"
    using fresh by (auto simp: keeps_defs w' intro!: exI [of _ "\<lambda>_. True"])
  ultimately show ?thesis
    using Inr fresh by (auto simp: heap_ok_def unattached_def w')
qed

section \<open>The operations on handles\<close>

text \<open>A handle that its client may use: a user in the list of its object has it.\<close>

definition valid_handle :: "'x world \<Rightarrow> nat \<Rightarrow> bool" where
  "valid_handle w h \<longleftrightarrow> (\<exists>hdl a obj u user. handle_at w h = Some hdl \<and> handle_object hdl = Some a \<and> object_at w a = Some obj \<and>
     u \<in> set (users obj) \<and> user_at w u = Some user \<and> user_handle user = Some h)"

lemma find_user_ok:
  assumes "u \<in> set us" and "\<And>v. v \<in> set us \<Longrightarrow> user_at w v \<noteq> None" and "user_at w u = Some user" and "user_handle user = Some h"
    and unique: "\<And>v x. user_at w v = Some x \<Longrightarrow> user_handle x = Some h \<Longrightarrow> v = u"
  shows "find_user us h w = Some (Some u)"
  using assms(1,2)
proof (induction us)
  case (Cons v us)
  obtain x where "user_at w v = Some x"
    using Cons.prems(2) [of v] by auto
  then show ?case
    using Cons.IH Cons.prems assms(3,4) unique [of v x] by (cases "v = u") auto
qed simp

lemma valid_handleE:
  assumes "heap_ok w" and "valid_handle w h"
  obtains hdl a obj u user where "handle_at w h = Some hdl" "handle_object hdl = Some a" "object_at w a = Some obj" "u \<in> set (users obj)"
    "user_at w u = Some user" "user_handle user = Some h" "llcache_object_find_user h w = Some (Some u)" "read_source 0 obj \<noteq> None"
proof -
  obtain hdl a obj u user where 1: "handle_at w h = Some hdl" "handle_object hdl = Some a" "object_at w a = Some obj" "u \<in> set (users obj)"
      "user_at w u = Some user" "user_handle user = Some h"
    using assms(2) by (auto simp: valid_handle_def)
  have "user_at w v \<noteq> None" if "v \<in> set (users obj)" for v
    using heap_okD(2) [OF assms(1) 1(3) that] by (auto simp: user_ok_def)
  then have "find_user (users obj) h w = Some (Some u)"
    using 1(4,5,6) handle_unique [OF assms(1) _ 1(5) _ 1(6)] by (intro find_user_ok)
  then have "llcache_object_find_user h w = Some (Some u)"
    by (simp add: llcache_object_find_user_def 1(1-3))
  moreover have "users obj \<noteq> []"
    using 1(4) by auto
  ultimately show ?thesis
    using that 1 heap_okD(3) [OF assms(1) 1(3)] by blast
qed

lemma set_user_keeps:
  assumes "user_at w u = Some user" and "iterator_target user' = iterator_target user"
    and "queued_for_delete user' \<or> user_handle user' = user_handle user \<and> queued_for_delete user' = queued_for_delete user"
  shows "keeps_targets w (set_user u user' w)"
  using assms by (auto simp: keeps_defs set_user_def intro!: exI [of _ "\<lambda>_. True"])

lemma set_handle_keeps [simp]: "keeps_targets w (set_handle h hdl w') = keeps_targets w w'"
  by (simp add: keeps_defs set_handle_def)

lemma set_object_keeps:
  "object_at w a = Some obj \<Longrightarrow> users obj' = users obj \<Longrightarrow> keeps_targets w (set_object a obj' w)"
  by (auto simp: keeps_defs set_object_def intro!: exI [of _ "\<lambda>_. True"])

lemma change_callback_ok:
  assumes "heap_ok w" and "valid_handle w h"
  shows "\<exists>w'. llcache_handle_change_callback h cb pw w = Some w' \<and> heap_ok w' \<and> keeps_targets w w'"
  by (rule valid_handleE [OF assms]) (simp add: llcache_handle_change_callback_def heap_ok_set_handle [OF assms(1)])

lemma release_ok:
  assumes "heap_ok w" and "valid_handle w h"
  shows "\<exists>w'. llcache_handle_release env h w = Some w' \<and> heap_ok w' \<and> keeps_targets w w'"
proof (rule valid_handleE [OF assms])
  fix hdl a obj u user
  assume h: "handle_at w h = Some hdl" "handle_object hdl = Some a" "object_at w a = Some obj" "u \<in> set (users obj)"
    "user_at w u = Some user" "user_handle user = Some h" "llcache_object_find_user h w = Some (Some u)" "read_source 0 obj \<noteq> None"
  have eq: "llcache_handle_release env h w = (if iterator_target user then Some (set_user u (user\<lparr>queued_for_delete := True\<rparr>) w) else detach env a u w)"
    by (simp add: llcache_handle_release_def h(1,2,5,7) detach_def)
  show ?thesis
  proof (cases "iterator_target user")
    case True
    then show ?thesis
      using heap_ok_set_user [OF assms(1) h(5), of "user\<lparr>queued_for_delete := True\<rparr>"] set_user_keeps [OF h(5), of "user\<lparr>queued_for_delete := True\<rparr>"]
      by (simp add: eq)
  next
    case False
    then show ?thesis
      using detach_ok [OF assms(1) h(3,4), of env] h(5) by (auto simp: eq)
  qed
qed

lemma clone_ok:
  assumes "heap_ok w" and "valid_handle w h"
  shows "\<exists>r w'. llcache_handle_clone h w = Some (r, w') \<and> heap_ok w' \<and> keeps_targets w w'"
proof (rule valid_handleE [OF assms])
  fix hdl a obj u user
  assume h: "handle_at w h = Some hdl" "handle_object hdl = Some a" "object_at w a = Some obj" "read_source 0 obj \<noteq> None"
  obtain r w1 where new: "llcache_object_user_new (handle_cb hdl) (handle_pw hdl) w = (r, w1)"
    by (rule prod.exhaust)
  note ok = user_new_ok [OF assms(1) new]
  show ?thesis
  proof (cases r)
    case (Inl e)
    then show ?thesis
      using ok by (simp add: llcache_handle_clone_def h(1) new)
  next
    case (Inr v)
    then obtain nh where v: "user_at w1 v = Some \<lparr>user_handle = Some nh, iterator_target = False, queued_for_delete = False\<rparr>" "unattached w1 v"
      using ok by auto
    obtain w2 where w2: "llcache_object_add_user a v w1 = Some w2" "heap_ok w2" "keeps_targets w1 w2" "user_at w2 = user_at w1"
        "\<forall>h. handle_at w2 h = None \<longleftrightarrow> handle_at w1 h = None"
      using add_user_ok [of w1 a obj v] ok h(3,4) v(2) by auto
    then obtain hdl2 where "handle_at w2 nh = Some hdl2"
      using v by (fastforce simp: unattached_def)
    then show ?thesis
      using Inr w2 v(1) ok heap_ok_set_handle [OF w2(2), of nh hdl2] keeps_targets_trans [of w w1 w2]
      by (simp add: llcache_handle_clone_def h(1,2) new)
  qed
qed

lemma invalidate_cache_data_ok:
  assumes "heap_ok w" and "valid_handle w h"
  shows "\<exists>w'. llcache_handle_invalidate_cache_data h w = Some w' \<and> heap_ok w' \<and> keeps_targets w w'"
proof (rule valid_handleE [OF assms])
  fix hdl a obj u user
  assume h: "handle_at w h = Some hdl" "handle_object hdl = Some a" "object_at w a = Some obj" "read_source 0 obj \<noteq> None"
  let ?obj = "obj\<lparr>cache := (cache obj)\<lparr>no_cache := LLCACHE_VALIDATE_ONCE\<rparr>\<rparr>"
  have "read_source 0 ?obj = read_source 0 obj"
    by (simp add: read_source_def split: option.split)
  then show ?thesis
    using heap_ok_set_object [OF assms(1) h(3), of ?obj] set_object_keeps [OF h(3), of ?obj] h(4) assms(1)
    by (simp add: llcache_handle_invalidate_cache_data_def h(1-3))
qed

lemma stop_fetch_ok:
  assumes "heap_ok w" and "object_at w a = Some obj"
  shows "heap_ok (stop_fetch env a obj w) \<and> keeps_targets w (stop_fetch env a obj w)"
proof -
  define w1 where "w1 = outside_do (abort_fetch env obj) w"
  obtain obj1 m1 where 1: "llcache_invalidate_cache_control_data
       (obj\<lparr>obj_fetch := (obj_fetch obj)\<lparr>fetch_fetch := None, fetch_state := LLCACHE_FETCH_COMPLETE\<rparr>\<rparr>) (memory w1) = (obj1, m1)"
    by (rule prod.exhaust)
  have same: "users obj1 = users obj" "read_source 0 obj1 = read_source 0 obj"
    using 1 by (auto simp: llcache_invalidate_cache_control_data_def read_source_def split: option.split)
  have w1: "heap_ok w1" "keeps_targets w w1" "object_at w1 a = Some obj"
    using assms by (simp_all add: w1_def) (simp add: outside_do_def)
  have eq: "stop_fetch env a obj w = (set_object a obj1 w1)\<lparr>memory := m1\<rparr>"
    by (simp add: stop_fetch_def Let_def w1_def [symmetric] 1)
  have "keeps_targets w (stop_fetch env a obj w)"
    unfolding eq using keeps_targets_trans [OF w1(2) set_object_keeps [OF w1(3) same(1)]] by simp
  moreover have "heap_ok (stop_fetch env a obj w)"
    unfolding eq using heap_ok_set_object [OF w1(1,3) same(1)] same(2) heap_okD(3) [OF assms] by auto
  ultimately show ?thesis
    by simp
qed

lemma force_stream_ok:
  assumes "heap_ok w" and "valid_handle w h"
  shows "\<exists>w'. llcache_handle_force_stream h w = Some w' \<and> heap_ok w' \<and> keeps_targets w w'"
proof (rule valid_handleE [OF assms])
  fix hdl a obj u user
  assume h: "handle_at w h = Some hdl" "handle_object hdl = Some a" "object_at w a = Some obj" "llcache_object_find_user h w = Some (Some u)"
    "read_source 0 obj \<noteq> None"
  let ?obj = "obj\<lparr>obj_fetch := (obj_fetch obj)\<lparr>fetch_flags := fetch_flags (obj_fetch obj) OR retrieve_stream_data\<rparr>\<rparr>"
  have same: "users ?obj = users obj" "read_source 0 ?obj = read_source 0 obj"
    by (simp_all add: read_source_def split: option.split)
  have move: "heap_ok (w\<lparr>cached_objects := remove1 a (cached_objects w), uncached_objects := a # uncached_objects w\<rparr>)"
    if "a \<in> set (cached_objects w)"
    using assms(1) that by (auto simp: heap_defs user_ok_def set_remove1_eq)
  show ?thesis
  proof (cases "users obj \<noteq> [u]")
    case True
    then show ?thesis
      by (simp add: llcache_handle_force_stream_def h(1-4) assms(1))
  next
    case False
    define w1 where "w1 = (if llcache_object_in_list a (cached_objects w)
             then w\<lparr>cached_objects := llcache_object_remove_from_list a (cached_objects w),
                    uncached_objects := llcache_object_add_to_list a (uncached_objects w)\<rparr>
             else w)"
    have w1: "heap_ok w1" "keeps_targets w w1" "object_at w1 a = Some obj"
      using move assms(1) h(3)
      by (auto simp: w1_def llcache_object_in_list_def llcache_object_remove_from_list_def llcache_object_add_to_list_def)
    have "llcache_handle_force_stream h w = Some (set_object a ?obj w1)"
      using False by (simp add: llcache_handle_force_stream_def h(1-4) w1_def Let_def)
    then show ?thesis
      using heap_ok_set_object [OF w1(1,3), of ?obj] set_object_keeps [OF w1(3), of ?obj] keeps_targets_trans [OF w1(2)] same h(5) by simp
  qed
qed

section \<open>Snapshots\<close>

lemma make_object_ok:
  assumes "heap_ok w" and "make_object url w = (r, w')"
  shows "heap_ok w' \<and> keeps_targets w w' \<and> user_at w' = user_at w \<and> handle_at w' = handle_at w \<and>
    cached_objects w' = cached_objects w \<and> uncached_objects w' = uncached_objects w \<and>
    (case r of Inl e \<Rightarrow> e \<noteq> NSERROR_OK \<and> object_at w' = object_at w
     | Inr b \<Rightarrow> object_at w b = None \<and> object_at w' = (object_at w)(b \<mapsto> new_object url) \<and> b \<notin> set (cached_objects w @ uncached_objects w))"
proof (cases "llcache_object_new url (memory w)")
  case (Pair r1 m)
  have none: "object_at w (next_address w) = None"
    using assms(1) by (simp add: heap_ok_def fresh_ok_def)
  show ?thesis
  proof (cases r1)
    case (Inl e)
    moreover have "e \<noteq> NSERROR_OK"
      using Pair Inl by (auto simp: llcache_object_new_def split: prod.splits if_splits)
    ultimately show ?thesis
      using assms Pair by (auto simp: make_object_def)
  next
    case (Inr obj)
    have obj: "obj = new_object url" "users obj = []"
      using Pair Inr by (auto simp: llcache_object_new_def new_object_def split: prod.splits if_splits)
    let ?w = "w\<lparr>next_address := next_address w + 1, object_at := (object_at w)(next_address w \<mapsto> obj)\<rparr>"
    have "w' = ?w\<lparr>memory := m\<rparr>" "r = Inr (next_address w)"
      using assms(2) Pair Inr by (auto simp: make_object_def)
    moreover have "keeps_targets w ?w"
      using none by (auto simp: keeps_defs intro!: exI [of _ "\<lambda>_. True"])
    moreover have "next_address w \<notin> set (cached_objects w @ uncached_objects w)"
      using listed_alive [OF assms(1), of "next_address w"] none by blast
    ultimately show ?thesis
      using heap_ok_new_object [OF assms(1) obj(2)] none obj(1) by simp
  qed
qed

text \<open>An object that no list holds and nobody uses.\<close>

definition loose :: "'x world \<Rightarrow> nat \<Rightarrow> bool" where
  "loose w b \<longleftrightarrow> (\<exists>obj. object_at w b = Some obj \<and> users obj = []) \<and> b \<notin> set (cached_objects w @ uncached_objects w)"

lemma destroy_ok:
  assumes "heap_ok w" and "loose w b"
  shows "\<exists>w'. llcache_object_destroy env b w = Some w' \<and> heap_ok w' \<and> keeps_targets w w' \<and> object_at w' = (object_at w)(b := None) \<and>
    user_at w' = user_at w \<and> handle_at w' = handle_at w"
proof -
  obtain obj where obj: "object_at w b = Some obj" "users obj = []" "b \<notin> set (cached_objects w @ uncached_objects w)"
    using assms(2) by (auto simp: loose_def)
  obtain x m where eq: "llcache_object_destroy env b w = Some (w\<lparr>memory := m, outside := x, object_at := (object_at w)(b := None)\<rparr>)"
    by (simp add: llcache_object_destroy_def obj(1) outside_do_def with_memory_def Let_def)
  let ?w = "w\<lparr>memory := m, outside := x, object_at := (object_at w)(b := None)\<rparr>"
  have "owners_ok ?w"
    using handle_exists [OF assms(1)] handle_unique [OF assms(1)] owner_unique [OF assms(1)] unfolding owners_ok_def
    by (simp split: if_splits)
  moreover have "object_ok ?w a y = object_ok w a y" for a y
    by (simp add: object_ok_def user_ok_def)
  ultimately have "heap_ok ?w"
    using assms(1) obj(3) by (auto simp: heap_ok_def fresh_ok_def lists_ok_def)
  moreover have "keeps_targets w ?w"
    using obj(1,2) by (auto simp: keeps_defs intro!: exI [of _ "\<lambda>_. True"])
  ultimately show ?thesis
    using eq by simp
qed

lemma snapshot_parts_ok:
  assumes "snapshot_parts obj bytes newobj m = (res, newobj1, m1)"
  shows "users newobj1 = users newobj \<and> (res = NSERROR_OK \<longrightarrow> source_len newobj1 = source_len obj \<and>
    (source_len obj > 0 \<longrightarrow> source_data newobj1 = Some bytes))"
  using assms by (auto simp: snapshot_parts_def Let_def split: prod.splits if_splits option.splits sum.splits)

lemma snapshot_ok:
  assumes "heap_ok w" and obj: "object_at w a = Some obj" and source: "read_source 0 obj \<noteq> None"
  shows "\<exists>r w'. llcache_object_snapshot env a w = Some (r, w') \<and> heap_ok w' \<and> keeps_targets w w' \<and>
    user_at w' = user_at w \<and> handle_at w' = handle_at w \<and>
    (\<forall>b. r = Inr b \<longrightarrow> loose w' b \<and> b \<noteq> a \<and> object_at w' a = Some obj \<and> (\<exists>newobj. object_at w' b = Some newobj \<and> read_source 0 newobj = read_source 0 obj))"
proof -
  obtain r1 w1 where make: "make_object (obj_url obj) w = (r1, w1)"
    by (rule prod.exhaust)
  note ok = make_object_ok [OF assms(1) make]
  obtain bytes where bytes: "read_source 0 obj = Some bytes"
    using source by blast
  show ?thesis
  proof (cases r1)
    case (Inl e)
    then show ?thesis
      using ok by (simp add: llcache_object_snapshot_def obj make)
  next
    case (Inr b)
    then have b: "object_at w b = None" "object_at w1 = (object_at w)(b \<mapsto> new_object (obj_url obj))" "b \<notin> set (cached_objects w1 @ uncached_objects w1)"
      using ok by auto
    have ba: "b \<noteq> a"
      using b(1) obj by auto
    obtain res newobj1 m1 where parts: "snapshot_parts obj bytes (new_object (obj_url obj)) (memory w1) = (res, newobj1, m1)"
      by (rule prod_cases3) blast
    note p = snapshot_parts_ok [OF parts]
    have no_users: "users newobj1 = []"
      using p by (simp add: new_object_def)
    have old: "object_at w1 b = Some (new_object (obj_url obj))" "users (new_object (obj_url obj)) = []"
      by (simp_all add: b(2) new_object_def)
    let ?w2 = "(set_object b newobj1 w1)\<lparr>memory := m1\<rparr>"
    have w2: "heap_ok (set_object b obj2 w1)" "keeps_targets w (set_object b obj2 w1)" if "users obj2 = []" for obj2
      using heap_ok_set_object [OF _ old(1), of obj2] set_object_keeps [OF old(1), of obj2] keeps_targets_trans [of w w1] ok that old(2) by auto
    show ?thesis
    proof (cases "res = NSERROR_OK")
      case True
      let ?obj3 = "newobj1\<lparr>obj_fetch := (obj_fetch newobj1)\<lparr>fetch_state := LLCACHE_FETCH_COMPLETE\<rparr>\<rparr>"
      have len: "take (source_len obj) bytes = bytes" "length bytes = source_len obj"
        using bytes by (auto simp: read_source_def split: if_splits option.splits)
      have read: "read_source 0 ?obj3 = Some bytes"
      proof (cases "source_len obj = 0")
        case True
        then show ?thesis
          using p \<open>res = NSERROR_OK\<close> len by (simp add: read_source_def)
      next
        case False
        then have "source_len newobj1 = source_len obj" "source_data newobj1 = Some bytes"
          using p True by simp_all
        then show ?thesis
          using False len by (simp add: read_source_def)
      qed
      have two: "set_object b ?obj3 ?w2 = (set_object b ?obj3 w1)\<lparr>memory := m1\<rparr>"
        by (simp add: set_object_def)
      define W where "W = set_object b ?obj3 ?w2"
      have "llcache_object_snapshot env a w = Some (Inr b, W)"
        using True by (simp add: llcache_object_snapshot_def obj make Inr bytes old parts Let_def W_def)
      moreover have "loose W b"
        using b(3) no_users by (auto simp: loose_def set_object_def W_def)
      moreover have "heap_ok W" "keeps_targets w W"
        using w2 [of ?obj3] no_users unfolding W_def two by simp_all
      moreover have "\<exists>newobj. object_at W b = Some newobj \<and> read_source 0 newobj = read_source 0 obj"
        using read bytes by (simp add: set_object_def W_def)
      moreover have "user_at W = user_at w" "handle_at W = handle_at w" "object_at W a = Some obj"
        using ok b(2) ba obj by (simp_all add: set_object_def W_def)
      ultimately show ?thesis
        using ba by (intro exI [of _ "Inr b"] exI [of _ W]) simp
    next
      case False
      have "heap_ok ?w2" "keeps_targets w ?w2" "loose ?w2 b"
        using w2 [of newobj1] no_users b(3) by (auto simp: loose_def set_object_def)
      then obtain w3 where w3: "llcache_object_destroy env b ?w2 = Some w3" "heap_ok w3" "keeps_targets ?w2 w3" "user_at w3 = user_at ?w2" "handle_at w3 = handle_at ?w2"
        using destroy_ok [of ?w2 b env] by blast
      have "llcache_object_snapshot env a w = Some (Inl res, w3)"
        using False w3(1) by (simp add: llcache_object_snapshot_def obj make Inr bytes old parts Let_def)
      then show ?thesis
        using w3 ok keeps_targets_trans [OF \<open>keeps_targets w ?w2\<close> w3(3)] by (simp add: set_object_def)
    qed
  qed
qed

section \<open>Aborting\<close>

lemma remove_user_ok:
  assumes heap: "heap_ok w" and obj: "object_at w a = Some obj" and u: "u \<in> set (users obj)" and user: "user_at w u = Some user"
    and h: "user_handle user = Some h" and target: "\<not> iterator_target user"
  shows "\<exists>w'. llcache_object_remove_user env a u w = Some w' \<and> heap_ok w' \<and> keeps_targets w w' \<and> unattached w' u \<and>
    (\<forall>b. b \<noteq> a \<longrightarrow> object_at w' b = object_at w b)"
proof -
  define t where "t = (if remove1 u (users obj) = [] then time_now env w else last_used obj)"
  define w' where "w' = set_object a (obj\<lparr>users := remove1 u (users obj), last_used := t\<rparr>) w"
  obtain hdl where hdl: "handle_at w h = Some hdl" "handle_object hdl = Some a" "\<not> queued_for_delete user"
    using heap_okD(2) [OF heap obj u] user h target by (auto simp: user_ok_def)
  have eq: "llcache_object_remove_user env a u w = Some w'"
    by (simp add: llcache_object_remove_user_def obj user h hdl u Let_def w'_def t_def)
  have old: "\<exists>y0. object_at w b = Some y0 \<and> set (users y) \<subseteq> set (users y0)" if "object_at w' b = Some y" for b y
    using that obj set_remove1_subset [of u "users obj"] by (auto simp: w'_def set_object_def split: if_splits)
  have same: "user_at w' = user_at w" "handle_at w' = handle_at w"
    by (simp_all add: w'_def set_object_def)
  have user_same: "user_ok w' b v = user_ok w b v" for b v
    by (simp add: user_ok_def same)
  have gone: "u \<notin> set (users y)" if "object_at w' b = Some y" for b y
  proof (cases "b = a")
    case True
    then show ?thesis
      using that heap_okD(1) [OF heap obj] by (auto simp: w'_def set_object_def set_remove1_eq)
  next
    case False
    then show ?thesis
      using that owner_unique [OF heap _ obj _ u, of b y] by (auto simp: w'_def set_object_def)
  qed
  have "object_ok w' b y" if "object_at w' b = Some y" for b y
  proof (cases "b = a")
    case True
    then have "y = obj\<lparr>users := remove1 u (users obj), last_used := t\<rparr>"
      using that by (simp add: w'_def set_object_def)
    moreover have "users obj \<noteq> []"
      using u by auto
    ultimately show ?thesis
      using True heap_okD(1,2) [OF heap obj] heap_okD(3) [OF heap obj] set_remove1_subset [of u "users obj"]
      by (auto simp: object_ok_def user_same)
  next
    case False
    then have "object_at w b = Some y"
      using that by (simp add: w'_def set_object_def)
    then show ?thesis
      using heap by (auto simp: heap_ok_def object_ok_def user_same)
  qed
  moreover have "owners_ok w'"
  proof -
    have "b = c" if "object_at w' b = Some x" "object_at w' c = Some y" "v \<in> set (users x)" "v \<in> set (users y)" for b c x y v
      using old [OF that(1)] old [OF that(2)] that(3,4) owner_unique [OF heap] by blast
    then show ?thesis
      using handle_unique [OF heap] handle_exists [OF heap] unfolding owners_ok_def same by blast
  qed
  moreover have "fresh_ok w'" "lists_ok w'"
    using heap obj heap_okD(4) [OF heap obj] by (auto simp: w'_def set_object_def heap_ok_def fresh_ok_def lists_ok_def)
  ultimately have "heap_ok w'"
    by (simp add: heap_ok_def)
  moreover have "keeps_targets w w'"
    unfolding keeps_targets_def keeps_positions_def
  proof (intro conjI allI impI)
    fix b y v x
    assume v: "object_at w b = Some y" "v \<in> set (users y)" "user_at w v = Some x" "iterator_target x"
    then have "u \<noteq> v"
      using target user by auto
    then show "\<exists>obj' user' P. object_at w' b = Some obj' \<and> v \<in> set (users obj') \<and> user_at w' v = Some user' \<and> iterator_target user' \<and>
       after v (users obj') = filter P (after v (users y)) \<and>
       (queued_for_delete user' \<or> user_handle user' = user_handle x \<and> queued_for_delete user' = queued_for_delete x)"
      using v obj after_remove1 [OF \<open>u \<noteq> v\<close> [symmetric] heap_okD(1) [OF heap obj]]
      by (intro exI [of _ "if b = a then obj\<lparr>users := remove1 u (users obj), last_used := t\<rparr> else y"] exI [of _ x] exI [of _ "\<lambda>z. b = a \<longrightarrow> z \<noteq> u"])
        (auto simp: w'_def set_object_def)
  next
    show "targets w' \<subseteq> targets w"
      by (simp add: targets_def same)
  qed
  moreover have "unattached w' u"
    using user h hdl gone by (auto simp: unattached_def same)
  moreover have "\<forall>b. b \<noteq> a \<longrightarrow> object_at w' b = object_at w b"
    by (simp add: w'_def set_object_def)
  ultimately show ?thesis
    using eq by blast
qed

text \<open>A new user takes over a handle that no user has.\<close>

lemma adopt_handle_ok:
  assumes heap: "heap_ok w" and v: "user_at w v = None" "v < next_address w" and h: "handle_at w h \<noteq> None"
    and free: "\<And>u x. user_at w u = Some x \<Longrightarrow> user_handle x \<noteq> Some h"
  shows "heap_ok (set_user v \<lparr>user_handle = Some h, iterator_target = False, queued_for_delete = False\<rparr> w)" (is "heap_ok ?w")
    and "keeps_targets w (set_user v \<lparr>user_handle = Some h, iterator_target = False, queued_for_delete = False\<rparr> w)"
    and "unattached (set_user v \<lparr>user_handle = Some h, iterator_target = False, queued_for_delete = False\<rparr> w) v"
proof -
  have unused: "v \<notin> set (users obj)" if "object_at w a = Some obj" for a obj
    using heap_okD(2) [OF heap that, of v] v(1) by (auto simp: user_ok_def)
  have users_ok: "user_ok ?w a u" if "user_ok w a u" for a u
    using that v(1) by (auto simp: user_ok_def set_user_def)
  have same: "object_at ?w = object_at w" "handle_at ?w = handle_at w"
    by (simp_all add: set_user_def)
  have "object_ok ?w a obj" if "object_at w a = Some obj" for a obj
    using that users_ok heap_okD [OF heap that] by (auto simp: object_ok_def)
  moreover have "owners_ok ?w"
  proof -
    have "u = u'" if "user_at ?w u = Some x" "user_at ?w u' = Some y" "user_handle x = Some k" "user_handle y = Some k" for u u' x y k
      using that free handle_unique [OF heap, of u x u' y k] by (auto simp: set_user_def split: if_splits)
    moreover have "handle_at w k \<noteq> None" if "user_at ?w u = Some x" "user_handle x = Some k" for u x k
      using that h handle_exists [OF heap, of u x k] by (auto simp: set_user_def split: if_splits)
    ultimately show ?thesis
      using owner_unique [OF heap] unfolding owners_ok_def same by blast
  qed
  moreover have "fresh_ok ?w" "lists_ok ?w"
    using heap v(2) by (auto simp: set_user_def heap_ok_def fresh_ok_def lists_ok_def)
  ultimately show "heap_ok ?w"
    by (simp add: heap_ok_def same)
  show "keeps_targets w ?w"
    using v(1) by (auto simp: keeps_defs set_user_def intro!: exI [of _ "\<lambda>_. True"])
  show "unattached ?w v"
    using unused h by (auto simp: unattached_def set_user_def)
qed

lemma move_to_snapshot_ok:
  assumes heap: "heap_ok w" and obj: "object_at w a = Some obj" "u \<in> set (users obj)" "user_at w u = Some user" "user_handle user = Some h"
    and b: "loose w b" "b \<noteq> a" "object_at w b = Some newobj" "read_source 0 newobj \<noteq> None"
  shows "\<exists>res w'. move_to_snapshot env a u b w = Some (res, w') \<and> heap_ok w' \<and> keeps_targets w w' \<and>
    (res = NSERROR_OK \<longrightarrow> b \<notin> set (cached_objects w' @ uncached_objects w') \<and> object_at w' b \<noteq> None)"
proof (cases "iterator_target user")
  case False
  obtain w1 where 1: "llcache_object_remove_user env a u w = Some w1" "heap_ok w1" "keeps_targets w w1" "unattached w1 u"
      "object_at w1 b = Some newobj"
    using remove_user_ok [OF heap obj False, of env] b by auto
  obtain w2 where 2: "llcache_object_add_user b u w1 = Some w2" "heap_ok w2" "keeps_targets w1 w2" "object_at w2 b \<noteq> None"
    using add_user_ok [OF 1(2,5) b(4) 1(4)] by auto
  have "cached_objects w2 = cached_objects w" "uncached_objects w2 = uncached_objects w"
    using 1(1) 2(1) by (auto simp: llcache_object_remove_user_def llcache_object_add_user_def Let_def set_object_def set_handle_def
        split: option.splits bind_splits if_splits)
  then show ?thesis
    using 1 2 b(1) keeps_targets_trans [OF 1(3) 2(3)] False obj(3) by (auto simp: move_to_snapshot_def loose_def)
next
  case True
  obtain r w1 where alloc: "allocate w = (r, w1)"
    by (rule prod.exhaust)
  have w1: "heap_ok w1" "keeps_targets w w1" "user_at w1 = user_at w" "handle_at w1 = handle_at w" "object_at w1 = object_at w"
      "cached_objects w1 = cached_objects w" "uncached_objects w1 = uncached_objects w"
    using heap_ok_allocate [OF heap alloc] alloc by (auto simp: allocate_def keeps_defs split: prod.splits if_splits intro!: exI [of _ "\<lambda>_. True"])
  show ?thesis
  proof (cases r)
    case None
    have "loose w1 b"
      using b(1) by (simp add: loose_def w1)
    then show ?thesis
      using destroy_ok [OF w1(1), of b env] keeps_targets_trans [OF w1(2)] None True obj(3) by (auto simp: move_to_snapshot_def alloc)
  next
    case (Some v)
    let ?user = "user\<lparr>user_handle := None, queued_for_delete := True\<rparr>" and ?new = "\<lparr>user_handle = Some h, iterator_target = False, queued_for_delete = False\<rparr>"
    have v: "user_at w v = None" "v < next_address w1" "v \<noteq> u"
      using Some alloc heap obj(3) by (auto simp: allocate_def heap_ok_def fresh_ok_def split: prod.splits if_splits)
    let ?w2 = "set_user u ?user w1"
    have w2: "heap_ok ?w2" "keeps_targets w1 ?w2"
    proof -
      show "keeps_targets w1 ?w2"
        using obj(3) w1(3) by (intro set_user_keeps [of _ _ user]) simp_all
      have "user_ok ?w2 c x" if "user_ok w1 c x" for c x
        using that obj(3) w1(3) True by (auto simp: user_ok_def set_user_def)
      moreover have "owners_ok ?w2"
        using handle_unique [OF w1(1)] handle_exists [OF w1(1)] owner_unique [OF w1(1)] unfolding owners_ok_def
        by (simp add: set_user_def split: if_splits)
      ultimately show "heap_ok ?w2"
        using w1(1) obj(3) w1(3) by (fastforce simp: heap_ok_def object_ok_def fresh_ok_def lists_ok_def set_user_def)
    qed
    have free: "user_handle x \<noteq> Some h" if "user_at ?w2 c = Some x" for c x
      using that handle_unique [OF heap, of c x u user h] obj(3,4) w1(3) by (auto simp: set_user_def split: if_splits)
    have v2: "user_at ?w2 v = None" "v < next_address ?w2" "handle_at ?w2 h \<noteq> None"
      using v w1(3,4) handle_exists [OF heap obj(3,4)] by (simp_all add: set_user_def)
    let ?w3 = "set_user v ?new ?w2"
    have w3: "heap_ok ?w3" "keeps_targets ?w2 ?w3" "unattached ?w3 v"
      using adopt_handle_ok [OF w2(1) v2] free by blast+
    have at: "object_at ?w3 b = Some newobj"
      using b(3) w1(5) by (simp add: set_user_def)
    obtain w4 where 4: "llcache_object_add_user b v ?w3 = Some w4" "heap_ok w4" "keeps_targets ?w3 w4"
        "object_at w4 = (object_at ?w3)(b \<mapsto> newobj\<lparr>users := v # users newobj\<rparr>)"
      using add_user_ok [OF w3(1) at b(4) w3(3)] by blast
    have "set_user u ?user (set_user v ?new w1) = ?w3"
      using v(3) by (auto simp: set_user_def fun_upd_twist)
    then have "move_to_snapshot env a u b w = Some (NSERROR_OK, w4)"
      using True Some obj(3,4) 4(1) by (simp add: move_to_snapshot_def alloc)
    moreover have "cached_objects w4 = cached_objects w" "uncached_objects w4 = uncached_objects w"
      using 4(1) w1 by (auto simp: llcache_object_add_user_def set_object_def set_handle_def set_user_def split: option.splits bind_splits)
    moreover have "keeps_targets w w4"
      using keeps_targets_trans [OF keeps_targets_trans [OF keeps_targets_trans [OF w1(2) w2(2)] w3(2)] 4(3)] .
    ultimately show ?thesis
      using 4 b(1) by (simp add: loose_def)
  qed
qed

lemma abort_ok:
  assumes heap: "heap_ok w" and "valid_handle w h"
  shows "\<exists>res w'. llcache_handle_abort env h w = Some (res, w') \<and> heap_ok w' \<and> keeps_targets w w'"
proof (rule valid_handleE [OF assms])
  fix hdl a obj u user
  assume h: "handle_at w h = Some hdl" "handle_object hdl = Some a" "object_at w a = Some obj" "u \<in> set (users obj)"
    "user_at w u = Some user" "user_handle user = Some h" "llcache_object_find_user h w = Some (Some u)" "read_source 0 obj \<noteq> None"
  note abort = llcache_handle_abort_def h(1,2,3,7)
  show ?thesis
  proof (cases "users obj \<noteq> [u]")
    case False
    then show ?thesis
      using stop_fetch_ok [OF heap h(3)] by (simp add: abort)
  next
    case True
    obtain r w1 where 1: "llcache_object_snapshot env a w = Some (r, w1)" "heap_ok w1" "keeps_targets w w1" "user_at w1 = user_at w"
        "\<forall>b. r = Inr b \<longrightarrow> loose w1 b \<and> b \<noteq> a \<and> object_at w1 a = Some obj \<and> (\<exists>newobj. object_at w1 b = Some newobj \<and> read_source 0 newobj = read_source 0 obj)"
      using snapshot_ok [OF heap h(3,8), of env] by blast
    show ?thesis
    proof (cases r)
      case (Inl e)
      then show ?thesis
        using 1 True by (simp add: abort)
    next
      case (Inr b)
      then obtain newobj where b: "loose w1 b" "b \<noteq> a" "object_at w1 b = Some newobj" "read_source 0 newobj \<noteq> None" "object_at w1 a = Some obj"
        using 1(5) h(8) by auto
      have user: "user_at w1 u = Some user"
        using h(5) 1(4) by simp
      obtain res w2 where 2: "move_to_snapshot env a u b w1 = Some (res, w2)" "heap_ok w2" "keeps_targets w1 w2"
          "res = NSERROR_OK \<longrightarrow> b \<notin> set (cached_objects w2 @ uncached_objects w2) \<and> object_at w2 b \<noteq> None"
        using move_to_snapshot_ok [OF 1(2) b(5) h(4) user h(6) b(1-4), of env] by blast
      let ?w3 = "w2\<lparr>uncached_objects := b # uncached_objects w2\<rparr>"
      have "heap_ok ?w3" if "res = NSERROR_OK"
        using 2(2,4) that by (auto simp: heap_ok_def object_ok_def owners_ok_def fresh_ok_def lists_ok_def user_ok_def)
      then show ?thesis
        using 1 2 Inr True keeps_targets_trans [OF 1(3) 2(3)] by (auto simp: abort llcache_object_add_to_list_def)
    qed
  qed
qed

end
