(* ===== verification/Llcache_Cache_Inv.thy ===== *)
theory Llcache_Cache_Inv
  imports Llcache_Heap_Inv
begin

text \<open>
  The invariant of the whole low-level cache: its heap is well formed, the data of every object are
  where its state says, and an object that is a candidate of others counts them, so that it stays.
  Finding an object for a URL keeps it.
\<close>

section \<open>Objects\<close>

definition readable :: "llcache_object \<Rightarrow> bool" where
  "readable obj \<longleftrightarrow> read_source 0 obj \<noteq> None"

text \<open>The data of an object may be on the disc only; all others can be read. Only an object in memory is fetched.\<close>

definition evicted :: "llcache_object \<Rightarrow> bool" where
  "evicted obj \<longleftrightarrow> store_state obj = LLCACHE_STATE_DISC \<and> source_data obj = None"

definition sound :: "llcache_object \<Rightarrow> bool" where
  "sound obj \<longleftrightarrow> nsurl_wf (obj_url obj) \<and>
     (\<not> evicted obj \<longrightarrow> readable obj) \<and>
     (fetch_fetch (obj_fetch obj) \<noteq> None \<longrightarrow> store_state obj = LLCACHE_STATE_RAM) \<and>
     (store_state obj = LLCACHE_STATE_RAM \<and> source_data obj = None \<longrightarrow> source_alloc obj = 0)"

definition claims :: "nat \<Rightarrow> 'x world \<Rightarrow> nat set" where
  "claims c w = {b. \<exists>obj. object_at w b = Some obj \<and> candidate obj = Some c}"

definition candidates_ok :: "'x world \<Rightarrow> bool" where
  "candidates_ok w \<longleftrightarrow>
     (\<forall>b obj c. object_at w b = Some obj \<longrightarrow> candidate obj = Some c \<longrightarrow> c \<noteq> b \<and> (\<exists>old. object_at w c = Some old \<and> \<not> evicted old)) \<and>
     (\<forall>c old. object_at w c = Some old \<longrightarrow> card (claims c w) \<le> unat (candidate_count old) \<and> unat (candidate_count old) \<le> next_address w)"

definition all_sound :: "'x world \<Rightarrow> bool" where
  "all_sound w \<longleftrightarrow> (\<forall>a obj. object_at w a = Some obj \<longrightarrow> sound obj)"

text \<open>The data of an object that has users are in memory.\<close>

definition used_ok :: "'x world \<Rightarrow> bool" where
  "used_ok w \<longleftrightarrow> (\<forall>a obj. object_at w a = Some obj \<longrightarrow> users obj \<noteq> [] \<longrightarrow> \<not> evicted obj)"

definition cache_ok :: "'x world \<Rightarrow> bool" where
  "cache_ok w \<longleftrightarrow> heap_ok w \<and> all_sound w \<and> candidates_ok w \<and> used_ok w"

lemma cache_okD:
  assumes "cache_ok w"
  shows "heap_ok w" and "object_at w a = Some obj \<Longrightarrow> sound obj"
    and "object_at w b = Some obj \<Longrightarrow> candidate obj = Some c \<Longrightarrow> c \<noteq> b \<and> (\<exists>old. object_at w c = Some old \<and> \<not> evicted old)"
    and "object_at w c = Some old \<Longrightarrow> card (claims c w) \<le> unat (candidate_count old)"
    and "object_at w c = Some old \<Longrightarrow> unat (candidate_count old) \<le> next_address w"
    and "object_at w a = Some obj \<Longrightarrow> users obj \<noteq> [] \<Longrightarrow> \<not> evicted obj"
  using assms unfolding cache_ok_def all_sound_def candidates_ok_def used_ok_def by blast+

lemma claims_finite: "heap_ok w \<Longrightarrow> finite (claims c w)"
proof (rule finite_subset)
  assume "heap_ok w"
  then show "claims c w \<subseteq> {..<next_address w}"
    using heap_okD(4) by (fastforce simp: claims_def)
qed simp

text \<open>What a change of the heap leaves of the objects, their candidates and their data.\<close>

definition keeps_objects :: "'x world \<Rightarrow> 'x world \<Rightarrow> bool" where
  "keeps_objects w w' \<longleftrightarrow> next_address w \<le> next_address w' \<and>
     (\<forall>a obj. object_at w a = Some obj \<longrightarrow> (\<exists>obj'. object_at w' a = Some obj' \<and> candidate obj' = candidate obj \<and>
        candidate_count obj' = candidate_count obj \<and> obj_url obj' = obj_url obj \<and> store_state obj' = store_state obj \<and>
        (evicted obj \<longleftrightarrow> evicted obj') \<and> (sound obj \<longrightarrow> sound obj') \<and> (evicted obj \<longrightarrow> users obj = [] \<longrightarrow> users obj' = []))) \<and>
     (\<forall>b obj'. object_at w' b = Some obj' \<longrightarrow> object_at w b = None \<longrightarrow>
        candidate obj' = None \<and> candidate_count obj' = 0 \<and> \<not> evicted obj' \<and> (all_sound w \<longrightarrow> sound obj'))"

lemma keeps_objects_refl [simp]: "keeps_objects w w"
  by (simp add: keeps_objects_def)

lemma keeps_objectsE:
  assumes "keeps_objects w w'" and "object_at w a = Some obj"
  obtains obj' where "object_at w' a = Some obj'" "candidate obj' = candidate obj" "candidate_count obj' = candidate_count obj"
    "obj_url obj' = obj_url obj" "store_state obj' = store_state obj" "evicted obj \<longleftrightarrow> evicted obj'" "sound obj \<longrightarrow> sound obj'"
    "evicted obj \<longrightarrow> users obj = [] \<longrightarrow> users obj' = []"
  using assms unfolding keeps_objects_def by blast

lemma keeps_objects_new:
  assumes "keeps_objects w w'" and "object_at w' b = Some obj'" and "object_at w b = None"
  shows "candidate obj' = None \<and> candidate_count obj' = 0 \<and> \<not> evicted obj' \<and> (all_sound w \<longrightarrow> sound obj')"
  using assms unfolding keeps_objects_def by blast

lemma keeps_objects_sound:
  assumes "keeps_objects w w'" and "all_sound w"
  shows "all_sound w'"
  unfolding all_sound_def
proof (intro allI impI)
  fix a obj'
  assume obj': "object_at w' a = Some obj'"
  show "sound obj'"
  proof (cases "object_at w a")
    case None
    then show ?thesis
      using keeps_objects_new [OF assms(1) obj'] assms(2) by blast
  next
    case (Some obj)
    obtain obj2 where "object_at w' a = Some obj2" "sound obj \<longrightarrow> sound obj2"
      by (rule keeps_objectsE [OF assms(1) Some])
    then show ?thesis
      using Some obj' assms(2) unfolding all_sound_def by simp
  qed
qed

lemma keeps_objects_trans:
  assumes 1: "keeps_objects w1 w2" and 2: "keeps_objects w2 w3"
  shows "keeps_objects w1 w3"
  unfolding keeps_objects_def
proof (intro conjI allI impI)
  show "next_address w1 \<le> next_address w3"
    using 1 2 by (auto simp: keeps_objects_def)
next
  fix a obj
  assume "object_at w1 a = Some obj"
  then obtain obj2 where 3: "object_at w2 a = Some obj2" "candidate obj2 = candidate obj" "candidate_count obj2 = candidate_count obj"
    "obj_url obj2 = obj_url obj" "store_state obj2 = store_state obj" "evicted obj \<longleftrightarrow> evicted obj2" "sound obj \<longrightarrow> sound obj2"
    "evicted obj \<longrightarrow> users obj = [] \<longrightarrow> users obj2 = []"
    by (rule keeps_objectsE [OF 1])
  obtain obj3 where 4: "object_at w3 a = Some obj3" "candidate obj3 = candidate obj2" "candidate_count obj3 = candidate_count obj2"
    "obj_url obj3 = obj_url obj2" "store_state obj3 = store_state obj2" "evicted obj2 \<longleftrightarrow> evicted obj3" "sound obj2 \<longrightarrow> sound obj3"
    "evicted obj2 \<longrightarrow> users obj2 = [] \<longrightarrow> users obj3 = []"
    by (rule keeps_objectsE [OF 2 3(1)])
  show "\<exists>obj'. object_at w3 a = Some obj' \<and> candidate obj' = candidate obj \<and>
        candidate_count obj' = candidate_count obj \<and> obj_url obj' = obj_url obj \<and> store_state obj' = store_state obj \<and>
        (evicted obj \<longleftrightarrow> evicted obj') \<and> (sound obj \<longrightarrow> sound obj') \<and> (evicted obj \<longrightarrow> users obj = [] \<longrightarrow> users obj' = [])"
    using 3 4 by (intro exI [of _ obj3]) simp
next
  fix b obj'
  assume b: "object_at w3 b = Some obj'" "object_at w1 b = None"
  have "candidate obj' = None \<and> candidate_count obj' = 0 \<and> \<not> evicted obj' \<and> (all_sound w1 \<longrightarrow> sound obj')"
  proof (cases "object_at w2 b")
    case None
    then show ?thesis
      using keeps_objects_new [OF 2 b(1) None] keeps_objects_sound [OF 1] by blast
  next
    case (Some obj2)
    obtain obj3 where "object_at w3 b = Some obj3" "candidate obj3 = candidate obj2" "candidate_count obj3 = candidate_count obj2"
      "evicted obj2 \<longleftrightarrow> evicted obj3" "sound obj2 \<longrightarrow> sound obj3"
      by (rule keeps_objectsE [OF 2 Some])
    then show ?thesis
      using keeps_objects_new [OF 1 Some b(2)] b(1) by simp
  qed
  then show "candidate obj' = None" "candidate_count obj' = 0" "\<not> evicted obj'" "all_sound w1 \<Longrightarrow> sound obj'"
    by blast+
qed

lemma keeps_objects_claims:
  assumes "keeps_objects w w'"
  shows "claims c w' = claims c w"
proof (intro set_eqI iffI)
  fix b
  assume "b \<in> claims c w'"
  then obtain obj' where obj': "object_at w' b = Some obj'" "candidate obj' = Some c"
    by (auto simp: claims_def)
  show "b \<in> claims c w"
  proof (cases "object_at w b")
    case None
    then show ?thesis
      using keeps_objects_new [OF assms obj'(1)] obj'(2) by simp
  next
    case (Some obj)
    obtain obj2 where "object_at w' b = Some obj2" "candidate obj2 = candidate obj"
      by (rule keeps_objectsE [OF assms Some])
    then show ?thesis
      using Some obj' by (simp add: claims_def)
  qed
next
  fix b
  assume "b \<in> claims c w"
  then obtain obj where obj: "object_at w b = Some obj" "candidate obj = Some c"
    by (auto simp: claims_def)
  obtain obj2 where "object_at w' b = Some obj2" "candidate obj2 = candidate obj"
    by (rule keeps_objectsE [OF assms obj(1)])
  then show "b \<in> claims c w'"
    using obj by (simp add: claims_def)
qed

lemma keeps_objects_candidates:
  assumes "keeps_objects w w'" and "candidates_ok w"
  shows "candidates_ok w'"
  unfolding candidates_ok_def
proof (intro conjI allI impI)
  fix b obj' c
  assume obj': "object_at w' b = Some obj'" "candidate obj' = Some c"
  then have "b \<in> claims c w"
    using keeps_objects_claims [OF assms(1), of c] unfolding claims_def by blast
  then obtain old where old: "c \<noteq> b" "object_at w c = Some old" "\<not> evicted old"
    using assms(2) unfolding claims_def candidates_ok_def by blast
  obtain old' where "object_at w' c = Some old'" "evicted old \<longleftrightarrow> evicted old'"
    by (rule keeps_objectsE [OF assms(1) old(2)])
  then show "c \<noteq> b" "\<exists>old. object_at w' c = Some old \<and> \<not> evicted old"
    using old by blast+
next
  fix c old'
  assume old': "object_at w' c = Some old'"
  have next_le: "next_address w \<le> next_address w'"
    using assms(1) by (simp add: keeps_objects_def)
  have "card (claims c w) \<le> unat (candidate_count old') \<and> unat (candidate_count old') \<le> next_address w'"
  proof (cases "object_at w c")
    case None
    then have "claims c w = {}"
      using assms(2) unfolding claims_def candidates_ok_def by fastforce
    then show ?thesis
      using keeps_objects_new [OF assms(1) old' None] by simp
  next
    case (Some old)
    obtain old2 where "object_at w' c = Some old2" "candidate_count old2 = candidate_count old"
      by (rule keeps_objectsE [OF assms(1) Some])
    moreover have "card (claims c w) \<le> unat (candidate_count old) \<and> unat (candidate_count old) \<le> next_address w"
      using assms(2) Some unfolding candidates_ok_def by blast
    ultimately show ?thesis
      using old' next_le by auto
  qed
  then show "card (claims c w') \<le> unat (candidate_count old')" "unat (candidate_count old') \<le> next_address w'"
    by (simp_all add: keeps_objects_claims [OF assms(1)])
qed

lemma keeps_objects_used:
  assumes "keeps_objects w w'" and "used_ok w"
  shows "used_ok w'"
  unfolding used_ok_def
proof (intro allI impI)
  fix a obj'
  assume obj': "object_at w' a = Some obj'" "users obj' \<noteq> []"
  show "\<not> evicted obj'"
  proof (cases "object_at w a")
    case None
    then show ?thesis
      using keeps_objects_new [OF assms(1) obj'(1)] by blast
  next
    case (Some obj)
    obtain obj2 where "object_at w' a = Some obj2" "evicted obj \<longleftrightarrow> evicted obj2" "evicted obj \<longrightarrow> users obj = [] \<longrightarrow> users obj2 = []"
      by (rule keeps_objectsE [OF assms(1) Some])
    then show ?thesis
      using Some obj' assms(2) unfolding used_ok_def by auto
  qed
qed

lemma keeps_objects_cache_ok: "cache_ok w \<Longrightarrow> heap_ok w' \<Longrightarrow> keeps_objects w w' \<Longrightarrow> cache_ok w'"
  using keeps_objects_sound keeps_objects_candidates keeps_objects_used unfolding cache_ok_def by blast

lemma keeps_objects_same: "object_at w' = object_at w \<Longrightarrow> next_address w \<le> next_address w' \<Longrightarrow> keeps_objects w w'"
  by (simp add: keeps_objects_def)

lemma keeps_objects_cell:
  assumes "object_at w a = Some obj" and "object_at w' = (object_at w)(a \<mapsto> obj')" and "next_address w \<le> next_address w'"
    and "candidate obj' = candidate obj" "candidate_count obj' = candidate_count obj" "obj_url obj' = obj_url obj"
    and "store_state obj' = store_state obj" "evicted obj \<longleftrightarrow> evicted obj'" "sound obj \<Longrightarrow> sound obj'"
    and "evicted obj \<Longrightarrow> users obj = [] \<Longrightarrow> users obj' = []"
  shows "keeps_objects w w'"
  using assms unfolding keeps_objects_def by auto

section \<open>The operations on handles\<close>

lemma readable_simps [simp]:
  "readable (obj\<lparr>users := us\<rparr>) = readable obj" "readable (obj\<lparr>last_used := t\<rparr>) = readable obj" "readable (obj\<lparr>obj_fetch := f\<rparr>) = readable obj"
  "readable (obj\<lparr>cache := cd\<rparr>) = readable obj" "readable (obj\<lparr>candidate := c\<rparr>) = readable obj" "readable (obj\<lparr>candidate_count := n\<rparr>) = readable obj"
  "readable (obj\<lparr>headers := hs\<rparr>) = readable obj" "readable (obj\<lparr>chain := ch\<rparr>) = readable obj" "readable (obj\<lparr>source_len := 0\<rparr>)"
  by (simp_all add: readable_def read_source_def split: option.split)

lemma evicted_simps [simp]:
  "evicted (obj\<lparr>users := us\<rparr>) = evicted obj" "evicted (obj\<lparr>last_used := t\<rparr>) = evicted obj" "evicted (obj\<lparr>obj_fetch := f\<rparr>) = evicted obj"
  "evicted (obj\<lparr>cache := cd\<rparr>) = evicted obj" "evicted (obj\<lparr>candidate := c\<rparr>) = evicted obj" "evicted (obj\<lparr>candidate_count := n\<rparr>) = evicted obj"
  "evicted (obj\<lparr>headers := hs\<rparr>) = evicted obj" "evicted (obj\<lparr>chain := ch\<rparr>) = evicted obj" "evicted (obj\<lparr>source_len := n0\<rparr>) = evicted obj"
  by (simp_all add: evicted_def)

lemma sound_simps [simp]:
  "sound (obj\<lparr>users := us\<rparr>) = sound obj" "sound (obj\<lparr>last_used := t\<rparr>) = sound obj" "sound (obj\<lparr>cache := cd\<rparr>) = sound obj"
  "sound (obj\<lparr>candidate := c\<rparr>) = sound obj" "sound (obj\<lparr>candidate_count := n\<rparr>) = sound obj" "sound (obj\<lparr>headers := hs\<rparr>) = sound obj"
  "sound (obj\<lparr>chain := ch\<rparr>) = sound obj"
  by (simp_all add: sound_def)

lemma sound_fetch: "sound obj \<Longrightarrow> fetch_fetch f = None \<or> fetch_fetch f = fetch_fetch (obj_fetch obj) \<or> store_state obj = LLCACHE_STATE_RAM \<Longrightarrow>
    sound (obj\<lparr>obj_fetch := f\<rparr>)"
  by (auto simp: sound_def)

lemma sound_empty: "sound obj \<Longrightarrow> sound (obj\<lparr>source_len := 0\<rparr>)"
  by (simp add: sound_def)

lemma new_object_sound [simp]: "sound (new_object url) = nsurl_wf url" "readable (new_object url)"
  "candidate (new_object url) = None" "candidate_count (new_object url) = 0" "users (new_object url) = []" "obj_url (new_object url) = url"
  "\<not> evicted (new_object url)" "store_state (new_object url) = LLCACHE_STATE_RAM" "fetch_fetch (obj_fetch (new_object url)) = None" "source_data (new_object url) = None"
  by (simp_all add: sound_def evicted_def readable_def read_source_def new_object_def zero_fetch_ctx_def)

lemma keeps_objects_frame [simp]:
  "keeps_objects w (w'\<lparr>memory := m\<rparr>) = keeps_objects w w'" "keeps_objects w (w'\<lparr>outside := x\<rparr>) = keeps_objects w w'"
  "keeps_objects w (outside_do f w') = keeps_objects w w'" "keeps_objects w (with_memory g w') = keeps_objects w w'"
  "keeps_objects w (llcache_users_not_caught_up w') = keeps_objects w w'"
  "keeps_objects w (w'\<lparr>uncached_objects := us\<rparr>) = keeps_objects w w'" "keeps_objects w (w'\<lparr>cached_objects := us\<rparr>) = keeps_objects w w'"
  "keeps_objects w (set_user u user w') = keeps_objects w w'" "keeps_objects w (set_handle h hdl w') = keeps_objects w w'"
  "keeps_objects w (w'\<lparr>user_at := ua\<rparr>) = keeps_objects w w'" "keeps_objects w (w'\<lparr>handle_at := ha\<rparr>) = keeps_objects w w'"
  by (simp_all add: keeps_objects_def outside_do_def with_memory_def llcache_users_not_caught_up_def set_user_def set_handle_def)

lemma allocate_objects: "allocate w = (r, w') \<Longrightarrow> keeps_objects w w' \<and> object_at w' = object_at w"
  by (auto simp: allocate_def keeps_objects_def split: prod.splits if_splits)

lemma remove_user_objects: "llcache_object_remove_user env a u w = Some w' \<Longrightarrow> keeps_objects w w'"
  by (auto simp: llcache_object_remove_user_def set_object_def Let_def split: bind_split_asm option.splits if_splits intro!: keeps_objects_cell)

lemma user_destroy_objects: "llcache_object_user_destroy u w = Some w' \<Longrightarrow> keeps_objects w w'"
  by (auto simp: llcache_object_user_destroy_def Let_def split: bind_split_asm option.splits)

lemma detach_objects: "detach env a u w = Some w' \<Longrightarrow> keeps_objects w w'"
  using remove_user_objects user_destroy_objects keeps_objects_trans by (fastforce simp: detach_def split: bind_split_asm)

lemma add_user_objects:
  "llcache_object_add_user a u w = Some w' \<Longrightarrow> (\<And>obj. object_at w a = Some obj \<Longrightarrow> users obj \<noteq> [] \<or> \<not> evicted obj) \<Longrightarrow> keeps_objects w w'"
  by (auto simp: llcache_object_add_user_def set_object_def set_handle_def split: bind_split_asm intro!: keeps_objects_cell)

lemma user_new_objects: "llcache_object_user_new cb pw w = (r, w') \<Longrightarrow> keeps_objects w w'"
  by (auto simp: llcache_object_user_new_def split: prod.splits option.splits
      dest!: allocate_objects intro: keeps_objects_trans)

lemma release_objects: "llcache_handle_release env h w = Some w' \<Longrightarrow> keeps_objects w w'"
  by (auto simp: llcache_handle_release_def split: bind_split_asm if_splits
      dest!: remove_user_objects user_destroy_objects intro: keeps_objects_trans)

lemma clone_objects:
  assumes "heap_ok w" and "valid_handle w h" and clone: "llcache_handle_clone h w = Some (r, w')"
  shows "keeps_objects w w'"
proof -
  obtain hdl a obj u where h: "handle_at w h = Some hdl" "handle_object hdl = Some a" "object_at w a = Some obj" "u \<in> set (users obj)"
    using assms(2) by (auto simp: valid_handle_def)
  obtain r1 w1 where new: "llcache_object_user_new (handle_cb hdl) (handle_pw hdl) w = (r1, w1)"
    by (rule prod.exhaust)
  note w1 = user_new_objects [OF new] user_new_ok [OF assms(1) new]
  show ?thesis
  proof (cases r1)
    case (Inl e)
    then show ?thesis
      using clone h w1 new by (simp add: llcache_handle_clone_def)
  next
    case (Inr v)
    obtain w2 new hdl2 where w2: "llcache_object_add_user a v w1 = Some w2" "w' = set_handle new (hdl2\<lparr>handle_state := handle_state hdl\<rparr>) w2"
      using clone h new Inr by (auto simp: llcache_handle_clone_def split: bind_split_asm)
    have "object_at w1 a = Some obj" "users obj \<noteq> []"
      using w1 h by auto
    then have "keeps_objects w1 w2"
      using add_user_objects [OF w2(1)] by simp
    then show ?thesis
      using w2(2) keeps_objects_trans [OF w1(1)] by simp
  qed
qed

lemma force_stream_objects: "llcache_handle_force_stream h w = Some w' \<Longrightarrow> keeps_objects w w'"
  by (auto simp: llcache_handle_force_stream_def set_object_def Let_def split: bind_split_asm if_splits intro!: keeps_objects_cell sound_fetch)

lemma invalidate_objects: "llcache_handle_invalidate_cache_data h w = Some w' \<Longrightarrow> keeps_objects w w'"
  by (auto simp: llcache_handle_invalidate_cache_data_def set_object_def split: bind_split_asm option.splits if_splits intro!: keeps_objects_cell)

lemma change_callback_objects: "llcache_handle_change_callback h cb pw w = Some w' \<Longrightarrow> keeps_objects w w'"
  by (auto simp: llcache_handle_change_callback_def split: bind_split_asm)

lemma stop_fetch_objects: "object_at w a = Some obj \<Longrightarrow> keeps_objects w (stop_fetch env a obj w)"
  by (auto simp: stop_fetch_def llcache_invalidate_cache_control_data_def set_object_def outside_do_def Let_def split: prod.splits
      intro!: keeps_objects_cell sound_fetch)

text \<open>A snapshot is a new object without candidate, or nothing at all.\<close>

lemma make_object_cases:
  assumes "make_object url w = (r, w')"
  shows "\<exists>m. (\<exists>e. r = Inl e) \<and> w' = w\<lparr>memory := m\<rparr> \<or>
    r = Inr (next_address w) \<and> w' = w\<lparr>memory := m, next_address := next_address w + 1,
      object_at := (object_at w)(next_address w \<mapsto> new_object url)\<rparr>"
proof -
  obtain ok m where "malloc (memory w) = (ok, m)"
    by (rule prod.exhaust)
  then show ?thesis
    using assms by (intro exI [of _ "if ok then url_handle_ref m else m"]) (auto simp: make_object_def llcache_object_new_def split: if_splits)
qed

lemma snapshot_parts_fields:
  assumes "snapshot_parts obj bytes newobj m = (res, newobj1, m1)"
  shows "obj_url newobj1 = obj_url newobj \<and> store_state newobj1 = store_state newobj \<and> candidate newobj1 = candidate newobj \<and>
    candidate_count newobj1 = candidate_count newobj \<and> obj_fetch newobj1 = obj_fetch newobj \<and> source_alloc newobj1 = source_len obj"
  using assms by (auto simp: snapshot_parts_def Let_def split: prod.splits if_splits option.splits sum.splits)

lemma destroy_cases:
  assumes "llcache_object_destroy env b w = Some w'"
  shows "\<exists>m x. w' = w\<lparr>memory := m, outside := x, object_at := (object_at w)(b := None)\<rparr>"
  using assms by (auto simp: llcache_object_destroy_def Let_def outside_do_def with_memory_def split: bind_split_asm)

lemma snapshot_objects:
  assumes "heap_ok w" and snap: "llcache_object_snapshot env a w = Some (r, w')"
  shows "(\<exists>e. r = Inl e \<and> object_at w' = object_at w \<and> next_address w \<le> next_address w') \<or>
    (\<exists>b newobj. r = Inr b \<and> object_at w b = None \<and> object_at w' = (object_at w)(b \<mapsto> newobj) \<and> next_address w \<le> next_address w' \<and>
      keeps_objects w w')"
proof -
  obtain obj where obj: "object_at w a = Some obj"
    using snap by (auto simp: llcache_object_snapshot_def split: bind_split_asm)
  obtain r1 w1 where make: "make_object (obj_url obj) w = (r1, w1)"
    by (rule prod.exhaust)
  show ?thesis
  proof (cases r1)
    case (Inl e)
    then obtain m where "w1 = w\<lparr>memory := m\<rparr>"
      using make_object_cases [OF make] by auto
    then show ?thesis
      using snap by (auto simp: llcache_object_snapshot_def obj make Inl)
  next
    case (Inr b)
    have b: "b = next_address w" and at: "object_at w1 = (object_at w)(b \<mapsto> new_object (obj_url obj))" "next_address w1 = next_address w + 1"
      using make_object_cases [OF make] Inr by auto
    have none: "object_at w b = None"
      using assms(1) b by (simp add: heap_ok_def fresh_ok_def)
    obtain bytes where bytes: "read_source 0 obj = Some bytes"
      using snap at by (auto simp: llcache_object_snapshot_def obj make Inr split: bind_split_asm)
    obtain res newobj1 m1 where parts: "snapshot_parts obj bytes (new_object (obj_url obj)) (memory w1) = (res, newobj1, m1)"
      by (rule prod_cases3) blast
    show ?thesis
    proof (cases "res = NSERROR_OK")
      case False
      then obtain w3 where "llcache_object_destroy env b ((set_object b newobj1 w1)\<lparr>memory := m1\<rparr>) = Some w3" "r = Inl res" "w' = w3"
        using snap by (auto simp: llcache_object_snapshot_def obj make Inr bytes at(1) parts Let_def split: bind_split_asm)
      then show ?thesis
        using destroy_cases at none by (fastforce simp: set_object_def)
    next
      case True
      let ?new = "newobj1\<lparr>obj_fetch := (obj_fetch newobj1)\<lparr>fetch_state := LLCACHE_FETCH_COMPLETE\<rparr>\<rparr>"
      have r: "r = Inr b" "object_at w' = (object_at w)(b \<mapsto> ?new)" "next_address w' = next_address w + 1"
        using snap True by (auto simp: llcache_object_snapshot_def obj make Inr bytes at parts Let_def set_object_def)
      have len: "take (source_len obj) bytes = bytes" "length bytes = source_len obj"
        using bytes by (auto simp: read_source_def split: if_splits option.splits)
      have p: "source_len newobj1 = source_len obj" "source_len obj = 0 \<or> source_data newobj1 = Some bytes"
        using snapshot_parts_ok [OF parts] True by auto
      have readable: "readable newobj1"
        using p len by (cases "source_len obj = 0") (auto simp: readable_def read_source_def)
      then have sound: "nsurl_wf (obj_url obj) \<Longrightarrow> sound ?new"
        using snapshot_parts_fields [OF parts] p(2) by (auto simp: sound_def)
      have "keeps_objects w w'"
        using sound r none snapshot_parts_fields [OF parts] obj unfolding keeps_objects_def all_sound_def by (auto simp: sound_def evicted_def)
      then show ?thesis
        using r none by auto
    qed
  qed
qed

lemma move_to_snapshot_objects:
  assumes "move_to_snapshot env a u b w = Some (res, w')" and b: "\<And>obj. object_at w b = Some obj \<Longrightarrow> \<not> evicted obj" and "b \<noteq> a"
  shows "if res = NSERROR_OK then keeps_objects w w' else object_at w' = (object_at w)(b := None) \<and> next_address w \<le> next_address w'"
proof -
  obtain user where user: "user_at w u = Some user"
    using assms by (auto simp: move_to_snapshot_def split: bind_split_asm)
  obtain r1 w1 where alloc: "allocate w = (r1, w1)"
    by (rule prod.exhaust)
  note a = allocate_objects [OF alloc]
  show ?thesis
  proof (cases "iterator_target user \<and> r1 = None")
    case True
    then obtain w2 where "llcache_object_destroy env b w1 = Some w2" "res = NSERROR_NOMEM" "w' = w2"
      using assms user alloc by (auto simp: move_to_snapshot_def split: bind_split_asm)
    then show ?thesis
      using a destroy_cases [of env b w1 w2] by (auto simp: keeps_objects_def)
  next
    case False
    have "res = NSERROR_OK \<and> keeps_objects w w'"
    proof (cases "iterator_target user")
      case True
      then obtain v where v: "r1 = Some v"
        using False by auto
      let ?w2 = "set_user u (user\<lparr>user_handle := None, queued_for_delete := True\<rparr>)
        (set_user v \<lparr>user_handle = user_handle user, iterator_target = False, queued_for_delete = False\<rparr> w1)"
      have "res = NSERROR_OK" "llcache_object_add_user b v ?w2 = Some w'"
        using assms user alloc v True by (auto simp: move_to_snapshot_def split: bind_split_asm)
      moreover have "keeps_objects w ?w2" "object_at ?w2 = object_at w"
        using a by (simp_all add: set_user_def)
      ultimately show ?thesis
        using keeps_objects_trans [of w ?w2 w'] add_user_objects [of b v ?w2 w'] b by auto
    next
      case False
      show ?thesis
      proof -
        obtain w1 where w1: "llcache_object_remove_user env a u w = Some w1" "llcache_object_add_user b u w1 = Some w'" "res = NSERROR_OK"
          using assms(1) user False by (auto simp: move_to_snapshot_def split: bind_split_asm)
        have "object_at w1 b = object_at w b"
          using w1(1) \<open>b \<noteq> a\<close> by (auto simp: llcache_object_remove_user_def set_object_def Let_def split: bind_split_asm option.splits if_splits)
        then show ?thesis
          using remove_user_objects [OF w1(1)] add_user_objects [OF w1(2)] keeps_objects_trans w1(3) b by auto
      qed
    qed
    then show ?thesis
      by simp
  qed
qed

lemma abort_objects:
  assumes "heap_ok w" and abort: "llcache_handle_abort env h w = Some (res, w')"
  shows "keeps_objects w w'"
proof -
  obtain hdl a u obj where 1: "handle_at w h = Some hdl" "handle_object hdl = Some a" "llcache_object_find_user h w = Some (Some u)"
      "object_at w a = Some obj"
    using abort by (auto simp: llcache_handle_abort_def split: bind_split_asm)
  show ?thesis
  proof (cases "users obj = [u]")
    case True
    then show ?thesis
      using abort 1 stop_fetch_objects [OF 1(4), of env] by (simp add: llcache_handle_abort_def)
  next
    case False
    obtain snapshot w1 where snap: "llcache_object_snapshot env a w = Some (snapshot, w1)"
      using abort 1 False by (auto simp: llcache_handle_abort_def split: bind_split_asm)
    show ?thesis
    proof (cases snapshot)
      case (Inl e)
      then have "w' = w1"
        using abort 1 False snap by (simp add: llcache_handle_abort_def)
      then show ?thesis
        using snapshot_objects [OF assms(1) snap] Inl by (auto intro: keeps_objects_same)
    next
      case (Inr b)
      obtain newobj where w1: "object_at w b = None" "object_at w1 = (object_at w)(b \<mapsto> newobj)" "next_address w \<le> next_address w1" "keeps_objects w w1"
        using snapshot_objects [OF assms(1) snap] Inr by auto
      have not_evicted: "\<And>x. object_at w1 b = Some x \<Longrightarrow> \<not> evicted x"
        using keeps_objects_new [OF w1(4)] w1(1) by blast
      have ba: "b \<noteq> a"
        using w1(1) 1(4) by auto
      obtain res2 w2 where move: "move_to_snapshot env a u b w1 = Some (res2, w2)"
        using abort 1 False snap Inr by (auto simp: llcache_handle_abort_def split: bind_split_asm)
      show ?thesis
      proof (cases "res2 = NSERROR_OK")
        case True
        then have "keeps_objects w1 w2"
          using move_to_snapshot_objects [OF move not_evicted] ba by simp
        then show ?thesis
          using abort 1 False snap Inr move True keeps_objects_trans [OF w1(4)] by (auto simp: llcache_handle_abort_def)
      next
        case error: False
        have "object_at w2 = object_at w" "next_address w \<le> next_address w2"
          using move_to_snapshot_objects [OF move not_evicted] ba error w1(1-3) by auto
        moreover have "w' = w2"
          using abort 1 False snap Inr move error by (simp add: llcache_handle_abort_def)
        ultimately show ?thesis
          by (simp add: keeps_objects_same)
      qed
    qed
  qed
qed

section \<open>Changes of one object\<close>

lemma all_sound_frame [simp]:
  "all_sound (w\<lparr>memory := m\<rparr>) = all_sound w" "all_sound (w\<lparr>outside := x\<rparr>) = all_sound w"
  "all_sound (w\<lparr>uncached_objects := us\<rparr>) = all_sound w" "all_sound (w\<lparr>cached_objects := us\<rparr>) = all_sound w"
  "all_sound (with_memory g w) = all_sound w" "all_sound (outside_do f w) = all_sound w" "all_sound (llcache_users_not_caught_up w) = all_sound w"
  by (simp_all add: all_sound_def with_memory_def outside_do_def llcache_users_not_caught_up_def)

lemma claims_cong: "object_at w' = object_at w \<Longrightarrow> claims c w' = claims c w"
  by (simp add: claims_def)

lemma candidates_ok_cong: "object_at w' = object_at w \<Longrightarrow> next_address w' = next_address w \<Longrightarrow> candidates_ok w' = candidates_ok w"
  by (simp add: candidates_ok_def claims_def)

lemma cache_ok_frame [simp]:
  "cache_ok (w\<lparr>memory := m\<rparr>) = cache_ok w" "cache_ok (w\<lparr>outside := x\<rparr>) = cache_ok w"
  "cache_ok (with_memory g w) = cache_ok w" "cache_ok (outside_do f w) = cache_ok w" "cache_ok (llcache_users_not_caught_up w) = cache_ok w"
proof -
  note eq = candidates_ok_cong [of _ w]
  show "cache_ok (w\<lparr>memory := m\<rparr>) = cache_ok w" "cache_ok (w\<lparr>outside := x\<rparr>) = cache_ok w"
    "cache_ok (with_memory g w) = cache_ok w" "cache_ok (outside_do f w) = cache_ok w" "cache_ok (llcache_users_not_caught_up w) = cache_ok w"
    unfolding cache_ok_def
    by (subst eq; simp add: all_sound_def used_ok_def with_memory_def outside_do_def llcache_users_not_caught_up_def)+
qed

text \<open>What finding an object leaves alone: users, handles, and the objects in use or in memory.\<close>

definition finds :: "'x world \<Rightarrow> 'x world \<Rightarrow> bool" where
  "finds w w' \<longleftrightarrow> user_at w' = user_at w \<and> handle_at w' = handle_at w \<and> next_address w \<le> next_address w' \<and>
     (\<forall>a obj. object_at w a = Some obj \<longrightarrow> users obj \<noteq> [] \<or> store_state obj = LLCACHE_STATE_RAM \<longrightarrow>
        (\<exists>obj'. object_at w' a = Some obj' \<and> users obj' = users obj \<and> store_state obj' = store_state obj \<and> candidate obj' = candidate obj)) \<and>
     (\<forall>a obj'. object_at w' a = Some obj' \<longrightarrow> users obj' \<noteq> [] \<longrightarrow> (\<exists>obj. object_at w a = Some obj \<and> users obj = users obj'))"

lemma finds_refl [simp]: "finds w w"
  by (simp add: finds_def)

lemma findsE:
  assumes "finds w w'" and "object_at w a = Some obj" and "users obj \<noteq> [] \<or> store_state obj = LLCACHE_STATE_RAM"
  obtains obj' where "object_at w' a = Some obj'" "users obj' = users obj" "store_state obj' = store_state obj" "candidate obj' = candidate obj"
  using assms unfolding finds_def by blast

lemma finds_trans:
  assumes 1: "finds w1 w2" and 2: "finds w2 w3"
  shows "finds w1 w3"
proof -
  have "\<exists>obj'. object_at w3 a = Some obj' \<and> users obj' = users obj \<and> store_state obj' = store_state obj \<and> candidate obj' = candidate obj"
    if obj: "object_at w1 a = Some obj" "users obj \<noteq> [] \<or> store_state obj = LLCACHE_STATE_RAM" for a obj
  proof -
    obtain obj2 where 3: "object_at w2 a = Some obj2" "users obj2 = users obj" "store_state obj2 = store_state obj" "candidate obj2 = candidate obj"
      by (rule findsE [OF 1 obj])
    then have "users obj2 \<noteq> [] \<or> store_state obj2 = LLCACHE_STATE_RAM"
      using obj(2) by simp
    then obtain obj3 where "object_at w3 a = Some obj3" "users obj3 = users obj2" "store_state obj3 = store_state obj2" "candidate obj3 = candidate obj2"
      by (rule findsE [OF 2 3(1)])
    then show ?thesis
      using 3 by auto
  qed
  moreover have "\<exists>obj. object_at w1 a = Some obj \<and> users obj = users obj'" if "object_at w3 a = Some obj'" "users obj' \<noteq> []" for a obj'
    using that 1 2 unfolding finds_def by metis
  ultimately show ?thesis
    using 1 2 unfolding finds_def by auto
qed

lemma finds_frame [simp]:
  "finds w (w'\<lparr>memory := m\<rparr>) = finds w w'" "finds w (w'\<lparr>outside := x\<rparr>) = finds w w'"
  "finds w (w'\<lparr>uncached_objects := us\<rparr>) = finds w w'" "finds w (w'\<lparr>cached_objects := us\<rparr>) = finds w w'"
  "finds w (with_memory g w') = finds w w'" "finds w (outside_do f w') = finds w w'" "finds w (llcache_users_not_caught_up w') = finds w w'"
  "finds (w\<lparr>memory := m\<rparr>) w' = finds w w'" "finds (w\<lparr>outside := x\<rparr>) w' = finds w w'"
  by (simp_all add: finds_def with_memory_def outside_do_def llcache_users_not_caught_up_def)

lemma finds_keeps_targets: "finds w w' \<Longrightarrow> keeps_targets w w'"
proof -
  assume finds: "finds w w'"
  have "user_at w' = user_at w"
    using finds by (simp add: finds_def)
  moreover have "\<exists>obj'. object_at w' a = Some obj' \<and> users obj' = users obj" if "object_at w a = Some obj" "u \<in> set (users obj)" for a obj u
    using findsE [OF finds that(1)] that(2) by (metis list.distinct(1) list.set_cases)
  ultimately show ?thesis
    by (fastforce simp: keeps_defs intro!: exI [of _ "\<lambda>_. True"])
qed

lemma finds_unattached: "finds w w' \<Longrightarrow> unattached w u \<Longrightarrow> unattached w' u"
  unfolding finds_def unattached_def by (metis empty_iff list.set(1))

lemma set_object_ok:
  assumes ok: "cache_ok w" and obj: "object_at w a = Some obj"
    and same: "users obj' = users obj" "candidate obj' = candidate obj" "candidate_count obj' = candidate_count obj"
    and "sound obj'" and evicted: "evicted obj' \<Longrightarrow> evicted obj \<or> users obj = [] \<and> claims a w = {}"
  shows "cache_ok (set_object a obj' w)" and "store_state obj' = store_state obj \<Longrightarrow> finds w (set_object a obj' w)"
proof -
  let ?w = "set_object a obj' w"
  have used: "users obj \<noteq> [] \<longrightarrow> \<not> evicted obj'"
    using cache_okD(6) [OF ok obj] evicted by blast
  then have "heap_ok ?w"
    using heap_ok_set_object [OF cache_okD(1) [OF ok] obj same(1)] \<open>sound obj'\<close> by (simp add: readable_def sound_def)
  moreover have "all_sound ?w" "used_ok ?w"
    using ok \<open>sound obj'\<close> used same(1) by (simp_all add: cache_ok_def all_sound_def used_ok_def set_object_def)
  moreover have "candidates_ok ?w"
  proof -
    have claims: "claims c ?w = claims c w" for c
      using obj same(2) by (auto simp: claims_def set_object_def)
    have "c \<noteq> b \<and> (\<exists>old. object_at ?w c = Some old \<and> \<not> evicted old)" if x: "object_at ?w b = Some x" "candidate x = Some c" for b x c
    proof -
      obtain y where y: "object_at w b = Some y" "candidate y = Some c"
        using x obj same(2) by (cases "b = a") (auto simp: set_object_def)
      have "a \<noteq> c \<or> claims a w \<noteq> {}"
        using y by (auto simp: claims_def)
      then show ?thesis
        using cache_okD(3) [OF ok y] evicted obj by (auto simp: set_object_def)
    qed
    moreover have "card (claims c ?w) \<le> unat (candidate_count x) \<and> unat (candidate_count x) \<le> next_address ?w" if x: "object_at ?w c = Some x" for c x
    proof -
      obtain y where y: "object_at w c = Some y" "candidate_count y = candidate_count x"
        using x obj same(3) by (cases "c = a") (auto simp: set_object_def)
      show ?thesis
        using cache_okD(4,5) [OF ok y(1)] y(2) by (simp add: claims) (simp add: set_object_def)
    qed
    ultimately show ?thesis
      unfolding candidates_ok_def by blast
  qed
  ultimately show "cache_ok ?w"
    by (simp add: cache_ok_def)
  show "finds w ?w" if "store_state obj' = store_state obj"
    using obj same(1,2) that by (auto simp: finds_def set_object_def)
qed

text \<open>An object that nothing points to; it can be destroyed, or put into a list.\<close>

definition unshared :: "nat \<Rightarrow> 'x world \<Rightarrow> bool" where
  "unshared a w \<longleftrightarrow> loose w a \<and> claims a w = {}"

lemma unshared_frame [simp]:
  "unshared a (w\<lparr>memory := m\<rparr>) = unshared a w" "unshared a (w\<lparr>outside := x\<rparr>) = unshared a w" "unshared a (with_memory g w) = unshared a w"
  by (simp_all add: unshared_def loose_def claims_def with_memory_def)

lemma unshared_set_object:
  assumes "unshared a w" and "object_at w b = Some obj" and "users obj' = users obj" and "candidate obj' = candidate obj \<or> candidate obj' \<noteq> Some a"
  shows "unshared a (set_object b obj' w)"
proof -
  have "candidate obj \<noteq> Some a"
    using assms(1,2) by (auto simp: unshared_def claims_def)
  then have "candidate obj' \<noteq> Some a"
    using assms(4) by auto
  then have "claims a (set_object b obj' w) = {}"
    using assms(1) by (auto simp: unshared_def claims_def set_object_def)
  moreover have "loose (set_object b obj' w) a"
    using assms(1-3) by (auto simp: unshared_def loose_def set_object_def)
  ultimately show ?thesis
    by (simp add: unshared_def)
qed

lemma new_object_ok:
  assumes ok: "cache_ok w" and "nsurl_wf url" and make: "make_object url w = (Inr a, w')"
  shows "cache_ok w' \<and> finds w w' \<and> unshared a w' \<and> object_at w a = None \<and> object_at w' = (object_at w)(a \<mapsto> new_object url) \<and>
    next_address w' = next_address w + 1 \<and> cached_objects w' = cached_objects w \<and> uncached_objects w' = uncached_objects w"
proof -
  obtain m where a: "a = next_address w" and w': "w' = w\<lparr>memory := m, next_address := next_address w + 1,
      object_at := (object_at w)(next_address w \<mapsto> new_object url)\<rparr>"
    using make_object_cases [OF make] by auto
  have none: "object_at w a = None"
    using cache_okD(1) [OF ok] by (simp add: a heap_ok_def fresh_ok_def)
  have "heap_ok w'"
    using make_object_ok [OF cache_okD(1) [OF ok] make] by simp
  moreover have "keeps_objects w w'"
    using none assms(2) by (auto simp: keeps_objects_def w' a)
  ultimately have "cache_ok w'"
    using keeps_objects_cache_ok [OF ok] by blast
  moreover have "finds w w'"
    using none by (auto simp: finds_def w' a)
  moreover have "loose w' a"
    using none listed_alive [OF cache_okD(1) [OF ok], of a] by (auto simp: loose_def w' a)
  moreover have "claims a w' = {}"
  proof -
    have "candidate x \<noteq> Some a" if "object_at w b = Some x" for b x
      using cache_okD(3) [OF ok that, of a] none by auto
    then show ?thesis
      by (auto simp: claims_def w' a)
  qed
  ultimately show ?thesis
    using none by (simp add: unshared_def w' a)
qed

lemma make_object_fails: "make_object url w = (Inl e, w') \<Longrightarrow> \<exists>m. w' = w\<lparr>memory := m\<rparr>"
  using make_object_cases by fastforce

lemma destroy_unshared:
  assumes ok: "cache_ok w" and unshared: "unshared a w"
  shows "\<exists>w'. llcache_object_destroy env a w = Some w' \<and> cache_ok w' \<and> object_at w' = (object_at w)(a := None) \<and>
    cached_objects w' = cached_objects w \<and> uncached_objects w' = uncached_objects w \<and> next_address w' = next_address w \<and>
    user_at w' = user_at w \<and> handle_at w' = handle_at w"
proof -
  obtain w' where w': "llcache_object_destroy env a w = Some w'" "heap_ok w'"
    using destroy_ok [OF cache_okD(1) [OF ok], of a env] unshared by (auto simp: unshared_def)
  obtain m x where eq: "w' = w\<lparr>memory := m, outside := x, object_at := (object_at w)(a := None)\<rparr>"
    using destroy_cases [OF w'(1)] by blast
  have "all_sound w'" "used_ok w'"
    using ok by (auto simp: eq cache_ok_def all_sound_def used_ok_def)
  moreover have "candidates_ok w'"
  proof -
    have "c \<noteq> a" if "object_at w b = Some x" "candidate x = Some c" for b x c
      using that unshared by (auto simp: unshared_def claims_def)
    then have "c \<noteq> b \<and> (\<exists>old. object_at w' c = Some old \<and> \<not> evicted old)" if "object_at w' b = Some x" "candidate x = Some c" for b x c
      using that cache_okD(3) [OF ok, of b x c] by (auto simp: eq split: if_splits)
    moreover have "card (claims c w') \<le> unat (candidate_count x) \<and> unat (candidate_count x) \<le> next_address w'" if "object_at w' c = Some x" for c x
    proof -
      have "claims c w' \<subseteq> claims c w"
        by (auto simp: claims_def eq split: if_splits)
      then have "card (claims c w') \<le> card (claims c w)"
        by (rule card_mono [OF claims_finite [OF cache_okD(1) [OF ok]]])
      moreover have "object_at w c = Some x"
        using that by (simp add: eq split: if_splits)
      ultimately show ?thesis
        using cache_okD(4,5) [OF ok, of c x] by (simp add: eq)
    qed
    ultimately show ?thesis
      unfolding candidates_ok_def by blast
  qed
  ultimately show ?thesis
    using w' by (simp add: cache_ok_def eq)
qed

lemma finds_destroy:
  assumes "finds w0 w" and "object_at w0 a = None \<or> (\<exists>obj. object_at w0 a = Some obj \<and> users obj = [] \<and> store_state obj = LLCACHE_STATE_DISC)"
    and "object_at w' = (object_at w)(a := None)" and "user_at w' = user_at w" and "handle_at w' = handle_at w" and "next_address w' = next_address w"
  shows "finds w0 w'"
  using assms unfolding finds_def by auto

text \<open>An object that nothing points to is put into the list of cached or of uncached objects.\<close>

lemma list_unshared:
  assumes ok: "cache_ok w" and unshared: "unshared a w"
  shows "cache_ok (w\<lparr>cached_objects := a # cached_objects w\<rparr>)" and "cache_ok (w\<lparr>uncached_objects := a # uncached_objects w\<rparr>)"
proof -
  have a: "object_at w a \<noteq> None" "a \<notin> set (cached_objects w @ uncached_objects w)"
    using unshared by (auto simp: unshared_def loose_def)
  have "object_ok (w\<lparr>cached_objects := l\<rparr>) b x = object_ok w b x" "object_ok (w\<lparr>uncached_objects := l\<rparr>) b x = object_ok w b x" for b x l
    by (simp_all add: object_ok_def user_ok_def)
  then have "heap_ok (w\<lparr>cached_objects := a # cached_objects w\<rparr>)" "heap_ok (w\<lparr>uncached_objects := a # uncached_objects w\<rparr>)"
    using cache_okD(1) [OF ok] a by (auto simp: heap_ok_def owners_ok_def fresh_ok_def lists_ok_def)
  then show "cache_ok (w\<lparr>cached_objects := a # cached_objects w\<rparr>)" "cache_ok (w\<lparr>uncached_objects := a # uncached_objects w\<rparr>)"
    using ok candidates_ok_cong [of "w\<lparr>cached_objects := a # cached_objects w\<rparr>" w] candidates_ok_cong [of "w\<lparr>uncached_objects := a # uncached_objects w\<rparr>" w]
    by (simp_all add: cache_ok_def used_ok_def)
qed

end
