(* ===== verification/Llcache_Notify.thy ===== *)
theory Llcache_Notify
  imports Llcache_Cache_Inv
begin

text \<open>
  \<^verbatim>\<open>src/content/llcache.c\<close>: telling the users of an object of events and of the progress of its fetch.
  The clients are functions from the event and the world to an error code and the world they leave,
  and may use the interface of handles from within; the interface of clients is a locale.
\<close>

section \<open>Events\<close>

datatype llcache_event =
    LLCACHE_EVENT_GOT_CERTS cert_chain
  | LLCACHE_EVENT_HAD_HEADERS
  | LLCACHE_EVENT_HAD_DATA "8 word list"
  | LLCACHE_EVENT_DONE
  | LLCACHE_EVENT_ERROR nserror "string option"
  | LLCACHE_EVENT_PROGRESS string
  | LLCACHE_EVENT_REDIRECT nsurl nsurl

text \<open>A callback: its number, the handle, the event and the data of the client.\<close>

type_synonym 'x callback = "nat \<Rightarrow> nat \<Rightarrow> llcache_event \<Rightarrow> nat \<Rightarrow> 'x world \<Rightarrow> nserror \<times> 'x world"

definition call_client :: "'x callback \<Rightarrow> nat \<Rightarrow> llcache_event \<Rightarrow> 'x world \<Rightarrow> (nserror \<times> 'x world) option" where
  "call_client answer h event w = do { hdl \<leftarrow> handle_at w h; Some (answer (handle_cb hdl) h event (handle_pw hdl) w) }"

definition set_target :: "nat \<Rightarrow> bool \<Rightarrow> 'x world \<Rightarrow> 'x world option" where
  "set_target u b w = do { user \<leftarrow> user_at w u; Some (set_user u (user\<lparr>iterator_target := b\<rparr>) w) }"

partial_function (option) send_event_from ::
  "'x environment \<Rightarrow> 'x callback \<Rightarrow> nat \<Rightarrow> llcache_event \<Rightarrow> nat option \<Rightarrow> 'x world \<Rightarrow> (nserror \<times> 'x world) option" where
  "send_event_from env answer a event p w =
     (case p of
        None \<Rightarrow> Some (NSERROR_OK, w)
      | Some u \<Rightarrow>
          do {
            user \<leftarrow> user_at w u;
            w1 \<leftarrow> set_target u True w;
            h \<leftarrow> user_handle user;
            (error, w2) \<leftarrow> call_client answer h event w1;
            obj \<leftarrow> object_at w2 a;
            user2 \<leftarrow> user_at w2 u;
            w3 \<leftarrow> set_target u (iterator_target user) w2;
            w4 \<leftarrow> (if queued_for_delete user2 \<and> \<not> iterator_target user then detach env a u w3 else Some w3);
            if error \<noteq> NSERROR_OK then Some (error, w4) else send_event_from env answer a event (next_of u (users obj)) w4
          })"

definition first_user :: "llcache_object \<Rightarrow> nat option" where
  "first_user obj = (case users obj of [] \<Rightarrow> None | u # _ \<Rightarrow> Some u)"

definition llcache_send_event_to_users ::
  "'x environment \<Rightarrow> 'x callback \<Rightarrow> nat \<Rightarrow> llcache_event \<Rightarrow> 'x world \<Rightarrow> (nserror \<times> 'x world) option" where
  "llcache_send_event_to_users env answer a event w =
     do { obj \<leftarrow> object_at w a; send_event_from env answer a event (first_user obj) w }"

section \<open>Bringing users up to date\<close>

text \<open>How the code goes on after a step for a user: with the next step, the next user, or not at all.\<close>

datatype 'x progress =
    Go_On "'x world"
  | Next_User "nat option" "'x world"
  | Stop nserror "'x world"

definition set_state :: "nat \<Rightarrow> llcache_fetch_state \<Rightarrow> 'x world \<Rightarrow> 'x world option" where
  "set_state h st w = do { hdl \<leftarrow> handle_at w h; Some (set_handle h (hdl\<lparr>handle_state := st\<rparr>) w) }"

definition set_bytes :: "nat \<Rightarrow> nat \<Rightarrow> 'x world \<Rightarrow> 'x world option" where
  "set_bytes h n w = do { hdl \<leftarrow> handle_at w h; Some (set_handle h (hdl\<lparr>handle_bytes := n\<rparr>) w) }"

text \<open>After an event: the client may have gone, ask for the event again, or fail.\<close>

definition after_event ::
  "'x environment \<Rightarrow> nat \<Rightarrow> nat \<Rightarrow> ('x world \<Rightarrow> 'x world option) \<Rightarrow> nserror \<times> 'x world \<Rightarrow> 'x progress option" where
  "after_event env a u replay = (\<lambda>(error, w).
     do {
       user \<leftarrow> user_at w u;
       obj \<leftarrow> object_at w a;
       if queued_for_delete user then
         do { w1 \<leftarrow> detach env a u w; Some (if error \<noteq> NSERROR_OK then Stop error w1 else Next_User (next_of u (users obj)) w1) }
       else if error = NSERROR_NEED_DATA then
         do { w1 \<leftarrow> replay w; w2 \<leftarrow> set_target u False w1; Some (Next_User (next_of u (users obj)) (llcache_users_not_caught_up w2)) }
       else if error \<noteq> NSERROR_OK then do { w1 \<leftarrow> set_target u False w; Some (Stop error w1) }
       else Some (Go_On w)
     })"

definition notify_certs ::
  "'x environment \<Rightarrow> 'x callback \<Rightarrow> nat \<Rightarrow> nat \<Rightarrow> nat \<Rightarrow> llcache_fetch_state \<Rightarrow> 'x world \<Rightarrow> 'x progress option" where
  "notify_certs env answer a u h objstate w =
     do {
       hdl \<leftarrow> handle_at w h;
       if handle_state hdl = LLCACHE_FETCH_INIT \<and> objstate > LLCACHE_FETCH_INIT then
         do {
           w1 \<leftarrow> set_state h LLCACHE_FETCH_HEADERS w;
           obj \<leftarrow> object_at w1 a;
           r \<leftarrow> (case chain obj of None \<Rightarrow> Some (NSERROR_OK, w1) | Some ch \<Rightarrow> call_client answer h (LLCACHE_EVENT_GOT_CERTS ch) w1);
           after_event env a u (set_state h LLCACHE_FETCH_HEADERS) r
         }
       else Some (Go_On w)
     }"

definition notify_headers ::
  "'x environment \<Rightarrow> 'x callback \<Rightarrow> nat \<Rightarrow> nat \<Rightarrow> nat \<Rightarrow> llcache_fetch_state \<Rightarrow> 'x world \<Rightarrow> 'x progress option" where
  "notify_headers env answer a u h objstate w =
     do {
       hdl \<leftarrow> handle_at w h;
       if handle_state hdl = LLCACHE_FETCH_HEADERS \<and> objstate > LLCACHE_FETCH_HEADERS then
         do {
           w1 \<leftarrow> set_state h LLCACHE_FETCH_DATA w;
           r \<leftarrow> call_client answer h LLCACHE_EVENT_HAD_HEADERS w1;
           after_event env a u (set_state h LLCACHE_FETCH_HEADERS) r
         }
       else Some (Go_On w)
     }"

definition streaming :: "llcache_object \<Rightarrow> bool" where
  "streaming obj \<longleftrightarrow> fetch_flags (obj_fetch obj) AND retrieve_stream_data \<noteq> 0"

definition notify_data ::
  "'x environment \<Rightarrow> 'x callback \<Rightarrow> nat \<Rightarrow> nat \<Rightarrow> nat \<Rightarrow> llcache_fetch_state \<Rightarrow> 'x world \<Rightarrow> 'x progress option" where
  "notify_data env answer a u h objstate w =
     do {
       hdl \<leftarrow> handle_at w h;
       obj \<leftarrow> object_at w a;
       if handle_state hdl = LLCACHE_FETCH_DATA \<and> objstate \<ge> LLCACHE_FETCH_DATA \<and> source_len obj > handle_bytes hdl then
         do {
           bytes \<leftarrow> read_source (handle_bytes hdl) obj;
           let orig_handle_read = (if streaming obj then 0 else handle_bytes hdl);
           let w1 = (if streaming obj
             then set_object a (obj\<lparr>source_len := 0\<rparr>) (set_handle h (hdl\<lparr>handle_bytes := 0\<rparr>) w)
             else set_handle h (hdl\<lparr>handle_bytes := source_len obj\<rparr>) w);
           r \<leftarrow> call_client answer h (LLCACHE_EVENT_HAD_DATA bytes) w1;
           after_event env a u (set_bytes h orig_handle_read) r
         }
       else Some (Go_On w)
     }"

definition notify_done ::
  "'x environment \<Rightarrow> 'x callback \<Rightarrow> nat \<Rightarrow> nat \<Rightarrow> nat \<Rightarrow> llcache_fetch_state \<Rightarrow> 'x world \<Rightarrow> 'x progress option" where
  "notify_done env answer a u h objstate w =
     do {
       hdl \<leftarrow> handle_at w h;
       if handle_state hdl = LLCACHE_FETCH_DATA \<and> objstate > LLCACHE_FETCH_DATA then
         do {
           w1 \<leftarrow> set_state h LLCACHE_FETCH_COMPLETE w;
           r \<leftarrow> call_client answer h LLCACHE_EVENT_DONE w1;
           after_event env a u (set_state h LLCACHE_FETCH_DATA) r
         }
       else Some (Go_On w)
     }"

definition then_step :: "'x progress option \<Rightarrow> ('x world \<Rightarrow> 'x progress option) \<Rightarrow> 'x progress option" where
  "then_step r f = do { x \<leftarrow> r; case x of Go_On w \<Rightarrow> f w | _ \<Rightarrow> Some x }"

definition notify_user :: "'x environment \<Rightarrow> 'x callback \<Rightarrow> nat \<Rightarrow> nat \<Rightarrow> 'x world \<Rightarrow> 'x progress option" where
  "notify_user env answer a u w =
     do {
       user \<leftarrow> user_at w u;
       h \<leftarrow> user_handle user;
       obj \<leftarrow> object_at w a;
       let objstate = fetch_state (obj_fetch obj);
       w1 \<leftarrow> set_target u True w;
       then_step (notify_certs env answer a u h objstate w1) (\<lambda>w2.
       then_step (notify_headers env answer a u h objstate w2) (\<lambda>w3.
       then_step (notify_data env answer a u h objstate w3) (\<lambda>w4.
       then_step (notify_done env answer a u h objstate w4) (\<lambda>w5.
         do { w6 \<leftarrow> set_target u False w5; obj6 \<leftarrow> object_at w6 a; Some (Next_User (next_of u (users obj6)) w6) }))))
     }"

partial_function (option) notify_from ::
  "'x environment \<Rightarrow> 'x callback \<Rightarrow> nat \<Rightarrow> nat option \<Rightarrow> 'x world \<Rightarrow> (nserror \<times> 'x world) option" where
  "notify_from env answer a p w =
     (case p of
        None \<Rightarrow> Some (NSERROR_OK, w)
      | Some u \<Rightarrow>
          do {
            r \<leftarrow> notify_user env answer a u w;
            case r of
              Stop error w1 \<Rightarrow> Some (error, w1)
            | Next_User q w1 \<Rightarrow> notify_from env answer a q w1
            | Go_On w1 \<Rightarrow> None
          })"

definition llcache_object_notify_users :: "'x environment \<Rightarrow> 'x callback \<Rightarrow> nat \<Rightarrow> 'x world \<Rightarrow> (nserror \<times> 'x world) option" where
  "llcache_object_notify_users env answer a w =
     do { obj \<leftarrow> object_at w a; notify_from env answer a (first_user obj) w }"

text \<open>The object that follows in the list that holds an object now.\<close>

definition next_object :: "nat \<Rightarrow> 'x world \<Rightarrow> nat option" where
  "next_object a w = (if a \<in> set (cached_objects w) then next_of a (cached_objects w) else next_of a (uncached_objects w))"

partial_function (option) catch_up_from :: "'x environment \<Rightarrow> 'x callback \<Rightarrow> nat option \<Rightarrow> 'x world \<Rightarrow> 'x world option" where
  "catch_up_from env answer p w =
     (case p of
        None \<Rightarrow> Some w
      | Some a \<Rightarrow> do { (error, w1) \<leftarrow> llcache_object_notify_users env answer a w; catch_up_from env answer (next_object a w1) w1 })"

definition head_of :: "nat list \<Rightarrow> nat option" where
  "head_of list = (case list of [] \<Rightarrow> None | a # _ \<Rightarrow> Some a)"

definition llcache_catch_up_all_users :: "'x environment \<Rightarrow> 'x callback \<Rightarrow> 'x world \<Rightarrow> 'x world option" where
  "llcache_catch_up_all_users env answer w =
     do {
       w1 \<leftarrow> catch_up_from env answer (head_of (cached_objects w)) (w\<lparr>all_caught_up := True\<rparr>);
       catch_up_from env answer (head_of (uncached_objects w1)) w1
     }"

section \<open>Clients\<close>

text \<open>What a client may do from its callback: change the world outside and use handles that are valid.\<close>

inductive client_step :: "'x environment \<Rightarrow> 'x world \<Rightarrow> 'x world \<Rightarrow> bool" for env where
  outside_step: "client_step env w (w\<lparr>memory := m, outside := x\<rparr>)"
| release_step: "valid_handle w h \<Longrightarrow> llcache_handle_release env h w = Some w' \<Longrightarrow> client_step env w w'"
| clone_step: "valid_handle w h \<Longrightarrow> llcache_handle_clone h w = Some (r, w') \<Longrightarrow> client_step env w w'"
| abort_step: "valid_handle w h \<Longrightarrow> llcache_handle_abort env h w = Some (e, w') \<Longrightarrow> client_step env w w'"
| force_stream_step: "valid_handle w h \<Longrightarrow> llcache_handle_force_stream h w = Some w' \<Longrightarrow> client_step env w w'"
| invalidate_step: "valid_handle w h \<Longrightarrow> llcache_handle_invalidate_cache_data h w = Some w' \<Longrightarrow> client_step env w w'"
| change_callback_step: "valid_handle w h \<Longrightarrow> llcache_handle_change_callback h cb pw w = Some w' \<Longrightarrow> client_step env w w'"

lemma client_step_ok:
  assumes "client_step env w w'" and "heap_ok w"
  shows "heap_ok w' \<and> keeps_targets w w'"
  using assms(1)
proof cases
  case (outside_step m x)
  then show ?thesis
    using assms(2) by simp
next
  case (release_step h)
  then show ?thesis
    using release_ok [OF assms(2), of h env] by auto
next
  case (clone_step h r)
  then show ?thesis
    using clone_ok [OF assms(2), of h] by auto
next
  case (abort_step h e)
  then show ?thesis
    using abort_ok [OF assms(2), of h env] by auto
next
  case (force_stream_step h)
  then show ?thesis
    using force_stream_ok [OF assms(2), of h] by auto
next
  case (invalidate_step h)
  then show ?thesis
    using invalidate_cache_data_ok [OF assms(2), of h] by auto
next
  case (change_callback_step h cb pw)
  then show ?thesis
    using change_callback_ok [OF assms(2), of h cb pw] by auto
qed

lemma client_steps_ok: "(client_step env)\<^sup>*\<^sup>* w w' \<Longrightarrow> heap_ok w \<Longrightarrow> heap_ok w' \<and> keeps_targets w w'"
proof (induction rule: rtranclp_induct)
  case (step y z)
  then show ?case
    using client_step_ok [of env y z] keeps_targets_trans [of w y z] by blast
qed simp

section \<open>The state of an iteration\<close>

definition remaining :: "nat \<Rightarrow> nat \<Rightarrow> 'x world \<Rightarrow> nat list" where
  "remaining a u w = (case object_at w a of None \<Rightarrow> [] | Some obj \<Rightarrow> after u (users obj))"

text \<open>The user \<open>u\<close> of the object \<open>a\<close> is being told of events through its handle \<open>h\<close>.\<close>

definition busy :: "nat \<Rightarrow> nat \<Rightarrow> nat \<Rightarrow> 'x world \<Rightarrow> bool" where
  "busy a u h w \<longleftrightarrow> heap_ok w \<and> targets w \<subseteq> {u} \<and> (\<exists>obj user. object_at w a = Some obj \<and> u \<in> set (users obj) \<and> user_at w u = Some user \<and>
     iterator_target user \<and> (queued_for_delete user \<or> user_handle user = Some h))"

definition ready :: "nat \<Rightarrow> nat \<Rightarrow> nat \<Rightarrow> 'x world \<Rightarrow> bool" where
  "ready a u h w \<longleftrightarrow> busy a u h w \<and> (\<exists>user. user_at w u = Some user \<and> \<not> queued_for_delete user)"

text \<open>No iteration is going on, and the next user is in the list.\<close>

definition at_user :: "nat \<Rightarrow> nat option \<Rightarrow> 'x world \<Rightarrow> bool" where
  "at_user a p w \<longleftrightarrow> heap_ok w \<and> targets w = {} \<and> (\<exists>obj. object_at w a = Some obj \<and> (\<forall>u. p = Some u \<longrightarrow> u \<in> set (users obj)))"

definition to_go :: "nat \<Rightarrow> nat option \<Rightarrow> 'x world \<Rightarrow> nat list" where
  "to_go a p w = (case p of None \<Rightarrow> [] | Some u \<Rightarrow> u # remaining a u w)"

lemma busyE:
  assumes "busy a u h w"
  obtains obj user where "heap_ok w" "targets w \<subseteq> {u}" "object_at w a = Some obj" "u \<in> set (users obj)" "user_at w u = Some user"
    "iterator_target user" "queued_for_delete user \<or> user_handle user = Some h"
  using assms unfolding busy_def by blast

lemma readyE:
  assumes "ready a u h w"
  obtains obj user hdl where "heap_ok w" "targets w \<subseteq> {u}" "object_at w a = Some obj" "u \<in> set (users obj)" "user_at w u = Some user"
    "iterator_target user" "\<not> queued_for_delete user" "user_handle user = Some h" "handle_at w h = Some hdl" "handle_object hdl = Some a"
    "\<exists>bytes. read_source 0 obj = Some bytes"
proof -
  obtain obj user where 1: "heap_ok w" "targets w \<subseteq> {u}" "object_at w a = Some obj" "u \<in> set (users obj)" "user_at w u = Some user"
      "iterator_target user" "\<not> queued_for_delete user" "user_handle user = Some h"
    using assms unfolding ready_def busy_def by auto
  have "users obj \<noteq> []"
    using 1(4) by auto
  then show ?thesis
    using that 1 heap_okD(2) [OF 1(1,3,4)] heap_okD(3) [OF 1(1,3)] by (auto simp: user_ok_def)
qed

lemma keeps_busy:
  assumes "busy a u h w" and "heap_ok w'" and "keeps_targets w w'"
  shows "busy a u h w' \<and> (\<exists>P. remaining a u w' = filter P (remaining a u w))"
proof -
  obtain obj user where 1: "targets w \<subseteq> {u}" "object_at w a = Some obj" "u \<in> set (users obj)" "user_at w u = Some user"
    "iterator_target user" "queued_for_delete user \<or> user_handle user = Some h"
    using assms(1) by (rule busyE)
  have "keeps_positions w w'"
    using assms(3) by (simp add: keeps_targets_def)
  then obtain obj' user' P where "object_at w' a = Some obj'" "u \<in> set (users obj')" "user_at w' u = Some user'" "iterator_target user'"
    "after u (users obj') = filter P (after u (users obj))"
    "queued_for_delete user' \<or> user_handle user' = user_handle user \<and> queued_for_delete user' = queued_for_delete user"
    by (rule keeps_positionsE [OF _ 1(2-5)])
  then show ?thesis
    using 1 assms(2,3) by (auto simp: busy_def keeps_targets_def remaining_def)
qed

lemma next_remaining:
  assumes "heap_ok w" and "object_at w a = Some obj" and "u \<in> set (users obj)"
  shows "\<forall>v. next_of u (users obj) = Some v \<longrightarrow> v \<in> set (users obj) \<and> v \<noteq> u \<and> remaining a u w = v # after v (users obj)"
    and "next_of u (users obj) = None \<Longrightarrow> remaining a u w = []"
proof -
  have d: "distinct (users obj)"
    using heap_okD(1) [OF assms(1,2)] .
  show "\<forall>v. next_of u (users obj) = Some v \<longrightarrow> v \<in> set (users obj) \<and> v \<noteq> u \<and> remaining a u w = v # after v (users obj)"
  proof (intro allI impI)
    fix v
    assume "next_of u (users obj) = Some v"
    then have after: "after u (users obj) = v # tl (after u (users obj))"
      by (auto simp: next_of_after split: list.splits)
    then have "after v (users obj) = tl (after u (users obj))"
      by (rule after_next [OF d])
    moreover have "v \<in> set (users obj)"
      using after after_set [of u "users obj"] by (metis list.set_intros(1) subsetD)
    moreover have "v \<noteq> u"
      using after_split [OF assms(3) d] after d by (metis distinct.simps(2) distinct_append list.set_intros(1))
    ultimately show "v \<in> set (users obj) \<and> v \<noteq> u \<and> remaining a u w = v # after v (users obj)"
      using after assms(2) by (simp add: remaining_def)
  qed
  show "next_of u (users obj) = None \<Longrightarrow> remaining a u w = []"
    using assms(2) by (simp add: next_of_after remaining_def split: list.splits)
qed

text \<open>Leaving a user: the iteration goes on with those that remain behind it.\<close>

lemma leave_user:
  assumes "busy a u h w" and "object_at w a = Some obj" and user: "user_at w u = Some user" and "\<not> queued_for_delete user"
  shows "\<exists>w'. set_target u False w = Some w' \<and> at_user a (next_of u (users obj)) w' \<and> to_go a (next_of u (users obj)) w' = remaining a u w \<and>
    object_at w' = object_at w \<and> handle_at w' = handle_at w"
proof -
  let ?w = "set_user u (user\<lparr>iterator_target := False\<rparr>) w"
  have 1: "heap_ok w" "targets w \<subseteq> {u}" "u \<in> set (users obj)" "user_handle user = Some h"
    using assms by (auto simp: busy_def)
  have "heap_ok ?w"
    using 1(4) assms(4) by (intro heap_ok_set_user [OF 1(1) user]) simp_all
  moreover have "targets ?w = {}"
    using 1(2) by (auto simp: targets_def set_user_def)
  moreover have "object_at ?w = object_at w" "handle_at ?w = handle_at w"
    by (simp_all add: set_user_def)
  ultimately show ?thesis
    using next_remaining [OF 1(1) assms(2) 1(3)] assms(2) user
    by (cases "next_of u (users obj)") (auto simp: set_target_def at_user_def to_go_def remaining_def)
qed

lemma drop_user:
  assumes "busy a u h w" and obj: "object_at w a = Some obj"
  shows "\<exists>w'. detach env a u w = Some w' \<and> at_user a (next_of u (users obj)) w' \<and> to_go a (next_of u (users obj)) w' = remaining a u w"
proof -
  have 1: "heap_ok w" "targets w \<subseteq> {u}" "u \<in> set (users obj)"
    using assms by (auto simp: busy_def)
  obtain w' t where w': "detach env a u w = Some w'" "heap_ok w'" "object_at w' a = Some (obj\<lparr>users := remove1 u (users obj), last_used := t\<rparr>)"
      "\<forall>v. v \<noteq> u \<longrightarrow> user_at w' v = user_at w v"
    using detach_ok [OF 1(1) obj 1(3), of env] by blast
  have "user_at w' u = None"
    using detach_eq [OF 1(1) obj 1(3), of env] w'(1) by auto
  then have none: "targets w' = {}"
  proof -
    have "v \<notin> targets w'" for v
      using 1(2) w'(4) \<open>user_at w' u = None\<close> by (cases "v = u") (auto simp: targets_def)
    then show ?thesis
      by blast
  qed
  have d: "distinct (users obj)"
    using heap_okD(1) [OF 1(1) obj] .
  show ?thesis
  proof (cases "next_of u (users obj)")
    case None
    then show ?thesis
      using w' none next_remaining(2) [OF 1(1) obj 1(3)] by (auto simp: at_user_def to_go_def)
  next
    case (Some v)
    then have v: "v \<in> set (users obj)" "v \<noteq> u" "remaining a u w = v # after v (users obj)"
      using next_remaining(1) [OF 1(1) obj 1(3)] by auto
    have "u \<notin> set (after v (users obj))"
    proof -
      obtain front where "users obj = front @ u # v # after v (users obj)"
        using after_split [OF 1(3) d] v(3) obj by (auto simp: remaining_def)
      then show ?thesis
        using d by (metis distinct.simps(2) distinct_append list.set_intros(2))
    qed
    then have "filter (\<lambda>x. x \<noteq> u) (after v (users obj)) = after v (users obj)"
      by (intro filter_True) auto
    then have "after v (remove1 u (users obj)) = after v (users obj)"
      using after_remove1 [OF v(2) d] by simp
    then have "remaining a v w' = after v (users obj)"
      using w'(3) by (simp add: remaining_def)
    then show ?thesis
      using Some w' none v by (auto simp: at_user_def to_go_def set_remove1_eq d)
  qed
qed

lemma ready_set_handle:
  assumes "ready a u h w" and "handle_at w h = Some hdl" and "handle_object hdl' = handle_object hdl"
  shows "ready a u h (set_handle h hdl' w)" and "remaining a u (set_handle h hdl' w) = remaining a u w"
  using assms heap_ok_set_handle [OF _ assms(2,3)]
  by (auto simp: ready_def busy_def targets_def remaining_def set_handle_def)

lemma ready_set_object:
  assumes "ready a u h w" and "object_at w a = Some obj" and "users obj' = users obj" and "read_source 0 obj' \<noteq> None"
  shows "ready a u h (set_object a obj' w)" and "remaining a u (set_object a obj' w) = remaining a u w"
  using assms heap_ok_set_object [OF _ assms(2,3)]
  by (auto simp: ready_def busy_def targets_def remaining_def set_object_def)

text \<open>What a step for the user \<open>u\<close> leaves behind, with at most \<open>n\<close> users to go after it.\<close>

definition step_ok :: "nat \<Rightarrow> nat \<Rightarrow> nat \<Rightarrow> nat \<Rightarrow> 'x progress \<Rightarrow> bool" where
  "step_ok a u h n r \<longleftrightarrow>
     (case r of
        Go_On w \<Rightarrow> ready a u h w \<and> length (remaining a u w) \<le> n
      | Next_User p w \<Rightarrow> at_user a p w \<and> length (to_go a p w) \<le> n
      | Stop e w \<Rightarrow> heap_ok w \<and> targets w = {})"

text \<open>The code itself allocates nothing while it goes through the users.\<close>

definition tends :: "'x world \<Rightarrow> 'x world \<Rightarrow> bool" where
  "tends w w' \<longleftrightarrow> keeps_objects w w' \<and> next_address w' = next_address w"

lemma tends_refl [simp]: "tends w w"
  by (simp add: tends_def)

lemma tends_trans: "tends w1 w2 \<Longrightarrow> tends w2 w3 \<Longrightarrow> tends w1 w3"
  unfolding tends_def using keeps_objects_trans by fastforce

lemma tends_set [simp]: "tends w (set_handle h hdl w)" "tends w (set_user u user w)"
  by (simp_all add: tends_def) (simp_all add: set_handle_def set_user_def)

lemma tends_caught_up [simp]: "tends w (llcache_users_not_caught_up w') = tends w w'"
  by (simp add: tends_def) (simp add: llcache_users_not_caught_up_def)

lemma detach_tends: "detach env a u w = Some w' \<Longrightarrow> tends w w'"
  unfolding tends_def using detach_objects [of env a u w w']
  by (auto simp: detach_def llcache_object_remove_user_def llcache_object_user_destroy_def set_object_def with_memory_def Let_def
      split: bind_split_asm if_splits option.splits)

lemma set_target_objects: "set_target u b w = Some w' \<Longrightarrow> tends w w'"
  by (auto simp: set_target_def split: bind_split_asm)

lemma set_state_objects: "set_state h st w = Some w' \<Longrightarrow> tends w w'" "set_bytes h n w = Some w' \<Longrightarrow> tends w w'"
  by (auto simp: set_state_def set_bytes_def split: bind_split_asm)

definition replays :: "nat \<Rightarrow> ('x world \<Rightarrow> 'x world option) \<Rightarrow> bool" where
  "replays h replay \<longleftrightarrow>
     (\<forall>w hdl. handle_at w h = Some hdl \<longrightarrow> (\<exists>hdl'. replay w = Some (set_handle h hdl' w) \<and> handle_object hdl' = handle_object hdl)) \<and>
     (\<forall>w w'. replay w = Some w' \<longrightarrow> tends w w')"

lemma replays_set [simp]: "replays h (set_state h st)" "replays h (set_bytes h n)"
  using set_state_objects by (auto simp: replays_def set_state_def set_bytes_def)

lemma at_user_caught_up [simp]: "at_user a p (llcache_users_not_caught_up w) = at_user a p w"
    "to_go a p (llcache_users_not_caught_up w) = to_go a p w"
  by (simp_all add: at_user_def to_go_def targets_def) (simp_all add: remaining_def llcache_users_not_caught_up_def split: option.split)

lemma at_userD: "at_user a p w \<Longrightarrow> heap_ok w \<and> targets w = {}"
  by (simp add: at_user_def)

lemma after_event_ok:
  assumes busy: "busy a u h w" and n: "length (remaining a u w) \<le> n" and replay: "replays h replay"
  shows "\<exists>r. after_event env a u replay (error, w) = Some r \<and> step_ok a u h n r"
proof -
  obtain obj user where 1: "heap_ok w" "targets w \<subseteq> {u}" "object_at w a = Some obj" "u \<in> set (users obj)" "user_at w u = Some user"
    "iterator_target user" "queued_for_delete user \<or> user_handle user = Some h"
    using busy by (rule busyE)
  show ?thesis
  proof (cases "queued_for_delete user")
    case True
    obtain w' where "detach env a u w = Some w'" "at_user a (next_of u (users obj)) w'" "to_go a (next_of u (users obj)) w' = remaining a u w"
      using drop_user [OF busy 1(3)] by blast
    then show ?thesis
      using True 1(3,5) n by (auto simp: after_event_def step_ok_def dest: at_userD)
  next
    case False
    have ready: "ready a u h w"
      using busy False 1(5) by (auto simp: ready_def)
    obtain hdl where hdl: "handle_at w h = Some hdl"
      using ready by (rule readyE)
    show ?thesis
    proof (cases "error = NSERROR_NEED_DATA")
      case True
      obtain hdl' where w1: "replay w = Some (set_handle h hdl' w)" "handle_object hdl' = handle_object hdl"
        using replay hdl unfolding replays_def by blast
      let ?w1 = "set_handle h hdl' w"
      have ready1: "ready a u h ?w1" "remaining a u ?w1 = remaining a u w"
        using ready_set_handle [OF ready hdl w1(2)] by auto
      have at: "object_at ?w1 a = Some obj" "user_at ?w1 u = Some user"
        using 1(3,5) by (simp_all add: set_handle_def)
      have busy1: "busy a u h ?w1"
        using ready1(1) by (simp add: ready_def)
      obtain w2 where "set_target u False ?w1 = Some w2" "at_user a (next_of u (users obj)) w2" "to_go a (next_of u (users obj)) w2 = remaining a u w"
        using leave_user [OF busy1 at False] ready1(2) by auto
      then show ?thesis
        using True False 1(3,5) n w1(1) by (simp add: after_event_def step_ok_def)
    next
      case need: False
      show ?thesis
      proof (cases "error = NSERROR_OK")
        case True
        then show ?thesis
          using False 1(3,5) n ready by (simp add: after_event_def step_ok_def)
      next
        case error: False
        obtain w2 where "set_target u False w = Some w2" "at_user a (next_of u (users obj)) w2"
          using leave_user [OF busy 1(3,5) False] by blast
        then show ?thesis
          using error need False 1(3,5) by (auto simp: after_event_def step_ok_def dest: at_userD)
      qed
    qed
  qed
qed

lemma step_okD: "step_ok a u h n r \<Longrightarrow> r = Go_On w \<Longrightarrow> ready a u h w \<and> length (remaining a u w) \<le> n"
  by (simp add: step_ok_def)

lemma then_step_ok:
  assumes "\<exists>r. x = Some r \<and> step_ok a u h n r"
    and "\<And>w. ready a u h w \<Longrightarrow> length (remaining a u w) \<le> n \<Longrightarrow> \<exists>r. f w = Some r \<and> step_ok a u h n r"
  shows "\<exists>r. then_step x f = Some r \<and> step_ok a u h n r"
proof -
  obtain r where "x = Some r" "step_ok a u h n r"
    using assms(1) by blast
  then show ?thesis
    using assms(2) by (cases r) (auto simp: then_step_def step_ok_def)
qed

lemma send_event_from_user:
  "send_event_from env answer a event (Some u) w =
     do {
       user \<leftarrow> user_at w u;
       w1 \<leftarrow> set_target u True w;
       h \<leftarrow> user_handle user;
       (error, w2) \<leftarrow> call_client answer h event w1;
       obj \<leftarrow> object_at w2 a;
       user2 \<leftarrow> user_at w2 u;
       w3 \<leftarrow> set_target u (iterator_target user) w2;
       w4 \<leftarrow> (if queued_for_delete user2 \<and> \<not> iterator_target user then detach env a u w3 else Some w3);
       if error \<noteq> NSERROR_OK then Some (error, w4) else send_event_from env answer a event (next_of u (users obj)) w4
     }"
  by (subst send_event_from.simps) simp

text \<open>What the code itself does to the objects between two calls of clients.\<close>

fun world_of :: "'x progress \<Rightarrow> 'x world" where
  "world_of (Go_On w) = w"
| "world_of (Next_User p w) = w"
| "world_of (Stop e w) = w"

lemma after_event_objects:
  assumes "after_event env a u replay (error, w) = Some r" and "\<And>w'. replay w = Some w' \<Longrightarrow> tends w w'"
  shows "tends w (world_of r)"
  using assms
  by (auto simp: after_event_def split: bind_split_asm if_splits dest!: detach_tends set_target_objects intro: tends_trans)

lemma step_ok_heap: "step_ok a u h n r \<Longrightarrow> heap_ok (world_of r)"
  by (cases r) (auto simp: step_ok_def ready_def busy_def at_user_def)

section \<open>The interface of clients\<close>

text \<open>
  The invariant \<open>inv\<close> is what the clients rely on and keep; the code keeps it, too, because it does
  no more to the objects than \<open>tends\<close> says.
\<close>

locale cache_clients =
  fixes env :: "'x environment" and answer :: "'x callback" and inv :: "'x world \<Rightarrow> bool"
  assumes inv_heap: "inv w \<Longrightarrow> heap_ok w"
    and inv_keeps: "inv w \<Longrightarrow> heap_ok w' \<Longrightarrow> tends w w' \<Longrightarrow> inv w'"
    and clients_keep: "inv w \<Longrightarrow> inv (snd (answer cb h event pw w)) \<and> keeps_targets w (snd (answer cb h event pw w))"
begin

lemma call_busy:
  assumes "ready a u h w" and "inv w" and n: "length (remaining a u w) \<le> n"
  shows "\<exists>error w'. call_client answer h event w = Some (error, w') \<and> busy a u h w' \<and> inv w' \<and> length (remaining a u w') \<le> n"
proof -
  obtain hdl where hdl: "heap_ok w" "handle_at w h = Some hdl"
    using assms(1) by (rule readyE)
  obtain error w' where call: "answer (handle_cb hdl) h event (handle_pw hdl) w = (error, w')"
    by (rule prod.exhaust)
  then have w': "inv w'" "keeps_targets w w'"
    using clients_keep [OF assms(2)] by (metis snd_conv)+
  moreover have "busy a u h w"
    using assms(1) by (simp add: ready_def)
  ultimately obtain P where P: "busy a u h w'" "remaining a u w' = filter P (remaining a u w)"
    using keeps_busy inv_heap by blast
  have "length (remaining a u w') \<le> n"
    unfolding P(2) using length_filter_le [of P "remaining a u w"] n by linarith
  then show ?thesis
    using call hdl(2) P(1) w'(1) by (simp add: call_client_def)
qed

definition stage_ok :: "nat \<Rightarrow> nat \<Rightarrow> nat \<Rightarrow> nat \<Rightarrow> 'x progress option \<Rightarrow> bool" where
  "stage_ok a u h n x \<longleftrightarrow> (\<exists>r. x = Some r \<and> step_ok a u h n r \<and> inv (world_of r))"

lemma after_event_inv:
  assumes "busy a u h w" and "inv w" and "length (remaining a u w) \<le> n" and replay: "replays h replay"
  shows "stage_ok a u h n (after_event env a u replay (error, w))"
proof -
  obtain r where r: "after_event env a u replay (error, w) = Some r" "step_ok a u h n r"
    using after_event_ok [OF assms(1,3,4)] by blast
  have "tends w (world_of r)"
    using after_event_objects [OF r(1)] replay by (simp add: replays_def)
  then show ?thesis
    using r inv_keeps [OF assms(2) step_ok_heap] by (auto simp: stage_ok_def)
qed

lemma event_ok:
  assumes "ready a u h w" and "inv w" and "length (remaining a u w) \<le> n" and "replays h replay"
  shows "stage_ok a u h n (do { r \<leftarrow> call_client answer h event w; after_event env a u replay r })"
proof -
  obtain error w' where "call_client answer h event w = Some (error, w')" "busy a u h w'" "inv w'" "length (remaining a u w') \<le> n"
    using call_busy [OF assms(1-3)] by blast
  then show ?thesis
    using after_event_inv [OF _ _ _ assms(4)] by simp
qed

lemma ready_set_state:
  assumes "ready a u h w" and "inv w" and "length (remaining a u w) \<le> n"
  shows "\<exists>w1. set_state h st w = Some w1 \<and> ready a u h w1 \<and> inv w1 \<and> length (remaining a u w1) \<le> n"
proof -
  obtain hdl where hdl: "handle_at w h = Some hdl"
    using assms(1) by (rule readyE)
  let ?w1 = "set_handle h (hdl\<lparr>handle_state := st\<rparr>) w"
  have "ready a u h ?w1" "remaining a u ?w1 = remaining a u w"
    using ready_set_handle [OF assms(1) hdl, of "hdl\<lparr>handle_state := st\<rparr>"] by simp_all
  moreover have "inv ?w1"
    using \<open>ready a u h ?w1\<close> by (intro inv_keeps [OF assms(2)]) (simp_all add: ready_def busy_def)
  ultimately show ?thesis
    using assms(3) hdl by (simp add: set_state_def)
qed

lemma stage_go_on: "ready a u h w \<Longrightarrow> inv w \<Longrightarrow> length (remaining a u w) \<le> n \<Longrightarrow> stage_ok a u h n (Some (Go_On w))"
  by (simp add: stage_ok_def step_ok_def)

lemma notify_certs_ok:
  assumes "ready a u h w" and "inv w" and "length (remaining a u w) \<le> n"
  shows "stage_ok a u h n (notify_certs env answer a u h objstate w)"
proof -
  obtain hdl where hdl: "handle_at w h = Some hdl"
    using assms(1) by (rule readyE)
  obtain w1 where w1: "set_state h LLCACHE_FETCH_HEADERS w = Some w1" "ready a u h w1" "inv w1" "length (remaining a u w1) \<le> n"
    using ready_set_state [OF assms] by blast
  obtain obj where obj: "object_at w1 a = Some obj"
    using w1(2) by (rule readyE)
  have busy: "busy a u h w1"
    using w1(2) by (simp add: ready_def)
  have "stage_ok a u h n (do { r \<leftarrow> (case chain obj of None \<Rightarrow> Some (NSERROR_OK, w1) | Some ch \<Rightarrow> call_client answer h (LLCACHE_EVENT_GOT_CERTS ch) w1);
      after_event env a u (set_state h LLCACHE_FETCH_HEADERS) r })"
    using event_ok [OF w1(2-4)] after_event_inv [OF busy w1(3,4)] by (cases "chain obj") simp_all
  then show ?thesis
    using hdl w1(1) obj stage_go_on [OF assms] by (auto simp: notify_certs_def)
qed

lemma notify_headers_ok:
  assumes "ready a u h w" and "inv w" and "length (remaining a u w) \<le> n"
  shows "stage_ok a u h n (notify_headers env answer a u h objstate w)"
proof -
  obtain hdl where hdl: "handle_at w h = Some hdl"
    using assms(1) by (rule readyE)
  obtain w1 where w1: "set_state h LLCACHE_FETCH_DATA w = Some w1" "ready a u h w1" "inv w1" "length (remaining a u w1) \<le> n"
    using ready_set_state [OF assms] by blast
  show ?thesis
    using event_ok [OF w1(2-4), of "set_state h LLCACHE_FETCH_HEADERS"] hdl w1(1) stage_go_on [OF assms] by (auto simp: notify_headers_def)
qed

lemma notify_done_ok:
  assumes "ready a u h w" and "inv w" and "length (remaining a u w) \<le> n"
  shows "stage_ok a u h n (notify_done env answer a u h objstate w)"
proof -
  obtain hdl where hdl: "handle_at w h = Some hdl"
    using assms(1) by (rule readyE)
  obtain w1 where w1: "set_state h LLCACHE_FETCH_COMPLETE w = Some w1" "ready a u h w1" "inv w1" "length (remaining a u w1) \<le> n"
    using ready_set_state [OF assms] by blast
  show ?thesis
    using event_ok [OF w1(2-4), of "set_state h LLCACHE_FETCH_DATA"] hdl w1(1) stage_go_on [OF assms] by (auto simp: notify_done_def)
qed

lemma stage_then:
  assumes "stage_ok a u h n x"
    and "\<And>w. ready a u h w \<Longrightarrow> inv w \<Longrightarrow> length (remaining a u w) \<le> n \<Longrightarrow> stage_ok a u h n (f w)"
  shows "stage_ok a u h n (then_step x f)"
proof -
  obtain r where "x = Some r" "step_ok a u h n r" "inv (world_of r)"
    using assms(1) by (auto simp: stage_ok_def)
  then show ?thesis
    using assms(2) by (cases r) (auto simp: then_step_def stage_ok_def step_ok_def)
qed

lemma notify_data_ok:
  assumes "ready a u h w" and "inv w" and "length (remaining a u w) \<le> n"
  shows "stage_ok a u h n (notify_data env answer a u h objstate w)"
proof -
  obtain obj hdl bytes0 where 1: "object_at w a = Some obj" "handle_at w h = Some hdl" "read_source 0 obj = Some bytes0"
    using assms(1) by (rule readyE) blast
  have "read_source (handle_bytes hdl) obj \<noteq> None"
    using 1(3) by (auto simp: read_source_def split: option.splits if_splits)
  then obtain bytes where bytes: "read_source (handle_bytes hdl) obj = Some bytes"
    by blast
  define w1 where "w1 = (if streaming obj
             then set_object a (obj\<lparr>source_len := 0\<rparr>) (set_handle h (hdl\<lparr>handle_bytes := 0\<rparr>) w)
             else set_handle h (hdl\<lparr>handle_bytes := source_len obj\<rparr>) w)"
  have handle: "ready a u h (set_handle h (hdl\<lparr>handle_bytes := k\<rparr>) w)" "remaining a u (set_handle h (hdl\<lparr>handle_bytes := k\<rparr>) w) = remaining a u w" for k
    using ready_set_handle [OF assms(1) 1(2), of "hdl\<lparr>handle_bytes := k\<rparr>"] by simp_all
  have at: "object_at (set_handle h (hdl\<lparr>handle_bytes := 0\<rparr>) w) a = Some obj"
    using 1(1) by (simp add: set_handle_def)
  have ready1: "ready a u h w1" "remaining a u w1 = remaining a u w"
    using handle ready_set_object [OF handle(1) at, of "obj\<lparr>source_len := 0\<rparr>"] by (auto simp: w1_def read_source_def)
  have "tends w w1"
    using 1(1) by (auto simp: tends_def w1_def set_object_def set_handle_def intro!: keeps_objects_cell sound_empty)
  then have "inv w1"
    using ready1(1) inv_keeps [OF assms(2), of w1] by (simp add: ready_def busy_def)
  then have "stage_ok a u h n (do { r \<leftarrow> call_client answer h (LLCACHE_EVENT_HAD_DATA bytes) w1;
      after_event env a u (set_bytes h (if streaming obj then 0 else handle_bytes hdl)) r })"
    using assms(3) ready1 by (intro event_ok) simp_all
  then show ?thesis
    using stage_go_on [OF assms] 1 bytes by (auto simp: notify_data_def w1_def Let_def)
qed

lemma begin_user:
  assumes "at_user a (Some u) w" and "inv w"
  shows "\<exists>obj user h w1. object_at w a = Some obj \<and> user_at w u = Some user \<and> \<not> iterator_target user \<and> user_handle user = Some h \<and>
    set_target u True w = Some w1 \<and> ready a u h w1 \<and> inv w1 \<and> remaining a u w1 = remaining a u w \<and> object_at w1 = object_at w"
proof -
  obtain obj where 1: "heap_ok w" "targets w = {}" "object_at w a = Some obj" "u \<in> set (users obj)"
    using assms by (auto simp: at_user_def)
  obtain user where 2: "user_at w u = Some user" "queued_for_delete user \<longrightarrow> iterator_target user" "user_handle user = None \<longrightarrow> queued_for_delete user"
    using heap_okD(2) [OF 1(1,3,4)] by (auto simp: user_ok_def)
  have target: "\<not> iterator_target user"
    using 1(2) 2(1) by (auto simp: targets_def)
  then obtain h where h: "user_handle user = Some h" "\<not> queued_for_delete user"
    using 2 by auto
  let ?w1 = "set_user u (user\<lparr>iterator_target := True\<rparr>) w"
  have "heap_ok ?w1"
    using h by (intro heap_ok_set_user [OF 1(1) 2(1)]) simp_all
  then have "ready a u h ?w1" "inv ?w1"
    using 1 2(1) h inv_keeps [OF assms(2) \<open>heap_ok ?w1\<close> tends_set(2)] by (auto simp: ready_def busy_def targets_def set_user_def)
  then show ?thesis
    using 1 2(1) target h by (auto simp: set_target_def remaining_def set_user_def)
qed

lemma notify_user_ok:
  assumes at: "at_user a (Some u) w" and "inv w" and n: "length (to_go a (Some u) w) \<le> Suc n"
  shows "\<exists>r. notify_user env answer a u w = Some r \<and> step_ok a u 0 n r \<and> inv (world_of r) \<and> (\<forall>w'. r \<noteq> Go_On w')"
proof -
  obtain obj user h w1 where 1: "object_at w a = Some obj" "user_at w u = Some user" "user_handle user = Some h" "set_target u True w = Some w1"
      "ready a u h w1" "remaining a u w1 = remaining a u w" "inv w1"
    using begin_user [OF at assms(2)] by blast
  have n1: "length (remaining a u w1) \<le> n"
    using n 1(6) by (simp add: to_go_def)
  let ?last = "\<lambda>w5. do { w6 \<leftarrow> set_target u False w5; obj6 \<leftarrow> object_at w6 a; Some (Next_User (next_of u (users obj6)) w6) }"
  have last: "stage_ok a u h n (?last w5)"
    if ready: "ready a u h w5" and inv5: "inv w5" and left: "length (remaining a u w5) \<le> n" for w5
  proof -
    obtain obj5 user5 where 5: "object_at w5 a = Some obj5" "user_at w5 u = Some user5" "\<not> queued_for_delete user5"
      using ready by (rule readyE)
    have "busy a u h w5"
      using ready by (simp add: ready_def)
    from leave_user [OF this 5] obtain w6 where 6: "set_target u False w5 = Some w6" "at_user a (next_of u (users obj5)) w6"
        "to_go a (next_of u (users obj5)) w6 = remaining a u w5" "object_at w6 = object_at w5"
      by blast
    then have "inv w6"
      using inv_keeps [OF inv5 _ set_target_objects] by (simp add: at_user_def)
    then show ?thesis
      using left 5(1) 6 by (auto simp: step_ok_def stage_ok_def)
  qed
  let ?os = "fetch_state (obj_fetch obj)"
  let ?all = "then_step (notify_certs env answer a u h ?os w1) (\<lambda>w2.
       then_step (notify_headers env answer a u h ?os w2) (\<lambda>w3.
       then_step (notify_data env answer a u h ?os w3) (\<lambda>w4.
       then_step (notify_done env answer a u h ?os w4) ?last)))"
  have "stage_ok a u h n ?all"
    by (intro stage_then notify_certs_ok notify_headers_ok notify_data_ok notify_done_ok 1(5,7) n1) (use last in blast)+
  then obtain r where r: "?all = Some r" "step_ok a u h n r" "inv (world_of r)"
    by (auto simp: stage_ok_def)
  have "r \<noteq> Go_On w'" for w'
    using r(1) by (auto simp: then_step_def split: bind_splits progress.splits)
  moreover have "step_ok a u 0 n r"
    using r(2) calculation by (cases r) (auto simp: step_ok_def)
  moreover have "notify_user env answer a u w = Some r"
    using r(1) by (simp add: notify_user_def 1(1-4) Let_def)
  ultimately show ?thesis
    using r(3) by blast
qed

lemma notify_from_ok:
  "at_user a p w \<Longrightarrow> inv w \<Longrightarrow> length (to_go a p w) \<le> n \<Longrightarrow>
     \<exists>error w'. notify_from env answer a p w = Some (error, w') \<and> inv w' \<and> targets w' = {}"
proof (induction n arbitrary: p w)
  case 0
  then have "p = None"
    by (cases p) (simp_all add: to_go_def)
  then show ?case
    using 0 by (simp add: notify_from.simps at_user_def)
next
  case (Suc n)
  show ?case
  proof (cases p)
    case None
    then show ?thesis
      using Suc.prems by (simp add: notify_from.simps at_user_def)
  next
    case (Some u)
    obtain r where r: "notify_user env answer a u w = Some r" "step_ok a u 0 n r" "\<forall>w'. r \<noteq> Go_On w'" "inv (world_of r)"
      using notify_user_ok Suc.prems unfolding Some by blast
    show ?thesis
    proof (cases r)
      case (Next_User q w1)
      then show ?thesis
        using Suc.IH [of q w1] r Some by (simp add: notify_from.simps [of env answer a "Some u" w] step_ok_def)
    next
      case (Stop e w1)
      then show ?thesis
        using r Some by (simp add: notify_from.simps [of env answer a "Some u" w] step_ok_def)
    qed (use r(3) in blast)
  qed
qed

lemma first_user_at:
  assumes "heap_ok w" and "targets w = {}" and "object_at w a = Some obj"
  shows "at_user a (first_user obj) w"
  using assms by (auto simp: at_user_def first_user_def split: list.splits)

lemma notify_users_ok:
  assumes "inv w" and "targets w = {}" and "object_at w a = Some obj"
  shows "\<exists>error w'. llcache_object_notify_users env answer a w = Some (error, w') \<and> inv w' \<and> targets w' = {}"
  using notify_from_ok [OF first_user_at [OF inv_heap [OF assms(1)] assms(2,3)] assms(1) order_refl] assms(3) by (simp add: llcache_object_notify_users_def)

lemma send_event_from_ok:
  "at_user a p w \<Longrightarrow> inv w \<Longrightarrow> length (to_go a p w) \<le> n \<Longrightarrow>
     \<exists>error w'. send_event_from env answer a event p w = Some (error, w') \<and> inv w' \<and> targets w' = {}"
proof (induction n arbitrary: p w)
  case 0
  then have "p = None"
    by (cases p) (simp_all add: to_go_def)
  then show ?case
    using 0 by (simp add: send_event_from.simps at_user_def)
next
  case (Suc n)
  show ?case
  proof (cases p)
    case None
    then show ?thesis
      using Suc.prems by (simp add: send_event_from.simps at_user_def)
  next
    case (Some u)
    obtain obj user h w1 where 1: "user_at w u = Some user" "\<not> iterator_target user" "user_handle user = Some h" "set_target u True w = Some w1"
        "ready a u h w1" "remaining a u w1 = remaining a u w" "inv w1"
      using begin_user Suc.prems(1,2) unfolding Some by blast
    have n1: "length (remaining a u w1) \<le> n"
      using Suc.prems(3) 1(6) by (simp add: to_go_def Some)
    obtain error w2 where 2: "call_client answer h event w1 = Some (error, w2)" "busy a u h w2" "length (remaining a u w2) \<le> n" "inv w2"
      using call_busy [OF 1(5,7) n1] by blast
    obtain obj2 user2 where 3: "object_at w2 a = Some obj2" "u \<in> set (users obj2)" "user_at w2 u = Some user2"
      using 2(2) by (rule busyE)
    have "\<exists>w4. (do { w3 \<leftarrow> set_target u False w2; if queued_for_delete user2 then detach env a u w3 else Some w3 }) = Some w4 \<and>
        at_user a (next_of u (users obj2)) w4 \<and> to_go a (next_of u (users obj2)) w4 = remaining a u w2"
    proof (cases "queued_for_delete user2")
      case False
      then show ?thesis
        using leave_user [OF 2(2) 3(1,3)] by auto
    next
      case True
      have "set_target u False w2 = Some (set_user u (user2\<lparr>iterator_target := False\<rparr>) w2)"
        by (simp add: set_target_def 3(3))
      moreover have "detach env a u (set_user u (user2\<lparr>iterator_target := False\<rparr>) w2) = detach env a u w2"
        using detach_eq
        by (auto simp: detach_def llcache_object_remove_user_def llcache_object_user_destroy_def set_user_def set_object_def with_memory_def 3 time_now_def Let_def
            split: option.splits bind_splits)
      ultimately show ?thesis
        using drop_user [OF 2(2) 3(1), of env] True by auto
    qed
    then obtain w3 w4 where 4: "set_target u False w2 = Some w3" "(if queued_for_delete user2 then detach env a u w3 else Some w3) = Some w4"
        "at_user a (next_of u (users obj2)) w4" "to_go a (next_of u (users obj2)) w4 = remaining a u w2"
      by (auto split: bind_splits)
    have "tends w2 w4"
      using 4(1,2) set_target_objects detach_tends tends_trans by (metis option.inject)
    then have "inv w4"
      using inv_keeps [OF 2(4)] 4(3) by (simp add: at_user_def)
    have "send_event_from env answer a event p w =
        (if error \<noteq> NSERROR_OK then Some (error, w4) else send_event_from env answer a event (next_of u (users obj2)) w4)"
      using 1(2) 4(1,2) by (simp add: Some send_event_from_user 1(1,3,4) 2(1) 3(1,3))
    then show ?thesis
      using Suc.IH [OF 4(3) \<open>inv w4\<close>] 4(3,4) 2(3) \<open>inv w4\<close> by (auto dest: at_userD)
  qed
qed

lemma send_event_ok:
  assumes "inv w" and "targets w = {}" and "object_at w a = Some obj"
  shows "\<exists>error w'. llcache_send_event_to_users env answer a event w = Some (error, w') \<and> inv w' \<and> targets w' = {}"
  using send_event_from_ok [OF first_user_at [OF inv_heap [OF assms(1)] assms(2,3)] assms(1) order_refl] assms(3) by (simp add: llcache_send_event_to_users_def)

end

section \<open>Clients that follow a script\<close>

text \<open>
  Every client is described by what it answers to an event, the calls it makes before it answers, and
  how its own state changes. Calls on handles that it does not hold are left out.
\<close>

datatype api_call =
    Release_Handle nat
  | Clone_Handle nat
  | Abort_Handle nat
  | Force_Stream nat
  | Invalidate_Data nat
  | Change_Callback nat nat nat

lemma valid_handle_code [code]:
  "valid_handle w h \<longleftrightarrow>
     (case handle_at w h of
        None \<Rightarrow> False
      | Some hdl \<Rightarrow>
          (case handle_object hdl of
             None \<Rightarrow> False
           | Some a \<Rightarrow>
               (case object_at w a of
                  None \<Rightarrow> False
                | Some obj \<Rightarrow> list_ex (\<lambda>u. case user_at w u of None \<Rightarrow> False | Some user \<Rightarrow> user_handle user = Some h) (users obj))))"
  by (auto simp: valid_handle_def list_ex_iff split: option.splits)

fun handle_of_call :: "api_call \<Rightarrow> nat" where
  "handle_of_call (Release_Handle h) = h"
| "handle_of_call (Clone_Handle h) = h"
| "handle_of_call (Abort_Handle h) = h"
| "handle_of_call (Force_Stream h) = h"
| "handle_of_call (Invalidate_Data h) = h"
| "handle_of_call (Change_Callback h cb pw) = h"

fun run_call :: "'x environment \<Rightarrow> api_call \<Rightarrow> 'x world \<Rightarrow> 'x world option" where
  "run_call env (Release_Handle h) w = llcache_handle_release env h w"
| "run_call env (Clone_Handle h) w = map_option snd (llcache_handle_clone h w)"
| "run_call env (Abort_Handle h) w = map_option snd (llcache_handle_abort env h w)"
| "run_call env (Force_Stream h) w = llcache_handle_force_stream h w"
| "run_call env (Invalidate_Data h) w = llcache_handle_invalidate_cache_data h w"
| "run_call env (Change_Callback h cb pw) w = llcache_handle_change_callback h cb pw w"

definition make_call :: "'x environment \<Rightarrow> api_call \<Rightarrow> 'x world \<Rightarrow> 'x world" where
  "make_call env c w = (if valid_handle w (handle_of_call c) then (case run_call env c w of None \<Rightarrow> w | Some w' \<Rightarrow> w') else w)"

type_synonym 'x script = "nat \<Rightarrow> nat \<Rightarrow> llcache_event \<Rightarrow> nat \<Rightarrow> 'x \<Rightarrow> nserror \<times> api_call list \<times> 'x"

definition scripted :: "'x environment \<Rightarrow> 'x script \<Rightarrow> 'x callback" where
  "scripted env script cb h event pw w =
     (case script cb h event pw (outside w) of (error, calls, x) \<Rightarrow> (error, fold (make_call env) calls (w\<lparr>outside := x\<rparr>)))"

lemma run_call_step: "valid_handle w (handle_of_call c) \<Longrightarrow> run_call env c w = Some w' \<Longrightarrow> client_step env w w'"
  by (cases c) (auto intro: client_step.intros)

lemma make_calls_steps: "(client_step env)\<^sup>*\<^sup>* w (fold (make_call env) calls w)"
proof (induction calls arbitrary: w)
  case (Cons c calls)
  have "(client_step env)\<^sup>*\<^sup>* w (make_call env c w)"
    using run_call_step [of w c env] by (auto simp: make_call_def split: option.split)
  then show ?case
    using Cons [of "make_call env c w"] by simp
qed simp

lemma scripted_steps: "(client_step env)\<^sup>*\<^sup>* w (snd (scripted env script cb h event pw w))"
proof -
  obtain error calls x where s: "script cb h event pw (outside w) = (error, calls, x)"
    by (rule prod_cases3) blast
  have "client_step env w (w\<lparr>memory := memory w, outside := x\<rparr>)"
    by (rule outside_step)
  then show ?thesis
    using make_calls_steps [of env "w\<lparr>outside := x\<rparr>" calls] by (simp add: scripted_def s converse_rtranclp_into_rtranclp)
qed

interpretation scripts: cache_clients env "scripted env script" heap_ok for env script
proof
  fix w :: "'a world" and cb h event pw
  assume "heap_ok w"
  then show "heap_ok (snd (scripted env script cb h event pw w)) \<and> keeps_targets w (snd (scripted env script cb h event pw w))"
    by (rule client_steps_ok [OF scripted_steps])
qed

section \<open>Properties\<close>

text \<open>
  C15. Every call that a client may make with a handle it holds is defined, keeps the heap free of
  dangling pointers and leaves the users that are being iterated over in place.
\<close>

theorem client_calls_keep_heap:
  assumes "heap_ok w" and "valid_handle w (handle_of_call c)"
  shows "\<exists>w'. run_call env c w = Some w' \<and> heap_ok w' \<and> keeps_targets w w'"
  using release_ok [OF assms(1), of _ env] clone_ok [OF assms(1)] abort_ok [OF assms(1), of _ env] force_stream_ok [OF assms(1)]
    invalidate_cache_data_ok [OF assms(1)] change_callback_ok [OF assms(1)] assms(2)
  by (cases c) fastforce+

text \<open>
  C16. Telling the users of an object of an event, or bringing them up to date, ends and follows no
  dangling pointer, whatever the clients answer and whatever handles they release, clone or abort
  from their callbacks.
\<close>

theorem notify_users_safe:
  assumes "heap_ok w" and "targets w = {}" and "object_at w a \<noteq> None"
  shows "(\<exists>error w'. llcache_object_notify_users env (scripted env script) a w = Some (error, w') \<and> heap_ok w' \<and> targets w' = {}) \<and>
    (\<exists>error w'. llcache_send_event_to_users env (scripted env script) a event w = Some (error, w') \<and> heap_ok w' \<and> targets w' = {})"
  using assms scripts.notify_users_ok [OF assms(1,2)] scripts.send_event_ok [OF assms(1,2)] by blast

text \<open>Two clients share an object; the first releases the handle of the second when it hears of the headers.\<close>

definition null_environment :: "'x environment" where
  "null_environment = \<lparr>env_time = \<lambda>_. 7, env_monotonic_ms = \<lambda>_. 0, env_messages_get = \<lambda>key. key, env_fetch_start = \<lambda>_ _ _ _ _ _ _ x. (Inr 0, x), env_fetch_abort = \<lambda>_ x. x, env_fetch_http_code = \<lambda>_ _. 200,
     env_fetch_can_fetch = \<lambda>_ _. True, env_get_hsts_enabled = \<lambda>_ _. False, env_set_hsts_policy = \<lambda>_ _ x. x,
     env_get_auth_details = \<lambda>_ _ _. None, env_store_fetch = \<lambda>_ _ x. (Inl NSERROR_NOT_FOUND, x), env_store_store = \<lambda>_ _ _ x. (NSERROR_OK, x),
     env_store_release = \<lambda>_ _ x. (NSERROR_OK, x), env_store_invalidate = \<lambda>_ x. (NSERROR_OK, x),
     env_store_initialise = \<lambda>x. (NSERROR_OK, x), env_store_finalise = \<lambda>x. x, env_send_referer = False,
     env_curl_getdate = \<lambda>_. 0, env_rfc1123_date = \<lambda>_. []\<rparr>"

definition example_object :: llcache_object where
  "example_object = (new_object (url_of ((null_components NSURL_SCHEME_HTTP)\<lparr>uc_scheme := Some ''http'', uc_host := Some ''ex.org'', uc_path := Some ''/''\<rparr>)))
     \<lparr>source_data := Some [1, 2, 3], source_len := 3, source_alloc := 3, users := [2, 4],
      obj_fetch := zero_fetch_ctx\<lparr>fetch_state := LLCACHE_FETCH_DATA\<rparr>\<rparr>"

definition example_handle :: llcache_handle where
  "example_handle = \<lparr>handle_object = Some 0, handle_cb = 0, handle_pw = 0, handle_state = LLCACHE_FETCH_INIT, handle_bytes = 0\<rparr>"

definition example_world :: "'x \<Rightarrow> 'x world" where
  "example_world x = \<lparr>cached_objects = [0], uncached_objects = [], limit = 1000, fetch_attempts = 3, all_caught_up = True, minimum_lifetime = 0,
     time_quantum = 100, minimum_bandwidth = 0, maximum_bandwidth = 0, total_written = 0, total_elapsed = 0,
     object_at = [0 \<mapsto> example_object],
     user_at = [2 \<mapsto> \<lparr>user_handle = Some 1, iterator_target = False, queued_for_delete = False\<rparr>,
                4 \<mapsto> \<lparr>user_handle = Some 3, iterator_target = False, queued_for_delete = False\<rparr>],
     handle_at = [1 \<mapsto> example_handle, 3 \<mapsto> example_handle], next_address = 5, memory = fresh_mem [], scheduled = [], outside = x\<rparr>"

lemma example_world_ok: "heap_ok (example_world x)" "targets (example_world x) = {}" "object_at (example_world x) 0 \<noteq> None"
    "valid_handle (example_world x) 1"
proof -
  show "heap_ok (example_world x)"
    by (auto simp: heap_defs user_ok_def example_world_def example_object_def example_handle_def read_source_def split: if_splits)
  show "targets (example_world x) = {}"
    by (auto simp: targets_def example_world_def split: if_splits)
  show "object_at (example_world x) 0 \<noteq> None" "valid_handle (example_world x) 1"
    by (auto simp: example_world_def valid_handle_def example_object_def example_handle_def)
qed

theorem client_calls_keep_heap_witness:
  "\<exists>w'. run_call null_environment (Abort_Handle 1) (example_world ()) = Some w' \<and> heap_ok w' \<and> keeps_targets (example_world ()) w'"
  by (rule client_calls_keep_heap [OF example_world_ok(1)]) (unfold handle_of_call.simps, rule example_world_ok(4))

definition releasing_script :: "unit script" where
  "releasing_script cb h event pw x = (NSERROR_OK, if event = LLCACHE_EVENT_HAD_HEADERS \<and> h = 1 then [Release_Handle 3, Release_Handle 1] else [], x)"

theorem notify_users_safe_witness:
  "\<exists>error w'. llcache_object_notify_users null_environment (scripted null_environment releasing_script) 0 (example_world ()) = Some (error, w') \<and>
     heap_ok w' \<and> targets w' = {}"
  using notify_users_safe [OF example_world_ok(1-3), where env = null_environment and script = releasing_script] by blast

section \<open>What users are told\<close>

text \<open>The events that are due to a handle, and the handle once it has heard them.\<close>

definition events_due :: "llcache_object \<Rightarrow> llcache_handle \<Rightarrow> llcache_event list" where
  "events_due obj hdl = (let os = fetch_state (obj_fetch obj); hs = handle_state hdl in
     (if hs = LLCACHE_FETCH_INIT \<and> os > LLCACHE_FETCH_INIT
      then (case chain obj of None \<Rightarrow> [] | Some c \<Rightarrow> [LLCACHE_EVENT_GOT_CERTS c]) else []) @
     (if hs \<le> LLCACHE_FETCH_HEADERS \<and> os > LLCACHE_FETCH_HEADERS then [LLCACHE_EVENT_HAD_HEADERS] else []) @
     (if hs \<le> LLCACHE_FETCH_DATA \<and> os \<ge> LLCACHE_FETCH_DATA \<and> source_len obj > handle_bytes hdl
      then [LLCACHE_EVENT_HAD_DATA (the (read_source (handle_bytes hdl) obj))] else []) @
     (if hs \<le> LLCACHE_FETCH_DATA \<and> os > LLCACHE_FETCH_DATA then [LLCACHE_EVENT_DONE] else []))"

definition caught_up :: "llcache_object \<Rightarrow> llcache_handle \<Rightarrow> llcache_handle" where
  "caught_up obj hdl = (let os = fetch_state (obj_fetch obj); hs = handle_state hdl in
     hdl\<lparr>handle_state := max hs os,
         handle_bytes := (if hs \<le> LLCACHE_FETCH_DATA \<and> os \<ge> LLCACHE_FETCH_DATA then max (handle_bytes hdl) (source_len obj) else handle_bytes hdl)\<rparr>)"

text \<open>Clients that write down the events they hear.\<close>

definition logging :: "(nat \<times> llcache_event) list script" where
  "logging cb h event pw log = (NSERROR_OK, [], log @ [(h, event)])"

definition log_events :: "nat \<Rightarrow> llcache_event list \<Rightarrow> (nat \<times> llcache_event) list world \<Rightarrow> (nat \<times> llcache_event) list world" where
  "log_events h events w = w\<lparr>outside := outside w @ map (Pair h) events\<rparr>"

lemma call_logging:
  "handle_at w h = Some hdl \<Longrightarrow> call_client (scripted env logging) h event w = Some (NSERROR_OK, log_events h [event] w)"
  by (simp add: call_client_def scripted_def logging_def log_events_def)

text \<open>The world in which a handle has changed and its client has heard some events.\<close>

definition told :: "nat \<Rightarrow> llcache_event list \<Rightarrow> llcache_handle \<Rightarrow> (nat \<times> llcache_event) list world \<Rightarrow> (nat \<times> llcache_event) list world" where
  "told h events hdl w = w\<lparr>handle_at := (handle_at w)(h \<mapsto> hdl), outside := outside w @ map (Pair h) events\<rparr>"

lemma told_simps [simp]:
  "object_at (told h events hdl w) = object_at w" "user_at (told h events hdl w) = user_at w" "handle_at (told h events hdl w) h = Some hdl"
  "told h events' hdl' (told h events hdl w) = told h (events @ events') hdl' w"
  "set_user u user (told h events hdl w) = told h events hdl (set_user u user w)"
  "log_events h events' (told h events hdl w) = told h (events @ events') hdl w"
  "set_handle h hdl' (told h events hdl w) = told h events hdl' w"
  by (simp_all add: told_def set_user_def log_events_def set_handle_def)

lemma told_start: "handle_at w h = Some hdl \<Longrightarrow> w = told h [] hdl w"
  by (simp add: told_def fun_upd_idem)

text \<open>The stages for a user that is listening, whose client only writes down what it hears.\<close>

definition listening :: "nat \<Rightarrow> nat \<Rightarrow> llcache_object \<Rightarrow> 'x world \<Rightarrow> bool" where
  "listening a u obj w \<longleftrightarrow> object_at w a = Some obj \<and> (\<exists>user. user_at w u = Some user \<and> \<not> queued_for_delete user)"

lemma call_told: "call_client (scripted env logging) h event (told h events hdl w) = Some (NSERROR_OK, told h (events @ [event]) hdl w)"
  by (subst call_logging [of _ h hdl]) simp_all

lemma go_on:
  "listening a u obj w \<Longrightarrow> after_event env a u replay (NSERROR_OK, told h events hdl w) = Some (Go_On (told h events hdl w))"
  by (auto simp: after_event_def listening_def)

lemma listening_object: "listening a u obj w \<Longrightarrow> object_at w a = Some obj"
  by (simp add: listening_def)

lemma certs_told:
  "listening a u obj w \<Longrightarrow> notify_certs env (scripted env logging) a u h os (told h events hdl w) = Some (Go_On
     (if handle_state hdl = LLCACHE_FETCH_INIT \<and> os > LLCACHE_FETCH_INIT
      then told h (events @ (case chain obj of None \<Rightarrow> [] | Some c \<Rightarrow> [LLCACHE_EVENT_GOT_CERTS c])) (hdl\<lparr>handle_state := LLCACHE_FETCH_HEADERS\<rparr>) w
      else told h events hdl w))"
  by (cases "chain obj") (simp_all add: notify_certs_def set_state_def listening_object call_told go_on)

lemma headers_told:
  "listening a u obj w \<Longrightarrow> notify_headers env (scripted env logging) a u h os (told h events hdl w) = Some (Go_On
     (if handle_state hdl = LLCACHE_FETCH_HEADERS \<and> os > LLCACHE_FETCH_HEADERS
      then told h (events @ [LLCACHE_EVENT_HAD_HEADERS]) (hdl\<lparr>handle_state := LLCACHE_FETCH_DATA\<rparr>) w
      else told h events hdl w))"
  by (simp add: notify_headers_def set_state_def call_told go_on)

lemma done_told:
  "listening a u obj w \<Longrightarrow> notify_done env (scripted env logging) a u h os (told h events hdl w) = Some (Go_On
     (if handle_state hdl = LLCACHE_FETCH_DATA \<and> os > LLCACHE_FETCH_DATA
      then told h (events @ [LLCACHE_EVENT_DONE]) (hdl\<lparr>handle_state := LLCACHE_FETCH_COMPLETE\<rparr>) w
      else told h events hdl w))"
  by (simp add: notify_done_def set_state_def call_told go_on)

lemma data_told:
  assumes "listening a u obj w" and "\<not> streaming obj" and "read_source 0 obj \<noteq> None"
  shows "notify_data env (scripted env logging) a u h os (told h events hdl w) = Some (Go_On
     (if handle_state hdl = LLCACHE_FETCH_DATA \<and> os \<ge> LLCACHE_FETCH_DATA \<and> source_len obj > handle_bytes hdl
      then told h (events @ [LLCACHE_EVENT_HAD_DATA (the (read_source (handle_bytes hdl) obj))]) (hdl\<lparr>handle_bytes := source_len obj\<rparr>) w
      else told h events hdl w))"
proof -
  have "read_source (handle_bytes hdl) obj \<noteq> None"
    using assms(3) by (auto simp: read_source_def split: option.splits if_splits)
  then show ?thesis
    using assms(1,2) by (auto simp: notify_data_def listening_object call_told go_on)
qed

lemma state_order [simp]:
  "LLCACHE_FETCH_INIT \<le> s" "s \<le> LLCACHE_FETCH_COMPLETE" "\<not> s < LLCACHE_FETCH_INIT" "\<not> LLCACHE_FETCH_COMPLETE < s"
  "LLCACHE_FETCH_INIT < LLCACHE_FETCH_HEADERS" "LLCACHE_FETCH_INIT < LLCACHE_FETCH_DATA" "LLCACHE_FETCH_INIT < LLCACHE_FETCH_COMPLETE"
  "LLCACHE_FETCH_HEADERS < LLCACHE_FETCH_DATA" "LLCACHE_FETCH_HEADERS < LLCACHE_FETCH_COMPLETE" "LLCACHE_FETCH_DATA < LLCACHE_FETCH_COMPLETE"
  "\<not> LLCACHE_FETCH_HEADERS \<le> LLCACHE_FETCH_INIT" "\<not> LLCACHE_FETCH_DATA \<le> LLCACHE_FETCH_INIT" "\<not> LLCACHE_FETCH_COMPLETE \<le> LLCACHE_FETCH_INIT"
  "\<not> LLCACHE_FETCH_DATA \<le> LLCACHE_FETCH_HEADERS" "\<not> LLCACHE_FETCH_COMPLETE \<le> LLCACHE_FETCH_HEADERS" "\<not> LLCACHE_FETCH_COMPLETE \<le> LLCACHE_FETCH_DATA"
  "LLCACHE_FETCH_HEADERS \<le> LLCACHE_FETCH_DATA" "\<not> LLCACHE_FETCH_DATA < LLCACHE_FETCH_HEADERS"
  by (cases s; simp add: less_eq_llcache_fetch_state_def less_llcache_fetch_state_def)+

lemma notify_user_logging:
  assumes at: "at_user a (Some u) w" and obj: "object_at w a = Some obj" and stream: "\<not> streaming obj"
    and user: "user_at w u = Some user" "user_handle user = Some h" and hdl: "handle_at w h = Some hdl"
  shows "notify_user env (scripted env logging) a u w = Some (Next_User (next_of u (users obj)) (told h (events_due obj hdl) (caught_up obj hdl) w))"
proof -
  have target: "\<not> iterator_target user"
    using at user(1) by (auto simp: at_user_def targets_def)
  have heap: "heap_ok w" "u \<in> set (users obj)"
    using at obj by (auto simp: at_user_def)
  have queued: "\<not> queued_for_delete user"
    using heap_okD(2) [OF heap(1) obj heap(2)] user target by (auto simp: user_ok_def)
  have source: "read_source 0 obj \<noteq> None"
    using heap_okD(3) [OF heap(1) obj] heap(2) by fastforce
  let ?w1 = "set_user u (user\<lparr>iterator_target := True\<rparr>) w"
  have w1: "set_target u True w = Some ?w1" "?w1 = told h [] hdl ?w1"
    using user hdl told_start [of ?w1 h hdl] by (simp_all add: set_target_def set_user_def)
  have listening: "listening a u obj ?w1"
    using obj queued by (simp add: listening_def set_user_def)
  have finish: "(do { w6 \<leftarrow> set_target u False (told h events hdl' ?w1); obj6 \<leftarrow> object_at w6 a; Some (Next_User (next_of u (users obj6)) w6) }) =
      Some (Next_User (next_of u (users obj)) (told h events hdl' w))" for events hdl'
    using user(1) obj target by (simp add: set_target_def) (simp add: set_user_def told_def fun_upd_idem)
  note stages = certs_told [OF listening] headers_told [OF listening] data_told [OF listening stream source] done_told [OF listening]
  have first: "notify_certs env (scripted env logging) a u h os ?w1 = notify_certs env (scripted env logging) a u h os (told h [] hdl ?w1)" for os
    by (rule arg_cong [OF w1(2)])
  show ?thesis
    by (cases hdl; cases "handle_state hdl"; cases "fetch_state (obj_fetch obj)")
      (simp_all add: notify_user_def user obj w1(1) Let_def first then_step_def stages finish events_due_def caught_up_def max_def)
qed

text \<open>One client after the other hears what is due.\<close>

definition hear :: "llcache_object \<Rightarrow> nat \<Rightarrow> (nat \<times> llcache_event) list world \<Rightarrow> (nat \<times> llcache_event) list world" where
  "hear obj u w =
     (case user_at w u of
        None \<Rightarrow> w
      | Some user \<Rightarrow>
          (case user_handle user of
             None \<Rightarrow> w
           | Some h \<Rightarrow> (case handle_at w h of None \<Rightarrow> w | Some hdl \<Rightarrow> told h (events_due obj hdl) (caught_up obj hdl) w)))"

lemma hear_simps [simp]: "object_at (hear obj u w) = object_at w" "user_at (hear obj u w) = user_at w"
  by (simp_all add: hear_def split: option.split)

lemma hear_all_simps [simp]: "object_at (fold (hear obj) us w) = object_at w" "user_at (fold (hear obj) us w) = user_at w"
  by (induction us arbitrary: w) simp_all

lemma notify_from_logging:
  "at_user a p w \<Longrightarrow> object_at w a = Some obj \<Longrightarrow> \<not> streaming obj \<Longrightarrow> length (to_go a p w) \<le> n \<Longrightarrow>
     notify_from env (scripted env logging) a p w = Some (NSERROR_OK, fold (hear obj) (to_go a p w) w)"
proof (induction n arbitrary: p w)
  case 0
  then show ?case
    by (cases p) (simp_all add: to_go_def notify_from.simps)
next
  case (Suc n)
  show ?case
  proof (cases p)
    case None
    then show ?thesis
      by (simp add: to_go_def notify_from.simps)
  next
    case (Some u)
    obtain user h where user: "user_at w u = Some user" "user_handle user = Some h"
      using scripts.begin_user [of a u w] Suc.prems(1) unfolding Some by (auto dest: at_userD)
    obtain hdl where hdl: "handle_at w h = Some hdl"
      using handle_exists [OF _ user] Suc.prems(1) by (auto simp: at_user_def)
    let ?w1 = "told h (events_due obj hdl) (caught_up obj hdl) w"
    have step: "notify_user env (scripted env logging) a u w = Some (Next_User (next_of u (users obj)) ?w1)"
      using notify_user_logging [OF _ Suc.prems(2,3) user hdl] Suc.prems(1) Some by blast
    have hear: "hear obj u w = ?w1"
      by (simp add: hear_def user hdl)
    have len: "length (to_go a (Some u) w) \<le> Suc n"
      using Suc.prems(4) Some by simp
    have at: "at_user a (next_of u (users obj)) ?w1" "length (to_go a (next_of u (users obj)) ?w1) \<le> n"
      using scripts.notify_user_ok [OF Suc.prems(1) [unfolded Some] _ len, of env logging] step Suc.prems(1)
      by (simp_all add: step_ok_def at_user_def)
    have u: "heap_ok w" "u \<in> set (users obj)"
      using Suc.prems(1,2) Some by (auto simp: at_user_def)
    have rest: "to_go a (next_of u (users obj)) ?w1 = remaining a u w"
      using next_remaining [OF u(1) Suc.prems(2) u(2)] Suc.prems(2)
      by (cases "next_of u (users obj)") (auto simp: to_go_def remaining_def)
    have "notify_from env (scripted env logging) a (Some u) w =
        notify_from env (scripted env logging) a (next_of u (users obj)) ?w1"
      by (simp add: notify_from.simps [of env "scripted env logging" a "Some u" w] step)
    then show ?thesis
      using Suc.IH [OF at(1) _ Suc.prems(3) at(2)] Suc.prems(2) by (simp add: Some rest hear to_go_def [of a "Some u"])
  qed
qed

lemma notify_users_logging:
  assumes "heap_ok w" and "targets w = {}" and "object_at w a = Some obj" and "\<not> streaming obj"
  shows "llcache_object_notify_users env (scripted env logging) a w = Some (NSERROR_OK, fold (hear obj) (users obj) w)"
proof -
  have "to_go a (first_user obj) w = users obj"
    using assms(3) by (auto simp: to_go_def first_user_def remaining_def split: list.splits)
  then show ?thesis
    using notify_from_logging [OF scripts.first_user_at [OF assms(1-3)] assms(3,4) order_refl] assms(3) by (simp add: llcache_object_notify_users_def)
qed

definition log_of :: "nat \<Rightarrow> (nat \<times> llcache_event) list world \<Rightarrow> llcache_event list" where
  "log_of h w = map snd (filter (\<lambda>x. fst x = h) (outside w))"

lemma log_of_told: "log_of k (told h events hdl w) = log_of k w @ (if k = h then events else [])"
  by (auto simp: log_of_def told_def comp_def)

lemma hear_handle:
  assumes "user_at w u = Some user" and "user_handle user = Some h" and "handle_at w h = Some hdl"
  shows "handle_at (hear obj u w) k = (if k = h then Some (caught_up obj hdl) else handle_at w k)"
    and "log_of k (hear obj u w) = log_of k w @ (if k = h then events_due obj hdl else [])"
  using assms by (simp_all add: hear_def log_of_told) (simp add: told_def)

text \<open>The handles of a list of users, which are all different.\<close>

definition handles_of :: "nat list \<Rightarrow> 'x world \<Rightarrow> nat list" where
  "handles_of us w = map (\<lambda>u. the (user_handle (the (user_at w u)))) us"

definition attached :: "nat list \<Rightarrow> 'x world \<Rightarrow> bool" where
  "attached us w \<longleftrightarrow> distinct (handles_of us w) \<and>
     (\<forall>u \<in> set us. \<exists>user h hdl. user_at w u = Some user \<and> user_handle user = Some h \<and> handle_at w h = Some hdl)"

lemma hear_all:
  "attached us w \<Longrightarrow>
     handle_at (fold (hear obj) us w) k = (if k \<in> set (handles_of us w) then map_option (caught_up obj) (handle_at w k) else handle_at w k) \<and>
     log_of k (fold (hear obj) us w) = log_of k w @ (if k \<in> set (handles_of us w) then events_due obj (the (handle_at w k)) else [])"
proof (induction us arbitrary: w)
  case (Cons u us)
  obtain user h hdl where u: "user_at w u = Some user" "user_handle user = Some h" "handle_at w h = Some hdl"
    using Cons.prems by (auto simp: attached_def)
  have handles: "handles_of (u # us) w = h # handles_of us w" "handles_of us (hear obj u w) = handles_of us w"
    by (simp_all add: handles_of_def u)
  have "attached us (hear obj u w)"
    using Cons.prems hear_handle(1) [OF u] by (fastforce simp: attached_def handles)
  then show ?case
    using Cons.IH [of "hear obj u w"] Cons.prems hear_handle [OF u, where obj = obj and k = k] u(3)
    by (auto simp: handles attached_def)
qed (simp add: handles_of_def)

lemma users_attached:
  assumes "heap_ok w" and "targets w = {}" and obj: "object_at w a = Some obj"
  shows "attached (users obj) w"
proof -
  have user: "\<exists>user h hdl. user_at w u = Some user \<and> user_handle user = Some h \<and> handle_at w h = Some hdl" if "u \<in> set (users obj)" for u
    using heap_okD(2) [OF assms(1) obj that] assms(2) by (fastforce simp: user_ok_def targets_def)
  have "inj_on (\<lambda>u. the (user_handle (the (user_at w u)))) (set (users obj))"
  proof (rule inj_onI)
    fix u v
    assume "u \<in> set (users obj)" "v \<in> set (users obj)" "the (user_handle (the (user_at w u))) = the (user_handle (the (user_at w v)))"
    then show "u = v"
      using user [of u] user [of v] handle_unique [OF assms(1)] by fastforce
  qed
  then show ?thesis
    using user heap_okD(1) [OF assms(1) obj] by (auto simp: attached_def handles_of_def distinct_map)
qed



section \<open>Findings\<close>

text \<open>
  A client that asks for the certificates again does not get them: the state that is restored is the
  one after they were sent.
\<close>

lemma certs_not_replayed:
  assumes "handle_at w h = Some hdl" and "handle_state hdl = LLCACHE_FETCH_INIT" and "LLCACHE_FETCH_INIT < os"
    and "object_at w a = Some obj" and "chain obj = Some ch" and "user_at w u = Some user" and "\<not> queued_for_delete user"
    and "answer = (\<lambda>cb h event pw w. (NSERROR_NEED_DATA, w))"
  shows "\<exists>w' hdl'. notify_certs env answer a u h os w = Some (Next_User (next_of u (users obj)) w') \<and>
    handle_at w' h = Some hdl' \<and> handle_state hdl' = LLCACHE_FETCH_HEADERS"
  using assms
  by (simp add: notify_certs_def set_state_def call_client_def after_event_def set_target_def set_handle_def set_user_def
      llcache_users_not_caught_up_def)

text \<open>
  A client that makes its object a stream from its callback moves it to the front of the other list
  while the list of cached objects is being walked: the walk goes on in that list, and the cached
  objects behind it are not brought up to date.
\<close>

lemma forced_stream_leaves_the_list:
  assumes heap: "heap_ok w" and "valid_handle w h" and "handle_at w h = Some hdl" "handle_object hdl = Some a"
    and "object_at w a = Some obj" "users obj = [u]" and "a \<in> set (cached_objects w)"
  shows "\<exists>w'. llcache_handle_force_stream h w = Some w' \<and> next_object a w' = head_of (uncached_objects w)"
proof (rule valid_handleE [OF assms(1,2)])
  fix hdl' a' obj' v user
  assume "handle_at w h = Some hdl'" "handle_object hdl' = Some a'" "object_at w a' = Some obj'" "v \<in> set (users obj')"
    "llcache_object_find_user h w = Some (Some v)"
  then have "llcache_object_find_user h w = Some (Some u)"
    using assms by auto
  moreover have "a \<notin> set (remove1 a (cached_objects w))"
    using heap by (simp add: heap_ok_def lists_ok_def)
  ultimately show ?thesis
    using assms
    by (auto simp: llcache_handle_force_stream_def llcache_object_in_list_def llcache_object_remove_from_list_def
        llcache_object_add_to_list_def set_object_def next_object_def next_of_def head_of_def)
qed

end
