(* ===== verification/Llcache_Retrieve.thy ===== *)
theory Llcache_Retrieve
  imports Llcache_Metadata Llcache_Heap
begin

text \<open>
  \<^verbatim>\<open>src/content/llcache.c\<close>: how an object for a URL is found: in memory, in the backing store, or with
  the fetchers, where an object that is no longer fresh is kept as the candidate of the new one.

  References of URLs are counted in \<open>mem_refs\<close>; a URL itself stays on the books when its last reference goes.
  A reference that is taken and dropped again within a function is left out. POST data are kept
  in their encoded form.
\<close>

section \<open>Schemes\<close>

definition url_scheme :: "nsurl \<Rightarrow> string option" where
  "url_scheme url = uc_scheme (url_components url)"

text \<open>\<open>None\<close>: a URL without a scheme is a null pointer to \<^verbatim>\<open>lwc_string_unref\<close>.\<close>

definition llcache__scheme_is_persistable :: "nsurl \<Rightarrow> bool option" where
  "llcache__scheme_is_persistable url =
     do { scheme \<leftarrow> url_scheme url; Some (lwc_string_isequal scheme ''http'' \<or> lwc_string_isequal scheme ''https'') }"

definition llcache__scheme_is_cachable :: "nsurl \<Rightarrow> bool option" where
  "llcache__scheme_is_cachable url =
     do {
       scheme \<leftarrow> url_scheme url;
       Some (lwc_string_isequal scheme ''http'' \<or> lwc_string_isequal scheme ''https'' \<or> lwc_string_isequal scheme ''data'' \<or>
             lwc_string_isequal scheme ''resource'' \<or> lwc_string_isequal scheme ''file'')
     }"

section \<open>Starting a fetch\<close>

definition get_referer_header :: "bool \<Rightarrow> nsurl \<Rightarrow> nsurl \<Rightarrow> mem \<Rightarrow> string result \<times> mem" where
  "get_referer_header send_referer url referer m =
     (if \<not> send_referer then (Inl NSERROR_INVALID, m)
      else case url_scheme url of
          None \<Rightarrow> (Inl NSERROR_BAD_URL, m)
        | Some scheme \<Rightarrow>
            (case url_scheme referer of
               None \<Rightarrow> (Inl NSERROR_INVALID, m)
             | Some ref_scheme \<Rightarrow>
                 if lwc_string_isequal scheme ref_scheme \<or>
                    lwc_string_isequal scheme ''https'' \<and> lwc_string_isequal ref_scheme ''http''
                 then (case malloc m of (ok, m1) \<Rightarrow>
                     if ok then (Inr (''Referer: '' @ take (url_length referer) (nsurl_access referer)), m1)
                     else (Inl NSERROR_NOMEM, m1))
                 else (Inl NSERROR_INVALID, m)))"

fun free_strings :: "string list \<Rightarrow> mem \<Rightarrow> mem" where
  "free_strings [] m = m"
| "free_strings (s # ss) m = free_strings ss (free_block m)"

text \<open>The headers of a conditional request; an RFC 1123 date is given room for 29 characters.\<close>

definition etag_header :: "llcache_object \<Rightarrow> mem \<Rightarrow> string list result \<times> mem" where
  "etag_header obj m =
     (case etag (cache obj) of
        None \<Rightarrow> (Inr [], m)
      | Some e \<Rightarrow> (case malloc m of (ok, m1) \<Rightarrow> if ok then (Inr [''If-None-Match: '' @ e], m1) else (Inl NSERROR_NOMEM, m1)))"

definition modified_header :: "'x environment \<Rightarrow> llcache_object \<Rightarrow> string list \<Rightarrow> mem \<Rightarrow> string list result \<times> mem" where
  "modified_header env obj hs m =
     (if last_modified (cache obj) \<noteq> 0 then
        (case malloc m of (ok, m1) \<Rightarrow>
           if ok then (Inr (hs @ [''If-Modified-Since: '' @ take 29 (env_rfc1123_date env (last_modified (cache obj)))]), m1)
           else (Inl NSERROR_NOMEM, free_strings hs m1))
      else (Inr hs, m))"

definition request_headers :: "'x environment \<Rightarrow> llcache_object \<Rightarrow> mem \<Rightarrow> string list result \<times> mem" where
  "request_headers env obj m =
     (case malloc m of (ok, m1) \<Rightarrow>
        if \<not> ok then (Inl NSERROR_NOMEM, m1)
        else (case etag_header obj m1 of
            (Inl e, m2) \<Rightarrow> (Inl e, free_block m2)
          | (Inr hs, m2) \<Rightarrow>
              (case modified_header env obj hs m2 of
                 (Inl e, m3) \<Rightarrow> (Inl e, free_block m3)
               | (Inr hs2, m3) \<Rightarrow>
                   (case fetch_referer (obj_fetch obj) of
                      None \<Rightarrow> (Inr hs2, m3)
                    | Some referer \<Rightarrow>
                        (case get_referer_header (env_send_referer env) (obj_url obj) referer m3 of
                           (Inl e, m4) \<Rightarrow> (Inr hs2, m4)
                         | (Inr h, m4) \<Rightarrow> (Inr (hs2 @ [h]), m4))))))"

definition retrieve_force_fetch :: "32 word" where
  "retrieve_force_fetch = 1"

definition retrieve_verifiable :: "32 word" where
  "retrieve_verifiable = 2"

definition retrieve_no_error_pages :: "32 word" where
  "retrieve_no_error_pages = 4"

definition flag_set :: "32 word \<Rightarrow> 32 word \<Rightarrow> bool" where
  "flag_set flags flag \<longleftrightarrow> flags AND flag \<noteq> 0"

definition llcache_object_refetch :: "'x environment \<Rightarrow> nat \<Rightarrow> 'x world \<Rightarrow> (nserror \<times> 'x world) option" where
  "llcache_object_refetch env a w =
     do {
       obj \<leftarrow> object_at w a;
       case request_headers env obj (memory w) of
         (Inl e, m1) \<Rightarrow> Some (e, w\<lparr>memory := m1\<rparr>)
       | (Inr hs, m1) \<Rightarrow>
           (case llcache_invalidate_cache_control_data obj m1 of (obj1, m2) \<Rightarrow>
              let f = obj_fetch obj;
                  obj2 = obj1\<lparr>cache := (cache obj1)\<lparr>req_time := time_now env w, fin_time := time_now env w\<rparr>,
                    obj_fetch := f\<lparr>fetch_state := LLCACHE_FETCH_INIT\<rparr>\<rparr>
              in case env_fetch_start env (obj_url obj) (fetch_referer f) (flag_set (fetch_flags f) retrieve_no_error_pages)
                     (fetch_post f) (flag_set (fetch_flags f) retrieve_verifiable) (tried_with_tls_downgrade f) hs (outside w) of
                 (r, x) \<Rightarrow>
                   let w1 = w\<lparr>memory := free_block (free_strings hs m2), outside := x\<rparr> in
                   (case r of
                      Inl e \<Rightarrow> Some (e, set_object a obj2 w1)
                    | Inr ft \<Rightarrow> Some (NSERROR_OK, set_object a (obj2\<lparr>obj_fetch := (obj_fetch obj2)\<lparr>fetch_fetch := Some ft\<rparr>\<rparr>) w1)))
     }"

definition llcache_post_data_clone :: "string \<Rightarrow> mem \<Rightarrow> string result \<times> mem" where
  "llcache_post_data_clone orig m =
     (case malloc m of (ok, m1) \<Rightarrow>
        if \<not> ok then (Inl NSERROR_NOMEM, m1)
        else (case strdup orig m1 of
            (None, m2) \<Rightarrow> (Inl NSERROR_NOMEM, free_block m2)
          | (Some s, m2) \<Rightarrow> (Inr s, m2)))"

definition clone_post :: "string option \<Rightarrow> mem \<Rightarrow> string option result \<times> mem" where
  "clone_post post m =
     (case post of
        None \<Rightarrow> (Inr None, m)
      | Some p \<Rightarrow> (case llcache_post_data_clone p m of (Inl e, m1) \<Rightarrow> (Inl e, m1) | (Inr c, m1) \<Rightarrow> (Inr (Some c), m1)))"

definition ref_referer :: "nsurl option \<Rightarrow> mem \<Rightarrow> mem" where
  "ref_referer referer m = (case referer of None \<Rightarrow> m | Some _ \<Rightarrow> url_handle_ref m)"

text \<open>What a client asks for; the request is passed on unchanged through the functions below.\<close>

record request =
  req_flags :: "32 word"
  req_referer :: "nsurl option"
  req_post :: "string option"
  req_redirects :: "32 word"
  req_hsts :: bool

definition llcache_object_fetch :: "'x environment \<Rightarrow> nat \<Rightarrow> request \<Rightarrow> 'x world \<Rightarrow> (nserror \<times> 'x world) option" where
  "llcache_object_fetch env a rq w =
     do {
       obj \<leftarrow> object_at w a;
       case clone_post (req_post rq) (memory w) of
         (Inl e, m1) \<Rightarrow> Some (e, w\<lparr>memory := m1\<rparr>)
       | (Inr post, m1) \<Rightarrow>
           llcache_object_refetch env a
             (set_object a
               (obj\<lparr>obj_fetch := (obj_fetch obj)\<lparr>fetch_flags := req_flags rq, fetch_referer := req_referer rq, fetch_post := post,
                  redirect_count := req_redirects rq, retries_remaining := fetch_attempts w, hsts_in_use := req_hsts rq\<rparr>\<rparr>)
               (w\<lparr>memory := ref_referer (req_referer rq) m1\<rparr>))
     }"

section \<open>The backing store\<close>

definition llcache_retrieve_persisted_data :: "'x environment \<Rightarrow> nat \<Rightarrow> 'x world \<Rightarrow> (nserror \<times> 'x world) option" where
  "llcache_retrieve_persisted_data env a w =
     do {
       obj \<leftarrow> object_at w a;
       if source_data obj \<noteq> None \<or> store_state obj \<noteq> LLCACHE_STATE_DISC then Some (NSERROR_OK, w)
       else (case env_store_fetch env (obj_url obj) BACKING_STORE_NONE (outside w) of
           (Inl e, x) \<Rightarrow> Some (e, w\<lparr>outside := x\<rparr>)
         | (Inr bytes, x) \<Rightarrow> Some (NSERROR_OK, set_object a (obj\<lparr>source_data := Some bytes, source_len := length bytes\<rparr>) (w\<lparr>outside := x\<rparr>)))
     }"

definition llcache_object_fetch_persistent :: "'x environment \<Rightarrow> nat \<Rightarrow> request \<Rightarrow> 'x world \<Rightarrow> (nserror \<times> 'x world) option" where
  "llcache_object_fetch_persistent env a rq w =
     do {
       obj \<leftarrow> object_at w a;
       persistable \<leftarrow> llcache__scheme_is_persistable (obj_url obj);
       if \<not> persistable then Some (NSERROR_NOT_FOUND, w)
       else do {
         let obj1 = obj\<lparr>cache := (cache obj)\<lparr>req_time := time_now env w, fin_time := time_now env w\<rparr>\<rparr>;
         (error, obj2, x, m) \<leftarrow> llcache_process_metadata (env_store_fetch env) (env_store_release env)
           (env_curl_getdate env) (time_now env w) obj1 (outside w) (memory w);
         let w1 = w\<lparr>memory := m, outside := x\<rparr>;
         if error \<noteq> NSERROR_OK then Some (error, set_object a obj2 w1)
         else (case clone_post (req_post rq) m of
             (Inl e, m1) \<Rightarrow> Some (e, set_object a obj2 (w1\<lparr>memory := m1\<rparr>))
           | (Inr post, m1) \<Rightarrow>
               Some (NSERROR_OK,
                 set_object a
                   (obj2\<lparr>obj_fetch := (obj_fetch obj2)\<lparr>fetch_flags := req_flags rq, fetch_referer := req_referer rq, fetch_post := post,
                      redirect_count := req_redirects rq, fetch_state := LLCACHE_FETCH_COMPLETE, fetch_fetch := None\<rparr>\<rparr>)
                   (w1\<lparr>memory := ref_referer (req_referer rq) m1\<rparr>)))
       }
     }"

section \<open>Retrieval\<close>

text \<open>The most recently fetched object for a URL among the cached ones.\<close>

fun newest_object :: "nsurl \<Rightarrow> nat list \<Rightarrow> nat option \<Rightarrow> 'x world \<Rightarrow> nat option option" where
  "newest_object url [] newest w = Some newest"
| "newest_object url (a # list) newest w =
     do {
       obj \<leftarrow> object_at w a;
       newer \<leftarrow> (case newest of None \<Rightarrow> Some True | Some b \<Rightarrow> do { best \<leftarrow> object_at w b; Some (req_time (cache obj) > req_time (cache best)) });
       newest_object url list (if newer \<and> nsurl_compare (obj_url obj) url NSURL_COMPLETE then Some a else newest) w
     }"

definition cache_object :: "nat \<Rightarrow> 'x world \<Rightarrow> 'x world" where
  "cache_object a w = w\<lparr>cached_objects := llcache_object_add_to_list a (cached_objects w)\<rparr>"

text \<open>The end of the function: a miss, for which the new object \<open>a\<close> is fetched.\<close>

definition fetch_missing :: "'x environment \<Rightarrow> nat \<Rightarrow> request \<Rightarrow> 'x world \<Rightarrow> (nat result \<times> 'x world) option" where
  "fetch_missing env a rq w =
     do {
       (error, w1) \<leftarrow> llcache_object_fetch env a rq w;
       if error \<noteq> NSERROR_OK then do { w2 \<leftarrow> llcache_object_destroy env a w1; Some (Inl error, w2) }
       else Some (Inr a, cache_object a w1)
     }"

text \<open>The data of an object are lost: it is replaced by a new one.\<close>

definition fetch_again :: "'x environment \<Rightarrow> nsurl \<Rightarrow> request \<Rightarrow> nat \<Rightarrow> 'x world \<Rightarrow> (nat result \<times> 'x world) option" where
  "fetch_again env url rq newest w =
     do {
       w1 \<leftarrow> llcache_object_destroy env newest (w\<lparr>cached_objects := llcache_object_remove_from_list newest (cached_objects w)\<rparr>);
       case make_object url w1 of
         (Inl e, w2) \<Rightarrow> Some (Inl e, w2)
       | (Inr a, w2) \<Rightarrow> fetch_missing env a rq w2
     }"

text \<open>An object that is no longer fresh becomes the candidate of a new one, fetched conditionally.\<close>

definition count_candidate :: "nat \<Rightarrow> 32 word \<Rightarrow> 'x world \<Rightarrow> 'x world option" where
  "count_candidate c d w = do { obj \<leftarrow> object_at w c; Some (set_object c (obj\<lparr>candidate_count := candidate_count obj + d\<rparr>) w) }"

definition set_candidate :: "nat \<Rightarrow> nat option \<Rightarrow> 'x world \<Rightarrow> 'x world option" where
  "set_candidate a c w = do { obj \<leftarrow> object_at w a; Some (set_object a (obj\<lparr>candidate := c\<rparr>) w) }"

definition validate_object :: "'x environment \<Rightarrow> nsurl \<Rightarrow> request \<Rightarrow> nat \<Rightarrow> 'x world \<Rightarrow> (nat result \<times> 'x world) option" where
  "validate_object env url rq newest w =
     (case make_object url w of
        (Inl e, w1) \<Rightarrow> Some (Inl e, w1)
      | (Inr a, w1) \<Rightarrow>
          do {
            old \<leftarrow> object_at w1 newest;
            obj \<leftarrow> object_at w1 a;
            case llcache_object_clone_cache_data (cache old) (cache obj) True (memory w1) of
              (error, _, cd, m) \<Rightarrow>
                let w2 = set_object a (obj\<lparr>cache := cd\<rparr>) (w1\<lparr>memory := m\<rparr>) in
                if error \<noteq> NSERROR_OK then do { w3 \<leftarrow> llcache_object_destroy env a w2; Some (Inl error, w3) }
                else do {
                  w3 \<leftarrow> count_candidate newest 1 w2;
                  w4 \<leftarrow> set_candidate a (Some newest) w3;
                  (error, w5) \<leftarrow> llcache_object_fetch env a rq w4;
                  if error \<noteq> NSERROR_OK then
                    do { w6 \<leftarrow> count_candidate newest (- 1) w5; w7 \<leftarrow> llcache_object_destroy env a w6; Some (Inl error, w7) }
                  else Some (Inr a, cache_object a w5)
                }
          })"

definition use_object :: "'x environment \<Rightarrow> nsurl \<Rightarrow> request \<Rightarrow> nat \<Rightarrow> 'x world \<Rightarrow> (nat result \<times> 'x world) option" where
  "use_object env url rq newest w =
     do {
       obj \<leftarrow> object_at w newest;
       let fresh = llcache_object_is_fresh (cache obj) (fetch_state (obj_fetch obj)) (time_now env w);
       (error, w1) \<leftarrow> llcache_retrieve_persisted_data env newest w;
       if error \<noteq> NSERROR_OK then fetch_again env url rq newest w1
       else if fresh then Some (Inr newest, w1)
       else validate_object env url rq newest w1
     }"

definition llcache_object_retrieve_from_cache :: "'x environment \<Rightarrow> nsurl \<Rightarrow> request \<Rightarrow> 'x world \<Rightarrow> (nat result \<times> 'x world) option" where
  "llcache_object_retrieve_from_cache env url rq w =
     do {
       newest \<leftarrow> newest_object url (cached_objects w) None w;
       case newest of
         Some b \<Rightarrow> use_object env url rq b w
       | None \<Rightarrow>
           (case make_object url w of
              (Inl e, w1) \<Rightarrow> Some (Inl e, w1)
            | (Inr a, w1) \<Rightarrow>
                do {
                  (error, w2) \<leftarrow> llcache_object_fetch_persistent env a rq w1;
                  if error = NSERROR_OK then use_object env url rq a (cache_object a w2)
                  else fetch_missing env a rq w2
                })
     }"

text \<open>Without the fragment a URL is a new one, or another reference to the same.\<close>

definition hold_url :: "derived \<Rightarrow> mem \<Rightarrow> mem" where
  "hold_url d m = url_handle_ref m"

definition llcache_object_retrieve :: "'x environment \<Rightarrow> nsurl \<Rightarrow> request \<Rightarrow> 'x world \<Rightarrow> (nat result \<times> 'x world) option" where
  "llcache_object_retrieve env url rq w =
     (case nsurl_defragment url (memory w) of
        (Inl e, m) \<Rightarrow> Some (Inl e, w\<lparr>memory := m\<rparr>)
      | (Inr d, m) \<Rightarrow>
          do {
            let w1 = w\<lparr>memory := hold_url d m\<rparr>;
            let defragmented_url = derived_url d;
            uncachable \<leftarrow> (if flag_set (req_flags rq) retrieve_force_fetch \<or> req_post rq \<noteq> None then Some True
                           else map_option Not (llcache__scheme_is_cachable defragmented_url));
            (r, w2) \<leftarrow>
              (if uncachable then
                 (case make_object defragmented_url w1 of
                    (Inl e, w2) \<Rightarrow> Some (Inl e, w2)
                  | (Inr a, w2) \<Rightarrow>
                      do {
                        (error, w3) \<leftarrow> llcache_object_fetch env a rq w2;
                        if error \<noteq> NSERROR_OK then do { w4 \<leftarrow> llcache_object_destroy env a w3; Some (Inl error, w4) }
                        else Some (Inr a, w3\<lparr>uncached_objects := llcache_object_add_to_list a (uncached_objects w3)\<rparr>)
                      })
               else llcache_object_retrieve_from_cache env defragmented_url rq w1);
            Some (r, with_memory url_handle_unref w2)
          })"

text \<open>The policy of a host that asks for secure transport.\<close>

definition llcache_hsts_transform_url :: "'x environment \<Rightarrow> nsurl \<Rightarrow> 'x world \<Rightarrow> ((nsurl \<times> bool) result \<times> 'x world) option" where
  "llcache_hsts_transform_url env url w =
     do {
       scheme \<leftarrow> url_scheme url;
       case lwc_string_caseless_isequal scheme ''http'' (memory w) of (match, m) \<Rightarrow>
         if match \<noteq> Some True then Some (Inr (url, False), w\<lparr>memory := url_handle_ref m\<rparr>)
         else if env_get_hsts_enabled env url (outside w) then
           (case nsurl_replace_scheme url ''https'' m of
              (Inl e, m1) \<Rightarrow> Some (Inl e, w\<lparr>memory := m1\<rparr>)
            | (Inr https_url, m1) \<Rightarrow> Some (Inr (https_url, True), w\<lparr>memory := url_handle_ref m1\<rparr>))
         else Some (Inr (url, False), w\<lparr>memory := url_handle_ref m\<rparr>)
     }"

definition llcache_handle_retrieve ::
  "'x environment \<Rightarrow> nsurl \<Rightarrow> 32 word \<Rightarrow> nsurl option \<Rightarrow> string option \<Rightarrow> nat \<Rightarrow> nat \<Rightarrow> 'x world \<Rightarrow> (nat result \<times> 'x world) option" where
  "llcache_handle_retrieve env url flags referer post cb pw w =
     do {
       (r, w1) \<leftarrow> llcache_hsts_transform_url env url w;
       case r of
         Inl e \<Rightarrow> Some (Inl e, w1)
       | Inr (hsts_url, hsts) \<Rightarrow>
           if \<not> env_fetch_can_fetch env hsts_url (outside w1) then Some (Inl NSERROR_NO_FETCH_HANDLER, with_memory url_handle_unref w1)
           else (case llcache_object_user_new cb pw w1 of
               (Inl e, w2) \<Rightarrow> Some (Inl e, with_memory url_handle_unref w2)
             | (Inr u, w2) \<Rightarrow>
                 do {
                   (found, w3) \<leftarrow> llcache_object_retrieve env hsts_url
                     \<lparr>req_flags = flags, req_referer = referer, req_post = post, req_redirects = 0, req_hsts = hsts\<rparr> w2;
                   case found of
                     Inl e \<Rightarrow> do { w4 \<leftarrow> llcache_object_user_destroy u w3; Some (Inl e, with_memory url_handle_unref w4) }
                   | Inr a \<Rightarrow>
                       do {
                         w4 \<leftarrow> llcache_object_add_user a u w3;
                         user \<leftarrow> user_at w4 u;
                         h \<leftarrow> user_handle user;
                         Some (Inr h, with_memory url_handle_unref (llcache_users_not_caught_up w4))
                       }
                 })
     }"

end
