(* ===== verification/Llcache_Retrieve_Inv.thy ===== *)
theory Llcache_Retrieve_Inv
  imports Llcache_Retrieve Llcache_Cache_Inv
begin

text \<open>
  Finding an object for a URL is always defined, keeps the invariant of the cache, leaves the objects
  in use alone, and returns an object of one of the two lists whose data can be read.
\<close>

section \<open>Fetches\<close>

definition same_lists :: "'x world \<Rightarrow> 'x world \<Rightarrow> bool" where
  "same_lists w w' \<longleftrightarrow> cached_objects w' = cached_objects w \<and> uncached_objects w' = uncached_objects w \<and> next_address w' = next_address w"

lemma same_lists_frame [simp]:
  "same_lists w w" "same_lists w (w'\<lparr>memory := m\<rparr>) = same_lists w w'" "same_lists w (w'\<lparr>outside := x\<rparr>) = same_lists w w'"
  "same_lists w (set_object a obj w') = same_lists w w'"
  by (simp_all add: same_lists_def set_object_def)

lemma unshared_cell:
  assumes "unshared a w" and "object_at w b = Some obj" and "object_at w' = (object_at w)(b \<mapsto> obj')"
    and "users obj' = users obj" and "candidate obj' = candidate obj" and "same_lists w w'"
  shows "unshared a w'"
proof -
  have "claims a w' = claims a w"
    using assms(2,3,5) by (auto simp: claims_def)
  then show ?thesis
    using assms by (auto simp: unshared_def loose_def same_lists_def)
qed

lemma set_object_memory [simp]: "object_at (set_object a obj w) = (object_at w)(a \<mapsto> obj)"
  by (simp add: set_object_def)

lemma refetch_ok:
  assumes ok: "cache_ok w" and obj: "object_at w a = Some obj" and ram: "store_state obj = LLCACHE_STATE_RAM"
  shows "\<exists>e w' cd f. llcache_object_refetch env a w = Some (e, w') \<and> cache_ok w' \<and> finds w w' \<and> same_lists w w' \<and>
    object_at w' = (object_at w)(a \<mapsto> obj\<lparr>cache := cd, obj_fetch := f\<rparr>)"
proof -
  obtain r m1 where hs: "request_headers env obj (memory w) = (r, m1)"
    by (rule prod.exhaust)
  have sound: "sound obj"
    using cache_okD(2) [OF ok obj] .
  show ?thesis
  proof (cases r)
    case (Inl e)
    have "object_at w = (object_at w)(a \<mapsto> obj\<lparr>cache := cache obj, obj_fetch := obj_fetch obj\<rparr>)"
      using obj by auto
    moreover have "llcache_object_refetch env a w = Some (e, w\<lparr>memory := m1\<rparr>)"
      by (simp add: llcache_object_refetch_def obj hs Inl)
    ultimately show ?thesis
      using ok by (intro exI [of _ e] exI [of _ "w\<lparr>memory := m1\<rparr>"] exI [of _ "cache obj"] exI [of _ "obj_fetch obj"]) simp
  next
    case (Inr headers)
    obtain obj1 m2 where inv: "llcache_invalidate_cache_control_data obj m1 = (obj1, m2)"
      by (rule prod.exhaust)
    then obtain cd where obj1: "obj1 = obj\<lparr>cache := cd\<rparr>"
      by (auto simp: llcache_invalidate_cache_control_data_def)
    let ?f = "obj_fetch obj"
    obtain r2 x where start: "env_fetch_start env (obj_url obj) (fetch_referer ?f) (flag_set (fetch_flags ?f) retrieve_no_error_pages)
        (fetch_post ?f) (flag_set (fetch_flags ?f) retrieve_verifiable) (tried_with_tls_downgrade ?f) headers (outside w) = (r2, x)"
      by (rule prod.exhaust)
    define f where "f = (case r2 of Inl e \<Rightarrow> ?f\<lparr>fetch_state := LLCACHE_FETCH_INIT\<rparr> | Inr ft \<Rightarrow> ?f\<lparr>fetch_state := LLCACHE_FETCH_INIT, fetch_fetch := Some ft\<rparr>)"
    define e where "e = (case r2 of Inl e \<Rightarrow> e | Inr ft \<Rightarrow> NSERROR_OK)"
    define obj' where "obj' = obj\<lparr>cache := cd\<lparr>req_time := time_now env w, fin_time := time_now env w\<rparr>, obj_fetch := f\<rparr>"
    let ?w = "w\<lparr>memory := free_block (free_strings headers m2), outside := x\<rparr>"
    have eq: "llcache_object_refetch env a w = Some (e, set_object a obj' ?w)"
      by (cases r2) (simp_all add: llcache_object_refetch_def obj hs Inr inv obj1 start Let_def f_def e_def obj'_def)
    have "sound obj'"
      using sound ram by (auto simp: obj'_def intro!: sound_fetch)
    then have "cache_ok (set_object a obj' ?w)" "finds ?w (set_object a obj' ?w)"
      using set_object_ok [of ?w a obj obj'] ok obj by (simp_all add: obj'_def)
    then show ?thesis
      using eq by (intro exI [of _ e] exI [of _ "set_object a obj' ?w"]) (auto simp: obj'_def)
  qed
qed

lemma fetch_ok:
  assumes ok: "cache_ok w" and obj: "object_at w a = Some obj" and ram: "store_state obj = LLCACHE_STATE_RAM"
  shows "\<exists>e w' cd f. llcache_object_fetch env a rq w = Some (e, w') \<and> cache_ok w' \<and> finds w w' \<and> same_lists w w' \<and>
    object_at w' = (object_at w)(a \<mapsto> obj\<lparr>cache := cd, obj_fetch := f\<rparr>)"
proof -
  obtain r m1 where post: "clone_post (req_post rq) (memory w) = (r, m1)"
    by (rule prod.exhaust)
  show ?thesis
  proof (cases r)
    case (Inl e)
    have "object_at w = (object_at w)(a \<mapsto> obj\<lparr>cache := cache obj, obj_fetch := obj_fetch obj\<rparr>)"
      using obj by auto
    moreover have "llcache_object_fetch env a rq w = Some (e, w\<lparr>memory := m1\<rparr>)"
      by (simp add: llcache_object_fetch_def obj post Inl)
    ultimately show ?thesis
      using ok by (intro exI [of _ e] exI [of _ "w\<lparr>memory := m1\<rparr>"] exI [of _ "cache obj"] exI [of _ "obj_fetch obj"]) simp
  next
    case (Inr p)
    let ?w = "w\<lparr>memory := ref_referer (req_referer rq) m1\<rparr>"
    define obj' where "obj' = obj\<lparr>obj_fetch := (obj_fetch obj)\<lparr>fetch_flags := req_flags rq, fetch_referer := req_referer rq, fetch_post := p,
                  redirect_count := req_redirects rq, retries_remaining := fetch_attempts w, hsts_in_use := req_hsts rq\<rparr>\<rparr>"
    have "sound obj'"
      using cache_okD(2) [OF ok obj] unfolding obj'_def by (rule sound_fetch) simp
    then have 1: "cache_ok (set_object a obj' ?w)" "finds ?w (set_object a obj' ?w)" "object_at (set_object a obj' ?w) a = Some obj'"
      using set_object_ok [of ?w a obj obj'] ok obj by (simp_all add: obj'_def)
    have "store_state obj' = LLCACHE_STATE_RAM"
      using ram by (simp add: obj'_def)
    then obtain e w' cd f where w': "llcache_object_refetch env a (set_object a obj' ?w) = Some (e, w')" "cache_ok w'"
        "finds (set_object a obj' ?w) w'" "same_lists (set_object a obj' ?w) w'"
        "object_at w' = (object_at (set_object a obj' ?w))(a \<mapsto> obj'\<lparr>cache := cd, obj_fetch := f\<rparr>)"
      using refetch_ok [OF 1(1,3), of env] by blast
    have "llcache_object_fetch env a rq w = Some (e, w')"
      using w'(1) by (simp add: llcache_object_fetch_def obj post Inr obj'_def)
    moreover have "finds w w'"
      using finds_trans [OF 1(2) w'(3)] by simp
    moreover have "same_lists w w'"
      using w'(4) by (simp add: same_lists_def set_object_def)
    moreover have "object_at w' = (object_at w)(a \<mapsto> obj\<lparr>cache := cd, obj_fetch := f\<rparr>)"
      using w'(5) by (simp add: obj'_def)
    ultimately show ?thesis
      using w'(2) by blast
  qed
qed

text \<open>What a function that looks for an object returns; the world it started from is \<open>w0\<close>.\<close>

definition found :: "nat \<Rightarrow> 'x world \<Rightarrow> bool" where
  "found a w \<longleftrightarrow> (\<exists>obj. object_at w a = Some obj \<and> \<not> evicted obj) \<and> a \<in> set (cached_objects w @ uncached_objects w)"

definition returns_object :: "'x world \<Rightarrow> (nat result \<times> 'x world) option \<Rightarrow> bool" where
  "returns_object w0 x \<longleftrightarrow> (\<exists>r w'. x = Some (r, w') \<and> cache_ok w' \<and> finds w0 w' \<and> (\<forall>a. r = Inr a \<longrightarrow> found a w'))"

lemma returns_objectI:
  "x = Some (r, w') \<Longrightarrow> cache_ok w' \<Longrightarrow> finds w0 w' \<Longrightarrow> (\<And>a. r = Inr a \<Longrightarrow> found a w') \<Longrightarrow> returns_object w0 x"
  by (auto simp: returns_object_def)

lemma found_frame [simp]: "found a (w\<lparr>memory := m\<rparr>) = found a w" "found a (with_memory g w) = found a w"
  by (simp_all add: found_def with_memory_def)

text \<open>A fetch of a new object, which is destroyed again when it fails, and put into a list when it starts.\<close>

lemma start_ok:
  assumes ok: "cache_ok w" and unshared: "unshared a w" and obj: "object_at w a = Some obj" "store_state obj = LLCACHE_STATE_RAM"
    and w0: "finds w0 w" "object_at w0 a = None"
  shows "\<exists>e w1. llcache_object_fetch env a rq w = Some (e, w1) \<and> cache_ok w1 \<and> finds w0 w1 \<and> unshared a w1 \<and>
    (\<exists>obj1. object_at w1 a = Some obj1 \<and> \<not> evicted obj1 \<and> candidate obj1 = candidate obj) \<and> same_lists w w1 \<and>
    (\<forall>b. b \<noteq> a \<longrightarrow> object_at w1 b = object_at w b) \<and>
    (\<exists>w2. llcache_object_destroy env a w1 = Some w2 \<and> cache_ok w2 \<and> finds w0 w2)"
proof -
  obtain e w1 cd f where w1: "llcache_object_fetch env a rq w = Some (e, w1)" "cache_ok w1" "finds w w1" "same_lists w w1"
      "object_at w1 = (object_at w)(a \<mapsto> obj\<lparr>cache := cd, obj_fetch := f\<rparr>)"
    using fetch_ok [OF ok obj, of env rq] by blast
  have unshared1: "unshared a w1"
    using unshared_cell [OF unshared obj(1) w1(5)] w1(4) by simp
  obtain w2 where w2: "llcache_object_destroy env a w1 = Some w2" "cache_ok w2" "object_at w2 = (object_at w1)(a := None)"
      "next_address w2 = next_address w1" "user_at w2 = user_at w1" "handle_at w2 = handle_at w1"
    using destroy_unshared [OF w1(2) unshared1, of env] by blast
  have finds: "finds w0 w1"
    using finds_trans [OF w0(1) w1(3)] .
  then have "finds w0 w2"
    using finds_destroy [of w0 w1 a w2] w0(2) w2(3-6) by simp
  then show ?thesis
    using w1 w2 unshared1 finds obj by (auto simp: evicted_def)
qed

lemma fetch_missing_ok:
  assumes "cache_ok w" and "unshared a w" and "object_at w a = Some obj" "store_state obj = LLCACHE_STATE_RAM"
    and "finds w0 w" "object_at w0 a = None"
  shows "returns_object w0 (fetch_missing env a rq w)"
proof -
  obtain e w1 obj1 w2 where 1: "llcache_object_fetch env a rq w = Some (e, w1)" "cache_ok w1" "finds w0 w1" "unshared a w1"
      "object_at w1 a = Some obj1" "\<not> evicted obj1" "llcache_object_destroy env a w1 = Some w2" "cache_ok w2" "finds w0 w2"
    using start_ok [OF assms] by blast
  show ?thesis
  proof (cases "e = NSERROR_OK")
    case True
    then show ?thesis
      using 1 list_unshared(1) [OF 1(2,4)]
      by (intro returns_objectI [of _ "Inr a" "cache_object a w1"])
        (auto simp: fetch_missing_def cache_object_def llcache_object_add_to_list_def found_def)
  next
    case False
    then show ?thesis
      using 1 by (intro returns_objectI [of _ "Inl e" w2]) (auto simp: fetch_missing_def)
  qed
qed

text \<open>An object that nobody uses leaves its list.\<close>

lemma unlist_ok:
  assumes ok: "cache_ok w" and obj: "object_at w b = Some old" "users old = []" "claims b w = {}"
  shows "b \<in> set (cached_objects w) \<Longrightarrow> cache_ok (w\<lparr>cached_objects := remove1 b (cached_objects w)\<rparr>) \<and>
      unshared b (w\<lparr>cached_objects := remove1 b (cached_objects w)\<rparr>)"
    and "b \<in> set (uncached_objects w) \<Longrightarrow> cache_ok (w\<lparr>uncached_objects := remove1 b (uncached_objects w)\<rparr>) \<and>
      unshared b (w\<lparr>uncached_objects := remove1 b (uncached_objects w)\<rparr>)"
proof -
  have d: "distinct (cached_objects w @ uncached_objects w)"
    using cache_okD(1) [OF ok] by (simp add: heap_ok_def lists_ok_def)
  have same: "object_ok (w\<lparr>cached_objects := l\<rparr>) a x = object_ok w a x" "object_ok (w\<lparr>uncached_objects := l\<rparr>) a x = object_ok w a x" for a x l
    by (simp_all add: object_ok_def user_ok_def)
  have owners: "owners_ok (w\<lparr>cached_objects := l\<rparr>) = owners_ok w" "owners_ok (w\<lparr>uncached_objects := l\<rparr>) = owners_ok w" for l
    by (simp_all add: owners_ok_def)
  have claims: "claims b (w\<lparr>cached_objects := l\<rparr>) = {}" "claims b (w\<lparr>uncached_objects := l\<rparr>) = {}" for l
    using obj(3) by (simp_all add: claims_def)
  show "cache_ok (w\<lparr>cached_objects := remove1 b (cached_objects w)\<rparr>) \<and> unshared b (w\<lparr>cached_objects := remove1 b (cached_objects w)\<rparr>)"
    if "b \<in> set (cached_objects w)"
  proof -
    have "heap_ok (w\<lparr>cached_objects := remove1 b (cached_objects w)\<rparr>)"
      using cache_okD(1) [OF ok] same owners by (auto simp: heap_ok_def fresh_ok_def lists_ok_def)
    then show ?thesis
      using ok that d obj(1,2) claims candidates_ok_cong [of "w\<lparr>cached_objects := remove1 b (cached_objects w)\<rparr>" w]
      by (auto simp: cache_ok_def used_ok_def unshared_def loose_def)
  qed
  show "cache_ok (w\<lparr>uncached_objects := remove1 b (uncached_objects w)\<rparr>) \<and> unshared b (w\<lparr>uncached_objects := remove1 b (uncached_objects w)\<rparr>)"
    if "b \<in> set (uncached_objects w)"
  proof -
    have "heap_ok (w\<lparr>uncached_objects := remove1 b (uncached_objects w)\<rparr>)"
      using cache_okD(1) [OF ok] same owners by (auto simp: heap_ok_def fresh_ok_def lists_ok_def)
    then show ?thesis
      using ok that d obj(1,2) claims candidates_ok_cong [of "w\<lparr>uncached_objects := remove1 b (uncached_objects w)\<rparr>" w]
      by (auto simp: cache_ok_def used_ok_def unshared_def loose_def)
  qed
qed

lemma evicted_unclaimed:
  assumes "cache_ok w" and "object_at w b = Some old" and "evicted old"
  shows "users old = []" and "claims b w = {}"
proof -
  show "users old = []"
    using cache_okD(6) [OF assms(1,2)] assms(3) by auto
  have "candidate x \<noteq> Some b" if "object_at w c = Some x" for c x
    using cache_okD(3) [OF assms(1) that, of b] assms(2,3) by auto
  then show "claims b w = {}"
    by (auto simp: claims_def)
qed

text \<open>Counting the objects that have another as their candidate.\<close>

lemma count_ok:
  assumes ok: "cache_ok w" and obj: "object_at w b = Some old" and n: "card (claims b w) \<le> unat n" "unat n \<le> next_address w"
  shows "cache_ok (set_object b (old\<lparr>candidate_count := n\<rparr>) w)" and "finds w (set_object b (old\<lparr>candidate_count := n\<rparr>) w)"
proof -
  let ?w = "set_object b (old\<lparr>candidate_count := n\<rparr>) w"
  have cell: "readable (old\<lparr>candidate_count := n\<rparr>) = readable old"
    by simp
  have "users old \<noteq> [] \<longrightarrow> read_source 0 old \<noteq> None"
    using heap_okD(3) [OF cache_okD(1) [OF ok] obj] by auto
  then have "heap_ok ?w"
    using heap_ok_set_object [OF cache_okD(1) [OF ok] obj, of "old\<lparr>candidate_count := n\<rparr>"] cell by (simp add: readable_def)
  moreover have "all_sound ?w" "used_ok ?w"
    using ok obj by (auto simp: cache_ok_def all_sound_def used_ok_def set_object_def)
  moreover have "candidates_ok ?w"
  proof -
    have claims: "claims c ?w = claims c w" for c
      using obj by (auto simp: claims_def set_object_def)
    have "c \<noteq> a \<and> (\<exists>y. object_at ?w c = Some y \<and> \<not> evicted y)" if x: "object_at ?w a = Some x" "candidate x = Some c" for a x c
    proof -
      obtain y where y: "object_at w a = Some y" "candidate y = Some c"
        using x obj by (cases "a = b") auto
      show ?thesis
        using cache_okD(3) [OF ok y] obj by auto
    qed
    moreover have "card (claims c ?w) \<le> unat (candidate_count x) \<and> unat (candidate_count x) \<le> next_address ?w" if "object_at ?w c = Some x" for c x
      using that n cache_okD(4,5) [OF ok, of c x] unfolding claims by (auto simp: set_object_def split: if_splits)
    ultimately show ?thesis
      unfolding candidates_ok_def by blast
  qed
  ultimately show "cache_ok ?w"
    by (simp add: cache_ok_def)
  show "finds w ?w"
    using obj by (auto simp: finds_def set_object_def)
qed

lemma candidate_ok:
  assumes ok: "cache_ok w" and obj: "object_at w a = Some obj"
    and c: "\<And>b. c = Some b \<Longrightarrow> b \<noteq> a \<and> (\<exists>old. object_at w b = Some old \<and> \<not> evicted old \<and> card (insert a (claims b w)) \<le> unat (candidate_count old))"
  shows "cache_ok (set_object a (obj\<lparr>candidate := c\<rparr>) w)"
proof -
  let ?w = "set_object a (obj\<lparr>candidate := c\<rparr>) w"
  have cell: "readable (obj\<lparr>candidate := c\<rparr>) = readable obj"
    by simp
  have "users obj \<noteq> [] \<longrightarrow> read_source 0 obj \<noteq> None"
    using heap_okD(3) [OF cache_okD(1) [OF ok] obj] by auto
  then have "heap_ok ?w"
    using heap_ok_set_object [OF cache_okD(1) [OF ok] obj, of "obj\<lparr>candidate := c\<rparr>"] cell by (simp add: readable_def)
  moreover have "all_sound ?w" "used_ok ?w"
    using ok obj by (auto simp: cache_ok_def all_sound_def used_ok_def set_object_def)
  moreover have "candidates_ok ?w"
  proof -
    have claims: "claims b ?w = (if c = Some b then insert a (claims b w) else claims b w - {a})" for b
      using obj by (auto simp: claims_def set_object_def)
    have "b \<noteq> a' \<and> (\<exists>y. object_at ?w b = Some y \<and> \<not> evicted y)" if x: "object_at ?w a' = Some x" "candidate x = Some b" for a' x b
    proof (cases "a' = a")
      case True
      then have "c = Some b"
        using x by auto
      then show ?thesis
        using c obj True by auto
    next
      case False
      then show ?thesis
        using cache_okD(3) [OF ok, of a' x b] x obj by auto
    qed
    moreover have "card (claims b ?w) \<le> unat (candidate_count x) \<and> unat (candidate_count x) \<le> next_address ?w" if x: "object_at ?w b = Some x" for b x
    proof -
      obtain y where y: "object_at w b = Some y" "candidate_count x = candidate_count y"
        using x obj by (cases "b = a") auto
      have "card (claims b w - {a}) \<le> card (claims b w)"
        by (rule card_mono) (auto intro: claims_finite [OF cache_okD(1) [OF ok]])
      then have "card (claims b ?w) \<le> unat (candidate_count y)"
        using c y(1) cache_okD(4) [OF ok y(1)] unfolding claims by auto
      then show ?thesis
        using cache_okD(5) [OF ok y(1)] y(2) by (simp add: set_object_def)
    qed
    ultimately show ?thesis
      unfolding candidates_ok_def by blast
  qed
  ultimately show ?thesis
    by (simp add: cache_ok_def)
qed

lemma new_is_fresh:
  assumes "heap_ok w0" and "finds w0 w" and "make_object url w = (Inr a, w')"
  shows "object_at w0 a = None"
  using assms(1,2) make_object_cases [OF assms(3)] by (auto simp: finds_def heap_ok_def fresh_ok_def)

lemma destroy_commute:
  "a \<noteq> b \<Longrightarrow> llcache_object_destroy env a (set_object b x w) = map_option (set_object b x) (llcache_object_destroy env a w)"
  by (cases "object_at w a") (simp_all add: llcache_object_destroy_def set_object_def Let_def outside_do_def with_memory_def fun_upd_twist)

lemma finds_new:
  assumes "finds w0 w" and "object_at w0 a = None" and "object_at w' = (object_at w)(a \<mapsto> obj')" and "users obj' = []"
    and "user_at w' = user_at w" "handle_at w' = handle_at w" "next_address w \<le> next_address w'"
  shows "finds w0 w'"
  using assms unfolding finds_def by auto

section \<open>Metadata\<close>

lemma same_fields: "\<exists>cd hs. obj = obj\<lparr>cache := cd, headers := hs\<rparr>"
  by (intro exI [of _ "cache obj"] exI [of _ "headers obj"]) simp

definition same_body :: "llcache_object \<Rightarrow> llcache_object \<Rightarrow> bool" where
  "same_body obj obj' \<longleftrightarrow> obj'\<lparr>cache := zero_cache_control, headers := []\<rparr> = obj\<lparr>cache := zero_cache_control, headers := []\<rparr>"

lemma same_body_simps [simp]:
  "same_body obj obj" "same_body obj (obj'\<lparr>cache := cd\<rparr>) = same_body obj obj'" "same_body obj (obj'\<lparr>headers := hs\<rparr>) = same_body obj obj'"
  by (simp_all add: same_body_def)

lemma same_bodyD: "same_body obj obj' \<Longrightarrow> \<exists>cd hs. obj' = obj\<lparr>cache := cd, headers := hs\<rparr>"
  by (intro exI [of _ "cache obj'"] exI [of _ "headers obj'"]) (cases obj, cases obj', simp add: same_body_def)

lemma process_header_fields:
  assumes "llcache_fetch_process_header curl_getdate now obj data len m = Some (res, obj', m')"
  shows "\<exists>cd hs. obj' = obj\<lparr>cache := cd, headers := hs\<rparr>"
proof -
  have append: "same_body obj o2" if "append_header o1 h m = (r, o2, m2)" "same_body obj o1" for o1 h m r o2 m2
    using that by (auto simp: append_header_def split: prod.splits if_splits)
  define start where "start = (if take 5 data = ''HTTP/'' then
               (case llcache_invalidate_cache_control_data obj m of (o1, ma) \<Rightarrow>
                  llcache_destroy_headers (o1\<lparr>cache := (cache o1)\<lparr>req_time := req_time (cache obj)\<rparr>\<rparr>) ma)
             else (obj, m))"
  obtain o1 m1 where o1: "start = (o1, m1)"
    by (rule prod.exhaust)
  have "same_body obj o1"
    using o1 by (auto simp: start_def llcache_destroy_headers_def llcache_invalidate_cache_control_data_def split: if_splits)
  then have "same_body obj obj'"
    using assms unfolding llcache_fetch_process_header_def start_def [symmetric] o1
    by (auto simp: Let_def split: option.splits prod.splits sum.splits if_splits dest!: append)
  then show ?thesis
    by (rule same_bodyD)
qed

lemma read_headers_fields:
  "read_headers curl_getdate now n data obj m = Some (res, obj', data', m') \<Longrightarrow> \<exists>cd hs. obj' = obj\<lparr>cache := cd, headers := hs\<rparr>"
proof (induction n arbitrary: data obj m)
  case 0
  then show ?case
    by (auto intro: same_fields)
next
  case (Suc n)
  then obtain ln rest where ln: "read_line data = Some (ln, rest)"
    by (auto split: option.splits)
  obtain r o1 m1 where head: "llcache_fetch_process_header curl_getdate now obj ln (length ln) m = Some (r, o1, m1)"
    using Suc.prems ln by (auto split: option.splits)
  note o1 = process_header_fields [OF head]
  show ?case
  proof (cases "r = NSERROR_OK")
    case True
    then have "read_headers curl_getdate now n rest o1 m1 = Some (res, obj', data', m')"
      using Suc.prems ln head by simp
    then obtain cd hs where "obj' = o1\<lparr>cache := cd, headers := hs\<rparr>"
      using Suc.IH by blast
    then have "obj' = obj\<lparr>cache := cd, headers := hs\<rparr>"
      using o1 by auto
    then show ?thesis
      by blast
  next
    case False
    then show ?thesis
      using Suc.prems ln head o1 by auto
  qed
qed

definition restored :: "llcache_object \<Rightarrow> llcache_object \<Rightarrow> bool" where
  "restored obj obj' \<longleftrightarrow> (\<exists>n k cd hs ch. obj' = obj\<lparr>headers := hs, source_len := n, source_alloc := k, cache := cd, chain := ch,
     store_state := LLCACHE_STATE_DISC\<rparr>)"

lemma process_lines_fields:
  assumes lines: "process_lines curl_getdate now obj metadata m = Some (r, o1, m1)"
  shows "same_body obj o1 \<or> r = NSERROR_OK \<and> restored obj o1"
proof -
  obtain ln data where ln: "read_line metadata = Some (ln, data)"
    using lines by (auto simp: process_lines_def split: option.splits)
  obtain res ma where url: "check_url (obj_url obj) ln m = Some (res, ma)"
    using lines ln by (auto simp: process_lines_def split: option.splits)
  show ?thesis
  proof (cases "res = NSERROR_OK")
    case False
    then show ?thesis
      using lines by (auto simp: process_lines_def ln url)
  next
    case True
    note eq = lines [unfolded process_lines_def ln url option.case prod.case True, simplified]
    consider e where "read_numbers data = Some (Inl e)" | n rq rs ft k d1 where "read_numbers data = Some (Inr (n, rq, rs, ft, k, d1))"
      using eq by (cases "read_numbers data") (auto split: sum.splits prod.splits)
    then show ?thesis
    proof cases
      case 1
      then show ?thesis
        using eq by simp
    next
      case 2
      obtain r2 o2 d2 m2 where heads: "read_headers curl_getdate now k d1 obj ma = Some (r2, o2, d2, m2)"
        using eq 2 by (cases "read_headers curl_getdate now k d1 obj ma") auto
      obtain cd hs where o2: "o2 = obj\<lparr>cache := cd, headers := hs\<rparr>"
        using read_headers_fields [OF heads] by blast
      have body: "same_body obj o2"
        by (simp add: o2)
      show ?thesis
      proof (cases "r2 = NSERROR_OK")
        case False
        then show ?thesis
          using eq 2 heads body by simp
      next
        case True
        obtain c m3 where "read_chain metadata d2 m2 = Some (c, m3)"
          using eq 2 heads True by (cases "read_chain metadata d2 m2") auto
        note chain = this
        show ?thesis
        proof (cases c)
          case (Inl e)
          then show ?thesis
            using eq 2 heads True body chain by auto
        next
          case (Inr b)
          then have "r = NSERROR_OK" "o1 = obj\<lparr>headers := hs, source_len := n, source_alloc := length metadata,
              cache := cd\<lparr>req_time := rq, res_time := rs, fin_time := ft\<rparr>, chain := b, store_state := LLCACHE_STATE_DISC\<rparr>"
            using eq 2 heads True chain by (simp_all add: o2)
          then show ?thesis
            unfolding restored_def by blast
        qed
      qed
    qed
  qed
qed

lemma process_metadata_fields:
  assumes "llcache_process_metadata bs_fetch bs_release curl_getdate now obj x m = Some (res, obj', x', m')"
  shows "same_body obj obj' \<or> res = NSERROR_OK \<and> restored obj obj'"
  using assms by (auto simp: llcache_process_metadata_def split: prod.splits sum.splits option.splits dest: process_lines_fields)

text \<open>
  What the cache relies on in a backing store: an error is not \<open>NSERROR_OK\<close>, and the metadata that
  it hands out can be read as far as their lines go, as those the cache wrote can.
\<close>

locale backing_store =
  fixes env :: "'x environment"
  assumes fetch_error: "env_store_fetch env url flags x \<noteq> (Inl NSERROR_OK, x')"
    and metadata_defined: "llcache_process_metadata (env_store_fetch env) (env_store_release env) (env_curl_getdate env) now object x m \<noteq> None"
begin

lemma retrieve_persisted_ok:
  assumes ok: "cache_ok w" and obj: "object_at w a = Some obj"
  shows "\<exists>e w'. llcache_retrieve_persisted_data env a w = Some (e, w') \<and> cache_ok w' \<and> finds w w' \<and> same_lists w w' \<and>
    (if e = NSERROR_OK then \<exists>obj'. object_at w' a = Some obj' \<and> \<not> evicted obj' else evicted obj \<and> object_at w' = object_at w) \<and>
    (\<forall>b. b \<noteq> a \<longrightarrow> object_at w' b = object_at w b) \<and> (\<forall>obj'. object_at w' a = Some obj' \<longrightarrow> candidate_count obj' = candidate_count obj)"
proof (cases "evicted obj")
  case False
  then have "llcache_retrieve_persisted_data env a w = Some (NSERROR_OK, w)"
    by (auto simp: llcache_retrieve_persisted_data_def obj evicted_def)
  then show ?thesis
    using ok obj False by simp
next
  case True
  obtain r x where store: "env_store_fetch env (obj_url obj) BACKING_STORE_NONE (outside w) = (r, x)"
    by (rule prod.exhaust)
  show ?thesis
  proof (cases r)
    case (Inl e)
    show ?thesis
      using ok True store obj fetch_error [of "obj_url obj" BACKING_STORE_NONE "outside w" x]
      by (auto simp: llcache_retrieve_persisted_data_def Inl evicted_def)
  next
    case (Inr bytes)
    let ?obj = "obj\<lparr>source_data := Some bytes, source_len := length bytes\<rparr>"
    let ?w = "w\<lparr>outside := x\<rparr>"
    have "sound ?obj"
      using cache_okD(2) [OF ok obj] True by (auto simp: sound_def evicted_def readable_def read_source_def)
    then have "cache_ok (set_object a ?obj ?w)" "finds ?w (set_object a ?obj ?w)"
      using set_object_ok [of ?w a obj ?obj] ok obj True by simp_all
    moreover have "llcache_retrieve_persisted_data env a w = Some (NSERROR_OK, set_object a ?obj ?w)"
      using True by (simp add: llcache_retrieve_persisted_data_def obj store Inr evicted_def)
    ultimately show ?thesis
      by (simp add: evicted_def)
  qed
qed

lemma fetch_again_ok:
  assumes ok: "cache_ok w" and obj: "object_at w b = Some old" "evicted old" "b \<in> set (cached_objects w)" and "nsurl_wf url"
    and heap: "heap_ok w0" and w0: "finds w0 w" "object_at w0 b = None \<or> (\<exists>obj. object_at w0 b = Some obj \<and> users obj = [] \<and> store_state obj = LLCACHE_STATE_DISC)"
  shows "returns_object w0 (fetch_again env url rq b w)"
proof -
  note gone = evicted_unclaimed [OF ok obj(1,2)]
  define w1 where "w1 = w\<lparr>cached_objects := remove1 b (cached_objects w)\<rparr>"
  have w1: "cache_ok w1" "unshared b w1"
    using unlist_ok(1) [OF ok obj(1) gone obj(3)] by (simp_all add: w1_def)
  obtain w2 where w2: "llcache_object_destroy env b w1 = Some w2" "cache_ok w2" "object_at w2 = (object_at w1)(b := None)"
      "next_address w2 = next_address w1" "user_at w2 = user_at w1" "handle_at w2 = handle_at w1"
    using destroy_unshared [OF w1, of env] by blast
  have "finds w0 w1"
    using w0(1) by (simp add: w1_def)
  then have finds2: "finds w0 w2"
    using finds_destroy [of w0 w1 b w2] w0(2) w2(3-6) by simp
  obtain r w3 where make: "make_object url w2 = (r, w3)"
    by (rule prod.exhaust)
  have start: "fetch_again env url rq b w = (case (r, w3) of (Inl e, w2) \<Rightarrow> Some (Inl e, w2) | (Inr a, w2) \<Rightarrow> fetch_missing env a rq w2)"
    using w2(1) make by (simp add: fetch_again_def llcache_object_remove_from_list_def w1_def)
  show ?thesis
  proof (cases r)
    case (Inl e)
    then obtain m where "w3 = w2\<lparr>memory := m\<rparr>"
      using make make_object_fails by blast
    then show ?thesis
      using start Inl w2(2) finds2 by (intro returns_objectI [of _ "Inl e" w3]) simp_all
  next
    case (Inr a)
    have a: "cache_ok w3" "finds w2 w3" "unshared a w3" "object_at w2 a = None" "object_at w3 = (object_at w2)(a \<mapsto> new_object url)"
      using new_object_ok [OF w2(2) assms(5)] make Inr by auto
    have "object_at w0 a = None"
      using new_is_fresh [OF heap finds2] make Inr by blast
    then have "returns_object w0 (fetch_missing env a rq w3)"
      using fetch_missing_ok [OF a(1,3), of "new_object url" w0] a(5) finds_trans [OF finds2 a(2)] by simp
    then show ?thesis
      using start Inr by simp
  qed
qed

lemma validate_ok:
  assumes ok: "cache_ok w" and b: "object_at w b = Some old" "\<not> evicted old" and "nsurl_wf url" and few: "next_address w < 2 ^ 32 - 1"
    and heap: "heap_ok w0" and w0: "finds w0 w"
  shows "returns_object w0 (validate_object env url rq b w)"
proof -
  obtain r w1 where make: "make_object url w = (r, w1)"
    by (rule prod.exhaust)
  show ?thesis
  proof (cases r)
    case (Inl e)
    then obtain m where "w1 = w\<lparr>memory := m\<rparr>"
      using make make_object_fails by blast
    then show ?thesis
      using make Inl ok w0 by (intro returns_objectI [of _ "Inl e" w1]) (simp_all add: validate_object_def)
  next
    case (Inr a)
    have a: "cache_ok w1" "finds w w1" "unshared a w1" "object_at w a = None" "object_at w1 = (object_at w)(a \<mapsto> new_object url)"
        "next_address w1 = next_address w + 1"
      using new_object_ok [OF ok assms(4)] make Inr by auto
    have a0: "object_at w0 a = None"
      using new_is_fresh [OF heap w0] make Inr by blast
    have ba: "b \<noteq> a"
      using b(1) a(4) by auto
    have old1: "object_at w1 b = Some old" and obj1: "object_at w1 a = Some (new_object url)"
      using a(5) b(1) ba by simp_all
    obtain error cd0 cd m where clone: "llcache_object_clone_cache_data (cache old) (cache (new_object url)) True (memory w1) = (error, cd0, cd, m)"
      by (rule prod_cases4) blast
    let ?obj2 = "(new_object url)\<lparr>cache := cd\<rparr>"
    define w2 where "w2 = set_object a ?obj2 (w1\<lparr>memory := m\<rparr>)"
    have w2: "cache_ok w2" "finds (w1\<lparr>memory := m\<rparr>) w2"
      using set_object_ok [of "w1\<lparr>memory := m\<rparr>" a "new_object url" ?obj2] a(1) obj1 assms(4) by (simp_all add: w2_def)
    have u2: "unshared a w2"
      unfolding w2_def using a(3) obj1 by (intro unshared_set_object [of _ _ _ "new_object url"]) simp_all
    have at2: "object_at w2 a = Some ?obj2" "object_at w2 b = Some old" "next_address w2 = next_address w + 1"
      using ba old1 a(6) by (simp_all add: w2_def) (simp add: set_object_def)
    have f2: "finds w0 w2"
      using finds_trans [OF w0 a(2)] w2(2) finds_trans by fastforce
    show ?thesis
    proof (cases "error = NSERROR_OK")
      case False
      obtain w3 where w3: "llcache_object_destroy env a w2 = Some w3" "cache_ok w3" "object_at w3 = (object_at w2)(a := None)"
          "next_address w3 = next_address w2" "user_at w3 = user_at w2" "handle_at w3 = handle_at w2"
        using destroy_unshared [OF w2(1) u2, of env] by blast
      have "finds w0 w3"
        using finds_destroy [OF f2, of a w3] a0 w3(3-6) by simp
      then show ?thesis
        using make Inr old1 obj1 clone False w3(1,2)
        by (intro returns_objectI [of _ "Inl error" w3]) (simp_all add: validate_object_def w2_def [symmetric])
    next
      case True
      have count: "unat (candidate_count old + 1) = unat (candidate_count old) + 1"
        using cache_okD(5) [OF ok b(1)] few by (intro unat_add_lem [THEN iffD1, THEN trans]) simp_all
      define w3 where "w3 = set_object b (old\<lparr>candidate_count := candidate_count old + 1\<rparr>) w2"
      have claims2: "claims b w2 = claims b w"
        using a(4,5) ba by (auto simp: claims_def w2_def)
      have few2: "card (claims b w) \<le> unat (candidate_count old)" "unat (candidate_count old) \<le> next_address w"
        using cache_okD(4,5) [OF ok b(1)] by simp_all
      have w3: "cache_ok w3" "finds w2 w3"
        using count_ok [OF w2(1) at2(2), of "candidate_count old + 1"] few2 count claims2 at2(3) by (simp_all add: w3_def)
      have at3: "object_at w3 a = Some ?obj2" "object_at w3 b = Some (old\<lparr>candidate_count := candidate_count old + 1\<rparr>)" "claims b w3 = claims b w"
        using at2 ba claims2 b(1) by (auto simp: w3_def claims_def)
      let ?obj4 = "?obj2\<lparr>candidate := Some b\<rparr>"
      define w4 where "w4 = set_object a ?obj4 w3"
      have "card (insert a (claims b w)) \<le> card (claims b w) + 1"
        by (simp add: card_insert_if claims_finite [OF cache_okD(1) [OF ok]])
      then have w4: "cache_ok w4"
        unfolding w4_def using at3 b(2) ba few2(1) count by (intro candidate_ok [OF w3(1) at3(1)]) (auto simp: at3(2))
      have u3: "unshared a w3"
        unfolding w3_def using u2 at2(2) by (intro unshared_set_object [of _ _ _ old]) simp_all
      have u4: "unshared a w4"
        unfolding w4_def using u3 at3(1) ba by (intro unshared_set_object [of _ _ _ ?obj2]) simp_all
      have f4: "finds w0 w4"
        using finds_new [OF finds_trans [OF f2 w3(2)] a0, of w4 ?obj4] by (simp add: w4_def set_object_def)
      have at4: "object_at w4 a = Some ?obj4" "store_state ?obj4 = LLCACHE_STATE_RAM" "object_at w4 b = object_at w3 b"
        using ba by (simp_all add: w4_def)
      obtain e w5 obj5 w2d where 5: "llcache_object_fetch env a rq w4 = Some (e, w5)" "cache_ok w5" "finds w0 w5" "unshared a w5"
          "object_at w5 a = Some obj5" "\<not> evicted obj5" "candidate obj5 = Some b" "object_at w5 b = object_at w3 b"
          "llcache_object_destroy env a w5 = Some w2d" "cache_ok w2d" "finds w0 w2d"
        using start_ok [OF w4 u4 at4(1,2) f4 a0, of env rq] at4(3) ba by auto
      have steps: "count_candidate b 1 w2 = Some w3" "set_candidate a (Some b) w3 = Some w4"
        using at2 at3 by (simp_all add: count_candidate_def set_candidate_def w3_def w4_def)
      show ?thesis
      proof (cases "e = NSERROR_OK")
        case True
        then show ?thesis
          using make Inr old1 obj1 clone \<open>error = NSERROR_OK\<close> steps 5 list_unshared(1) [OF 5(2,4)]
          by (intro returns_objectI [of _ "Inr a" "cache_object a w5"])
            (auto simp: validate_object_def w2_def [symmetric] cache_object_def llcache_object_add_to_list_def found_def)
      next
        case False
        let ?old6 = "old\<lparr>candidate_count := candidate_count old\<rparr>"
        define w6 where "w6 = set_object b ?old6 w5"
        have old5: "object_at w5 b = Some (old\<lparr>candidate_count := candidate_count old + 1\<rparr>)"
          using 5(8) at3(2) by simp
        have c6: "count_candidate b (- 1) w5 = Some w6"
          using old5 by (simp add: count_candidate_def w6_def)
        have d6: "llcache_object_destroy env a w6 = Some (set_object b ?old6 w2d)"
          using destroy_commute [of a b env ?old6 w5] ba 5(9) by (simp add: w6_def)
        have at7: "object_at w2d = (object_at w5)(a := None)" "next_address w5 = next_address w2d"
          using destroy_cases [OF 5(9)] by auto
        then have old7: "object_at w2d b = Some (old\<lparr>candidate_count := candidate_count old + 1\<rparr>)"
          using old5 ba by simp
        have "claims b w2d = claims b w5 - {a}"
          by (auto simp: claims_def at7 split: if_splits)
        moreover have "a \<in> claims b w5"
          using 5(5,7) by (simp add: claims_def)
        moreover have "card (claims b w5) \<le> unat (candidate_count old) + 1"
          using cache_okD(4) [OF 5(2) old5] count by simp
        ultimately have "card (claims b w2d) \<le> unat (candidate_count old)"
          using claims_finite [OF cache_okD(1) [OF 5(2)], of b] by simp
        moreover have "unat (candidate_count old) \<le> next_address w2d"
          using cache_okD(5) [OF 5(10) old7] count by simp
        ultimately have "cache_ok (set_object b ?old6 w2d)" "finds w2d (set_object b ?old6 w2d)"
          using count_ok [OF 5(10) old7, of "candidate_count old"] by simp_all
        then show ?thesis
          using make Inr old1 obj1 clone \<open>error = NSERROR_OK\<close> steps 5(1) c6 d6 False finds_trans [OF 5(11)]
          by (intro returns_objectI [of _ "Inl e" "set_object b ?old6 w2d"]) (simp_all add: validate_object_def w2_def [symmetric])
      qed
    qed
  qed
qed

lemma use_object_ok:
  assumes ok: "cache_ok w" and b: "b \<in> set (cached_objects w)" and "nsurl_wf url" and few: "next_address w < 2 ^ 32 - 1"
    and heap: "heap_ok w0" and w0: "finds w0 w"
  shows "returns_object w0 (use_object env url rq b w)"
proof -
  obtain old where old: "object_at w b = Some old"
    using listed_alive [OF cache_okD(1) [OF ok], of b] b by auto
  obtain e w1 where 1: "llcache_retrieve_persisted_data env b w = Some (e, w1)" "cache_ok w1" "finds w w1" "same_lists w w1"
      "if e = NSERROR_OK then \<exists>obj'. object_at w1 b = Some obj' \<and> \<not> evicted obj' else evicted old \<and> object_at w1 = object_at w"
    using retrieve_persisted_ok [OF ok old] by blast
  have f1: "finds w0 w1"
    using finds_trans [OF w0 1(3)] .
  define fresh where "fresh = llcache_object_is_fresh (cache old) (fetch_state (obj_fetch old)) (time_now env w)"
  note use = use_object_def [of env url rq b w] old 1(1)
  show ?thesis
  proof (cases "e = NSERROR_OK")
    case False
    have gone: "object_at w1 b = Some old" "evicted old" "b \<in> set (cached_objects w1)"
      using 1(4,5) False old b by (auto simp: same_lists_def)
    have "object_at w0 b = None \<or> (\<exists>obj. object_at w0 b = Some obj \<and> users obj = [] \<and> store_state obj = LLCACHE_STATE_DISC)"
    proof (cases "object_at w0 b")
      case (Some x)
      show ?thesis
      proof (rule ccontr)
        assume "\<not> ?thesis"
        then have "users x \<noteq> [] \<or> store_state x = LLCACHE_STATE_RAM"
          using Some by (cases "store_state x") auto
        then obtain y where "object_at w b = Some y" "users y = users x" "store_state y = store_state x"
          using findsE [OF w0 Some] by metis
        then show False
          using old gone(2) evicted_unclaimed(1) [OF ok old gone(2)] \<open>users x \<noteq> [] \<or> store_state x = LLCACHE_STATE_RAM\<close> by (auto simp: evicted_def)
      qed
    qed simp
    then have "returns_object w0 (fetch_again env url rq b w1)"
      by (rule fetch_again_ok [OF 1(2) gone assms(3) heap f1])
    then show ?thesis
      using use False by simp
  next
    case True
    obtain obj' where obj': "object_at w1 b = Some obj'" "\<not> evicted obj'"
      using 1(5) True by auto
    show ?thesis
    proof (cases fresh)
      case True
      have "use_object env url rq b w = Some (Inr b, w1)"
        using use \<open>e = NSERROR_OK\<close> True by (simp add: fresh_def)
      then show ?thesis
        using 1(2,4) f1 obj' b by (intro returns_objectI [of _ "Inr b" w1]) (auto simp: found_def same_lists_def)
    next
      case False
      have "returns_object w0 (validate_object env url rq b w1)"
        using few 1(4) by (intro validate_ok [OF 1(2) obj' assms(3) _ heap f1]) (simp add: same_lists_def)
      then show ?thesis
        using use \<open>e = NSERROR_OK\<close> False by (simp add: fresh_def)
    qed
  qed
qed

lemma newest_object_ok:
  assumes "\<And>a. a \<in> set list \<Longrightarrow> object_at w a \<noteq> None" and "\<And>b. newest = Some b \<Longrightarrow> object_at w b \<noteq> None \<and> b \<in> A" and "set list \<subseteq> A"
  shows "\<exists>r. newest_object url list newest w = Some r \<and> (\<forall>b. r = Some b \<longrightarrow> b \<in> A)"
  using assms
proof (induction list arbitrary: newest)
  case (Cons a list)
  obtain obj where obj: "object_at w a = Some obj"
    using Cons.prems(1) [of a] by auto
  have "\<exists>newer. (case newest of None \<Rightarrow> Some True | Some b \<Rightarrow> do { best \<leftarrow> object_at w b; Some (req_time (cache obj) > req_time (cache best)) }) = Some newer"
    using Cons.prems(2) by (cases newest) auto
  then obtain newer where newer: "(case newest of None \<Rightarrow> Some True | Some b \<Rightarrow> do { best \<leftarrow> object_at w b; Some (req_time (cache obj) > req_time (cache best)) }) = Some newer" ..
  have "\<exists>r. newest_object url list (if newer \<and> nsurl_compare (obj_url obj) url NSURL_COMPLETE then Some a else newest) w = Some r \<and> (\<forall>b. r = Some b \<longrightarrow> b \<in> A)"
    using Cons.prems obj by (intro Cons.IH) (auto split: if_splits)
  then show ?case
    by (simp only: newest_object.simps obj newer bind.bind_lunit)
qed simp

lemma fetch_persistent_ok:
  assumes ok: "cache_ok w" and unshared: "unshared a w" and obj: "object_at w a = Some (new_object url)" and "nsurl_wf url"
    and post: "req_post rq = None" and w0: "finds w0 w" "object_at w0 a = None"
  shows "\<exists>e w' obj'. llcache_object_fetch_persistent env a rq w = Some (e, w') \<and> cache_ok w' \<and> finds w0 w' \<and> same_lists w w' \<and> unshared a w' \<and>
    object_at w' a = Some obj' \<and> (e \<noteq> NSERROR_OK \<longrightarrow> store_state obj' = LLCACHE_STATE_RAM)"
proof -
  let ?url = "obj_url (new_object url)"
  have scheme: "\<exists>b. llcache__scheme_is_persistable url = Some b"
    using \<open>nsurl_wf url\<close> by (auto simp: llcache__scheme_is_persistable_def url_scheme_def nsurl_wf_def)
  then obtain b where b: "llcache__scheme_is_persistable url = Some b" ..
  show ?thesis
  proof (cases b)
    case False
    then have "llcache_object_fetch_persistent env a rq w = Some (NSERROR_NOT_FOUND, w)"
      by (simp add: llcache_object_fetch_persistent_def obj b)
    then show ?thesis
      using ok unshared obj w0 by simp
  next
    case True
    let ?obj1 = "(new_object url)\<lparr>cache := (cache (new_object url))\<lparr>req_time := time_now env w, fin_time := time_now env w\<rparr>\<rparr>"
    obtain res obj2 x m where meta: "llcache_process_metadata (env_store_fetch env) (env_store_release env)
           (env_curl_getdate env) (time_now env w) ?obj1 (outside w) (memory w) = Some (res, obj2, x, m)"
      using metadata_defined [of "time_now env w" ?obj1 "outside w" "memory w"] by fastforce
    note fields = process_metadata_fields [OF meta]
    define obj3 where "obj3 = (if res = NSERROR_OK
      then obj2\<lparr>obj_fetch := (obj_fetch obj2)\<lparr>fetch_flags := req_flags rq, fetch_referer := req_referer rq, fetch_post := None,
                      redirect_count := req_redirects rq, fetch_state := LLCACHE_FETCH_COMPLETE, fetch_fetch := None\<rparr>\<rparr> else obj2)"
    define m3 where "m3 = (if res = NSERROR_OK then ref_referer (req_referer rq) m else m)"
    define w3 where "w3 = set_object a obj3 (w\<lparr>memory := m3, outside := x\<rparr>)"
    have eq: "llcache_object_fetch_persistent env a rq w = Some (res, w3)"
      using post by (simp add: llcache_object_fetch_persistent_def obj b True meta clone_post_def obj3_def m3_def w3_def Let_def set_object_def)
    have o3: "users obj3 = []" "candidate obj3 = None" "candidate_count obj3 = 0" "res \<noteq> NSERROR_OK \<longrightarrow> store_state obj3 = LLCACHE_STATE_RAM" "sound obj3"
      using fields \<open>nsurl_wf url\<close> new_object_sound [of url]
      by (auto simp: obj3_def sound_def evicted_def readable_def read_source_def restored_def dest!: same_bodyD)
    show ?thesis
    proof -
      let ?w = "w\<lparr>memory := m3, outside := x\<rparr>"
      have "cache_ok w3"
        unfolding w3_def using ok obj o3 unshared
        by (intro set_object_ok(1) [of ?w a "new_object url" obj3]) (simp_all add: unshared_def claims_def)
      moreover have "unshared a w3"
        unfolding w3_def using unshared obj o3 by (intro unshared_set_object [of _ _ _ "new_object url"]) simp_all
      moreover have "finds w0 w3"
        using finds_new [OF w0, of w3 obj3] o3(1) by (simp add: w3_def set_object_def)
      moreover have "same_lists w w3" "object_at w3 a = Some obj3"
        by (simp_all add: w3_def)
      ultimately show ?thesis
        using eq o3(4) by blast
    qed
  qed
qed

text \<open>The whole search.\<close>

lemma retrieve_from_cache_ok:
  assumes ok: "cache_ok w" and "nsurl_wf url" and few: "next_address w < 2 ^ 32 - 2" and post: "req_post rq = None" and w0: "finds w0 w" "heap_ok w0"
  shows "returns_object w0 (llcache_object_retrieve_from_cache env url rq w)"
proof -
  obtain r where r: "newest_object url (cached_objects w) None w = Some r" "\<forall>b. r = Some b \<longrightarrow> b \<in> set (cached_objects w)"
    using newest_object_ok [of "cached_objects w" w None "set (cached_objects w)" url] listed_alive [OF cache_okD(1) [OF ok]] by auto
  note search = llcache_object_retrieve_from_cache_def [of env url rq w] r(1)
  show ?thesis
  proof (cases r)
    case (Some b)
    then have "returns_object w0 (use_object env url rq b w)"
      using r(2) few by (intro use_object_ok [OF ok _ assms(2) _ w0(2,1)]) simp_all
    then show ?thesis
      using search Some by simp
  next
    case None
    obtain r2 w1 where make: "make_object url w = (r2, w1)"
      by (rule prod.exhaust)
    show ?thesis
    proof (cases r2)
      case (Inl e)
      then obtain m where "w1 = w\<lparr>memory := m\<rparr>"
        using make make_object_fails by blast
      then show ?thesis
        using search None make Inl ok w0 by (intro returns_objectI [of _ "Inl e" w1]) simp_all
    next
      case (Inr a)
      have a: "cache_ok w1" "finds w w1" "unshared a w1" "object_at w1 a = Some (new_object url)" "next_address w1 = next_address w + 1"
        using new_object_ok [OF ok assms(2)] make Inr by auto
      have a0: "object_at w0 a = None"
        using new_is_fresh [OF w0(2,1)] make Inr by blast
      note f1 = finds_trans [OF w0(1) a(2)]
      obtain e w2 obj2 where 2: "llcache_object_fetch_persistent env a rq w1 = Some (e, w2)" "cache_ok w2" "finds w0 w2" "same_lists w1 w2"
          "unshared a w2" "object_at w2 a = Some obj2" "e \<noteq> NSERROR_OK \<longrightarrow> store_state obj2 = LLCACHE_STATE_RAM"
        using fetch_persistent_ok [OF a(1,3,4) assms(2) post f1 a0] by blast
      show ?thesis
      proof (cases "e = NSERROR_OK")
        case False
        then have "returns_object w0 (fetch_missing env a rq w2)"
          using 2(7) by (intro fetch_missing_ok [OF 2(2,5,6) _ 2(3) a0]) simp
        then show ?thesis
          using search None make Inr 2(1) False by simp
      next
        case True
        have "cache_ok (cache_object a w2)"
          using list_unshared(1) [OF 2(2,5)] by (simp add: cache_object_def llcache_object_add_to_list_def)
        moreover have "finds w0 (cache_object a w2)" "a \<in> set (cached_objects (cache_object a w2))" "next_address (cache_object a w2) < 2 ^ 32 - 1"
          using 2(3,4) a(5) few by (simp_all add: cache_object_def llcache_object_add_to_list_def same_lists_def)
        ultimately have "returns_object w0 (use_object env url rq a (cache_object a w2))"
          using use_object_ok assms(2) w0(2) by blast
        then show ?thesis
          using search None make Inr 2(1) True by simp
      qed
    qed
  qed
qed

lemma retrieve_ok:
  assumes ok: "cache_ok w" and "nsurl_wf url" and few: "next_address w < 2 ^ 32 - 2"
  shows "returns_object w (llcache_object_retrieve env url rq w)"
proof -
  obtain r m where defrag: "nsurl_defragment url (memory w) = (r, m)"
    by (rule prod.exhaust)
  show ?thesis
  proof (cases r)
    case (Inl e)
    then show ?thesis
      using defrag ok by (intro returns_objectI [of _ "Inl e" "w\<lparr>memory := m\<rparr>"]) (simp_all add: llcache_object_retrieve_def)
  next
    case (Inr d)
    let ?url = "derived_url d"
    let ?w1 = "w\<lparr>memory := hold_url d m\<rparr>"
    have url: "nsurl_wf ?url"
      using defragment_wf assms(2) defrag Inr by blast
    have w1: "cache_ok ?w1" "finds w ?w1" "next_address ?w1 = next_address w"
      using ok by simp_all
    have heap: "heap_ok w"
      using cache_okD(1) [OF ok] .
    obtain cachable where cachable: "llcache__scheme_is_cachable ?url = Some cachable"
      using url by (auto simp: llcache__scheme_is_cachable_def url_scheme_def nsurl_wf_def)
    define uncachable where "uncachable = (flag_set (req_flags rq) retrieve_force_fetch \<or> req_post rq \<noteq> None \<or> \<not> cachable)"
    have un: "(if flag_set (req_flags rq) retrieve_force_fetch \<or> req_post rq \<noteq> None then Some True
                           else map_option Not (llcache__scheme_is_cachable ?url)) = Some uncachable"
      by (auto simp: uncachable_def cachable)
    define search where "search =
      (if uncachable then
                 (case make_object ?url ?w1 of
                    (Inl e, w2) \<Rightarrow> Some (Inl e, w2)
                  | (Inr a, w2) \<Rightarrow>
                      do {
                        (error, w3) \<leftarrow> llcache_object_fetch env a rq w2;
                        if error \<noteq> NSERROR_OK then do { w4 \<leftarrow> llcache_object_destroy env a w3; Some (Inl error, w4) }
                        else Some (Inr a, w3\<lparr>uncached_objects := llcache_object_add_to_list a (uncached_objects w3)\<rparr>)
                      })
               else llcache_object_retrieve_from_cache env ?url rq ?w1)"
    have "returns_object w search"
    proof (cases uncachable)
      case False
      then show ?thesis
        using retrieve_from_cache_ok [OF w1(1) url, of rq w] few heap w1(2,3) by (simp add: search_def uncachable_def)
    next
      case True
      obtain r2 w2 where make: "make_object ?url ?w1 = (r2, w2)"
        by (rule prod.exhaust)
      show ?thesis
      proof (cases r2)
        case (Inl e)
        then obtain m2 where "w2 = ?w1\<lparr>memory := m2\<rparr>"
          using make make_object_fails by blast
        then show ?thesis
          using True make Inl ok by (intro returns_objectI [of _ "Inl e" w2]) (simp_all add: search_def)
      next
        case (Inr a)
        have a: "cache_ok w2" "finds ?w1 w2" "unshared a w2" "object_at w2 a = Some (new_object ?url)"
          using new_object_ok [OF w1(1) url] make Inr by auto
        have a0: "object_at w a = None"
          using new_is_fresh [OF heap w1(2)] make Inr by blast
        have f2: "finds w w2"
          using a(2) by simp
        obtain e w3 obj3 w4 where 3: "llcache_object_fetch env a rq w2 = Some (e, w3)" "cache_ok w3" "finds w w3" "unshared a w3"
            "object_at w3 a = Some obj3" "\<not> evicted obj3" "llcache_object_destroy env a w3 = Some w4" "cache_ok w4" "finds w w4"
          using start_ok [OF a(1,3,4) _ f2 a0, of env rq] by auto
        show ?thesis
        proof (cases "e = NSERROR_OK")
          case True
          then show ?thesis
            using \<open>uncachable\<close> make Inr 3 list_unshared(2) [OF 3(2,4)]
            by (intro returns_objectI [of _ "Inr a" "w3\<lparr>uncached_objects := a # uncached_objects w3\<rparr>"])
              (auto simp: search_def llcache_object_add_to_list_def found_def)
        next
          case False
          then show ?thesis
            using \<open>uncachable\<close> make Inr 3 by (intro returns_objectI [of _ "Inl e" w4]) (auto simp: search_def)
        qed
      qed
    qed
    then obtain r3 w5 where 5: "search = Some (r3, w5)" "cache_ok w5" "finds w w5" "\<forall>a. r3 = Inr a \<longrightarrow> found a w5"
      unfolding returns_object_def by blast
    have "llcache_object_retrieve env url rq w = Some (r3, with_memory url_handle_unref w5)"
      unfolding llcache_object_retrieve_def defrag Inr prod.case sum.case Let_def un bind.bind_lunit search_def [symmetric] 5(1) ..
    then show ?thesis
      using 5(2-4) by (intro returns_objectI [of _ r3 "with_memory url_handle_unref w5"]) simp_all
  qed
qed

end

end
