(* ===== verification/Llcache_Clients.thy ===== *)
theory Llcache_Clients
  imports Llcache_Retrieve_Inv Llcache_Notify
begin

text \<open>
  \<^verbatim>\<open>src/content/llcache.c\<close>: the whole interface for clients, \<^verbatim>\<open>llcache_handle_retrieve\<close> included. Clients may
  use all of it from their callbacks. The backing store that stores nothing,
  \<^verbatim>\<open>src/content/no_backing_store.c\<close>, fulfils what the cache relies on.
\<close>

section \<open>The backing store that stores nothing\<close>

definition null_store_initialise :: "'x \<Rightarrow> nserror \<times> 'x" where
  "null_store_initialise x = (NSERROR_OK, x)"

definition null_store_finalise :: "'x \<Rightarrow> 'x" where
  "null_store_finalise x = x"

definition null_store_store :: "nsurl \<Rightarrow> 8 word \<Rightarrow> 8 word list \<Rightarrow> 'x \<Rightarrow> nserror \<times> 'x" where
  "null_store_store url flags data x = (NSERROR_SAVE_FAILED, x)"

definition null_store_fetch :: "nsurl \<Rightarrow> 8 word \<Rightarrow> 'x \<Rightarrow> 8 word list result \<times> 'x" where
  "null_store_fetch url flags x = (Inl NSERROR_NOT_FOUND, x)"

definition null_store_invalidate :: "nsurl \<Rightarrow> 'x \<Rightarrow> nserror \<times> 'x" where
  "null_store_invalidate url x = (NSERROR_NOT_FOUND, x)"

definition null_store_release :: "nsurl \<Rightarrow> 8 word \<Rightarrow> 'x \<Rightarrow> nserror \<times> 'x" where
  "null_store_release url flags x = (NSERROR_NOT_FOUND, x)"

definition with_null_store :: "'x environment \<Rightarrow> 'x environment" where
  "with_null_store env = env\<lparr>env_store_fetch := null_store_fetch, env_store_store := null_store_store,
     env_store_release := null_store_release, env_store_invalidate := null_store_invalidate,
     env_store_initialise := null_store_initialise, env_store_finalise := null_store_finalise\<rparr>"

interpretation null_store: backing_store "with_null_store env" for env
  by unfold_locales (simp_all add: with_null_store_def null_store_fetch_def llcache_process_metadata_def)

section \<open>Retrieval by a client\<close>

lemma hsts_transform_ok:
  assumes "nsurl_wf url"
  shows "\<exists>r m. llcache_hsts_transform_url env url w = Some (r, w\<lparr>memory := m\<rparr>) \<and> (\<forall>u b. r = Inr (u, b) \<longrightarrow> nsurl_wf u)"
proof -
  obtain scheme where scheme: "url_scheme url = Some scheme"
    using assms by (auto simp: url_scheme_def nsurl_wf_def)
  obtain match m where match: "lwc_string_caseless_isequal scheme ''http'' (memory w) = (match, m)"
    by (rule prod.exhaust)
  obtain r m1 where replace: "nsurl_replace_scheme url ''https'' m = (r, m1)"
    by (rule prod.exhaust)
  show ?thesis
  proof (cases "match = Some True \<and> env_get_hsts_enabled env url (outside w)")
    case False
    then show ?thesis
      using scheme match assms by (auto simp: llcache_hsts_transform_url_def)
  next
    case True
    show ?thesis
    proof (cases r)
      case (Inl e)
      then show ?thesis
        using True scheme match replace by (auto simp: llcache_hsts_transform_url_def)
    next
      case (Inr u)
      then have "nsurl_wf u"
        using replace_scheme_wf assms replace by blast
      then show ?thesis
        using True scheme match replace Inr by (auto simp: llcache_hsts_transform_url_def)
    qed
  qed
qed

text \<open>A user that no object has is destroyed together with its handle.\<close>

lemma destroy_unattached:
  assumes heap: "heap_ok w" and u: "unattached w u" and user: "user_at w u = Some user" "\<not> iterator_target user"
  shows "\<exists>w'. llcache_object_user_destroy u w = Some w' \<and> heap_ok w' \<and> keeps_targets w w' \<and> object_at w' = object_at w"
proof -
  obtain h where h: "user_handle user = Some h" and free: "\<And>a obj. object_at w a = Some obj \<Longrightarrow> u \<notin> set (users obj)"
    using u user by (auto simp: unattached_def)
  define m where "m = free_block (free_block (memory w))"
  have eq: "llcache_object_user_destroy u w = Some (w\<lparr>memory := m, user_at := (user_at w)(u := None), handle_at := (handle_at w)(h := None)\<rparr>)"
    by (simp add: llcache_object_user_destroy_def user h Let_def with_memory_def m_def)
  let ?w = "w\<lparr>memory := m, user_at := (user_at w)(u := None), handle_at := (handle_at w)(h := None)\<rparr>"
  have users_ok: "user_ok ?w a v" if "user_ok w a v" "v \<noteq> u" for a v
    using that handle_unique [OF heap _ user(1) _ h] by (fastforce simp: user_ok_def)
  have "object_ok ?w a obj" if "object_at w a = Some obj" for a obj
    using heap_okD [OF heap that] users_ok free [OF that] by (auto simp: object_ok_def)
  moreover have "owners_ok ?w"
  proof -
    have "x = y" if "user_at ?w x = Some p" "user_at ?w y = Some q" "user_handle p = Some k" "user_handle q = Some k" for x y p q k
      using that handle_unique [OF heap, of x p y q k] by (simp split: if_splits)
    moreover have "handle_at ?w k \<noteq> None" if "user_at ?w x = Some p" "user_handle p = Some k" for x p k
      using that handle_exists [OF heap, of x p k] handle_unique [OF heap _ user(1) _ h, of x p] by (auto split: if_splits)
    moreover have "a = b" if "object_at ?w a = Some p" "object_at ?w b = Some q" "v \<in> set (users p)" "v \<in> set (users q)" for a b p q v
      using that owner_unique [OF heap, of a p b q v] by simp
    ultimately show ?thesis
      unfolding owners_ok_def by blast
  qed
  moreover have "fresh_ok ?w" "lists_ok ?w"
    using heap by (auto simp: heap_ok_def fresh_ok_def lists_ok_def)
  ultimately have "heap_ok ?w"
    by (simp add: heap_ok_def)
  moreover have "keeps_targets w ?w"
    using free user by (fastforce simp: keeps_defs intro!: exI [of _ "\<lambda>_. True"])
  ultimately show ?thesis
    using eq by simp
qed

definition in_memory :: "nat \<Rightarrow> 'x world \<Rightarrow> bool" where
  "in_memory a w \<longleftrightarrow> (\<exists>obj. object_at w a = Some obj \<and> store_state obj = LLCACHE_STATE_RAM)"

lemma keeps_objects_in_memory: "keeps_objects w w' \<Longrightarrow> in_memory a w \<Longrightarrow> in_memory a w'"
  unfolding keeps_objects_def in_memory_def by metis

lemma finds_in_memory: "finds w w' \<Longrightarrow> in_memory a w \<Longrightarrow> in_memory a w'"
  unfolding finds_def in_memory_def by metis

definition retrieve_result :: "'x world \<Rightarrow> (nat result \<times> 'x world) option \<Rightarrow> bool" where
  "retrieve_result w x \<longleftrightarrow> (\<exists>r w'. x = Some (r, w') \<and> cache_ok w' \<and> keeps_targets w w' \<and> (\<forall>a. in_memory a w \<longrightarrow> in_memory a w') \<and>
     (\<forall>h. r = Inr h \<longrightarrow> valid_handle w' h))"

context backing_store
begin

lemma handle_retrieve_ok:
  assumes ok: "cache_ok w" and url: "nsurl_wf url" and few: "next_address w < 2 ^ 32 - 4"
  shows "retrieve_result w (llcache_handle_retrieve env url flags referer post cb pw w)"
proof -
  obtain r m where hsts: "llcache_hsts_transform_url env url w = Some (r, w\<lparr>memory := m\<rparr>)" "\<forall>u b. r = Inr (u, b) \<longrightarrow> nsurl_wf u"
    using hsts_transform_ok [OF url] by blast
  let ?w1 = "w\<lparr>memory := m\<rparr>"
  have ok1: "cache_ok ?w1"
    using ok by simp
  show ?thesis
  proof (cases r)
    case (Inl e)
    then show ?thesis
      using hsts(1) ok by (simp add: llcache_handle_retrieve_def retrieve_result_def in_memory_def)
  next
    case (Inr p)
    obtain u hsts where p: "r = Inr (u, hsts)"
      using Inr by (cases p) simp
    have u: "nsurl_wf u"
      using hsts(2) p by blast
    show ?thesis
    proof (cases "env_fetch_can_fetch env u (outside ?w1)")
      case False
      then show ?thesis
        using hsts(1) p ok by (simp add: llcache_handle_retrieve_def retrieve_result_def in_memory_def with_memory_def)
    next
      case True
      obtain r2 w2 where new: "llcache_object_user_new cb pw ?w1 = (r2, w2)"
        by (rule prod.exhaust)
      note w2 = user_new_ok [OF cache_okD(1) [OF ok1] new] user_new_objects [OF new]
      have ok2: "cache_ok w2"
        using keeps_objects_cache_ok [OF ok1] w2 by blast
      have keep2: "keeps_targets w w2" "\<forall>a. in_memory a w \<longrightarrow> in_memory a w2"
        using w2 keeps_targets_trans [of w ?w1 w2] by (auto simp: in_memory_def)
      show ?thesis
      proof (cases r2)
        case (Inl e)
        then show ?thesis
          using hsts(1) p True new ok2 keep2 by (simp add: llcache_handle_retrieve_def retrieve_result_def in_memory_def with_memory_def)
      next
        case (Inr v)
        obtain h where v: "unattached w2 v" "user_at w2 v = Some \<lparr>user_handle = Some h, iterator_target = False, queued_for_delete = False\<rparr>"
          using w2(1) Inr by blast
        let ?rq = "\<lparr>req_flags = flags, req_referer = referer, req_post = post, req_redirects = 0, req_hsts = hsts\<rparr>"
        have "next_address w2 < 2 ^ 32 - 2"
          using few new by (auto simp: llcache_object_user_new_def allocate_def set_user_def set_handle_def with_memory_def split: prod.splits if_splits)
        then obtain r3 w3 where 3: "llcache_object_retrieve env u ?rq w2 = Some (r3, w3)" "cache_ok w3" "finds w2 w3" "\<forall>a. r3 = Inr a \<longrightarrow> found a w3"
          using retrieve_ok [OF ok2 u, of ?rq] unfolding returns_object_def by blast
        have v3: "unattached w3 v" "user_at w3 v = user_at w2 v"
          using finds_unattached [OF 3(3) v(1)] 3(3) by (auto simp: finds_def)
        have keep3: "keeps_targets w w3" "\<forall>a. in_memory a w \<longrightarrow> in_memory a w3"
          using keeps_targets_trans [OF keep2(1) finds_keeps_targets [OF 3(3)]] keep2(2) finds_in_memory [OF 3(3)] by blast+
        show ?thesis
        proof (cases r3)
          case (Inl e)
          obtain w4 where 4: "llcache_object_user_destroy v w3 = Some w4" "heap_ok w4" "keeps_targets w3 w4" "object_at w4 = object_at w3"
            using destroy_unattached [OF cache_okD(1) [OF 3(2)] v3(1)] v(2) v3(2) by auto
          have "cache_ok w4"
            using keeps_objects_cache_ok [OF 3(2) 4(2) user_destroy_objects [OF 4(1)]] .
          then show ?thesis
            using hsts(1) p True new Inr Inl 3(1) 4 keep3 keeps_targets_trans [OF keep3(1) 4(3)]
            by (simp add: llcache_handle_retrieve_def retrieve_result_def in_memory_def with_memory_def)
        next
          case found: (Inr a)
          then obtain obj where obj: "object_at w3 a = Some obj" "\<not> evicted obj"
            using 3(4) by (auto simp: found_def)
          have readable: "read_source 0 obj \<noteq> None"
            using cache_okD(2) [OF 3(2) obj(1)] obj(2) by (simp add: sound_def readable_def)
          obtain w4 where 4: "llcache_object_add_user a v w3 = Some w4" "heap_ok w4" "keeps_targets w3 w4" "user_at w4 = user_at w3"
              "object_at w4 = (object_at w3)(a \<mapsto> obj\<lparr>users := v # users obj\<rparr>)"
            using add_user_ok [OF cache_okD(1) [OF 3(2)] obj(1) readable v3(1)] by blast
          have objects: "keeps_objects w3 w4"
            using add_user_objects [OF 4(1)] obj by simp
          have ok4: "cache_ok w4"
            using keeps_objects_cache_ok [OF 3(2) 4(2) objects] .
          have "handle_at w4 h = Some hdl \<Longrightarrow> valid_handle w4 h" if "handle_object hdl = Some a" for hdl
            using that 4(4,5) v(2) v3(2) by (auto simp: valid_handle_def)
          moreover have "\<exists>hdl. handle_at w4 h = Some hdl \<and> handle_object hdl = Some a"
            using heap_okD(2) [OF 4(2), of a "obj\<lparr>users := v # users obj\<rparr>" v] 4(4,5) v(2) v3(2) by (auto simp: user_ok_def)
          ultimately have valid: "valid_handle w4 h"
            by blast
          have "valid_handle (with_memory url_handle_unref (llcache_users_not_caught_up w4)) h = valid_handle w4 h"
            by (simp add: valid_handle_def with_memory_def llcache_users_not_caught_up_def)
          moreover have "in_memory b (with_memory url_handle_unref (llcache_users_not_caught_up w4)) = in_memory b w4" for b
            by (simp add: in_memory_def with_memory_def llcache_users_not_caught_up_def)
          moreover have "llcache_handle_retrieve env url flags referer post cb pw w =
              Some (Inr h, with_memory url_handle_unref (llcache_users_not_caught_up w4))"
            using hsts(1) p True new Inr found 3(1) 4(1,4) v(2) v3(2) by (simp add: llcache_handle_retrieve_def)
          ultimately show ?thesis
            unfolding retrieve_result_def
            using valid ok4 keep3 keeps_objects_in_memory [OF objects] keeps_targets_trans [OF keep3(1) 4(3)] by simp
        qed
      qed
    qed
  qed
qed

end

section \<open>Clients of the whole interface\<close>

text \<open>The number of allocations is bounded so that the counts of candidates do not wrap around.\<close>

definition may_retrieve :: "nsurl \<Rightarrow> 'x world \<Rightarrow> bool" where
  "may_retrieve url w \<longleftrightarrow> nsurl_wf url \<and> next_address w < 2 ^ 32 - 4"

inductive cache_step :: "'x environment \<Rightarrow> 'x world \<Rightarrow> 'x world \<Rightarrow> bool" for env where
  handle_step: "client_step env w w' \<Longrightarrow> cache_step env w w'"
| retrieve_step: "may_retrieve url w \<Longrightarrow> llcache_handle_retrieve env url flags referer post cb pw w = Some (r, w') \<Longrightarrow> cache_step env w w'"

lemma client_step_objects: "client_step env w w' \<Longrightarrow> heap_ok w \<Longrightarrow> keeps_objects w w'"
  by (induction rule: client_step.induct)
    (simp_all add: release_objects clone_objects abort_objects force_stream_objects invalidate_objects change_callback_objects)

text \<open>The invariant, and a set of objects that have to stay in memory.\<close>

definition holds :: "nat set \<Rightarrow> 'x world \<Rightarrow> bool" where
  "holds A w \<longleftrightarrow> cache_ok w \<and> (\<forall>a \<in> A. in_memory a w)"

lemma holds_keeps: "holds A w \<Longrightarrow> heap_ok w' \<Longrightarrow> keeps_objects w w' \<Longrightarrow> holds A w'"
  using keeps_objects_cache_ok keeps_objects_in_memory unfolding holds_def by blast

lemma holds_frame [simp]:
  "holds A (w\<lparr>memory := m\<rparr>) = holds A w" "holds A (w\<lparr>outside := x\<rparr>) = holds A w" "holds A (with_memory g w) = holds A w"
  "holds A (outside_do f w) = holds A w" "holds A (llcache_users_not_caught_up w) = holds A w"
  by (simp_all add: holds_def in_memory_def with_memory_def outside_do_def) (simp add: llcache_users_not_caught_up_def)

context backing_store
begin

lemma cache_step_ok:
  assumes "cache_step env w w'" and holds: "holds A w"
  shows "holds A w' \<and> keeps_targets w w'"
  using assms(1)
proof cases
  case handle_step
  have heap: "heap_ok w"
    using holds by (simp add: holds_def cache_ok_def)
  have "heap_ok w'" "keeps_targets w w'"
    using client_step_ok [OF handle_step heap] by blast+
  then show ?thesis
    using holds_keeps [OF holds _ client_step_objects [OF handle_step heap]] by blast
next
  case (retrieve_step url flags referer post cb pw r)
  then have "retrieve_result w (Some (r, w'))"
    using handle_retrieve_ok [of w url flags referer post cb pw] holds by (simp add: may_retrieve_def holds_def)
  then show ?thesis
    using holds by (auto simp: retrieve_result_def holds_def)
qed

lemma cache_steps_ok: "(cache_step env)\<^sup>*\<^sup>* w w' \<Longrightarrow> holds A w \<Longrightarrow> holds A w' \<and> keeps_targets w w'"
proof (induction rule: rtranclp_induct)
  case (step y z)
  then show ?case
    using cache_step_ok [of y z] keeps_targets_trans [of w y z] by blast
qed simp

end

text \<open>Clients that follow a script may now retrieve objects, too.\<close>

datatype cache_call =
    On_Handle api_call
  | Retrieve nsurl "32 word" "nsurl option" "string option" nat nat

fun make_cache_call :: "'x environment \<Rightarrow> cache_call \<Rightarrow> 'x world \<Rightarrow> 'x world" where
  "make_cache_call env (On_Handle c) w = make_call env c w"
| "make_cache_call env (Retrieve url flags referer post cb pw) w =
     (if may_retrieve url w then (case llcache_handle_retrieve env url flags referer post cb pw w of None \<Rightarrow> w | Some (r, w') \<Rightarrow> w') else w)"

type_synonym 'x cache_script = "nat \<Rightarrow> nat \<Rightarrow> llcache_event \<Rightarrow> nat \<Rightarrow> 'x \<Rightarrow> nserror \<times> cache_call list \<times> 'x"

definition cache_client :: "'x environment \<Rightarrow> 'x cache_script \<Rightarrow> 'x callback" where
  "cache_client env script cb h event pw w =
     (case script cb h event pw (outside w) of (error, calls, x) \<Rightarrow> (error, fold (make_cache_call env) calls (w\<lparr>outside := x\<rparr>)))"

lemma make_cache_call_steps: "(cache_step env)\<^sup>*\<^sup>* w (make_cache_call env c w)"
proof (cases c)
  case (On_Handle call)
  then show ?thesis
    using run_call_step [of w call env] by (auto simp: make_call_def split: option.split intro: handle_step)
next
  case (Retrieve url flags referer post cb pw)
  then show ?thesis
    by (auto split: option.split intro: retrieve_step)
qed

lemma make_cache_calls_steps: "(cache_step env)\<^sup>*\<^sup>* w (fold (make_cache_call env) calls w)"
proof (induction calls arbitrary: w)
  case (Cons c calls)
  then show ?case
    using make_cache_call_steps [of env w c] rtranclp_trans by fastforce
qed simp

lemma cache_client_steps: "(cache_step env)\<^sup>*\<^sup>* w (snd (cache_client env script cb h event pw w))"
proof -
  obtain error calls x where s: "script cb h event pw (outside w) = (error, calls, x)"
    by (rule prod_cases3) blast
  have "cache_step env w (w\<lparr>memory := memory w, outside := x\<rparr>)"
    by (intro handle_step outside_step)
  then show ?thesis
    using make_cache_calls_steps [of env "w\<lparr>outside := x\<rparr>" calls] by (simp add: cache_client_def s converse_rtranclp_into_rtranclp)
qed

sublocale backing_store < store_clients: cache_clients env "cache_client env script" "holds A" for script A
proof
  fix w :: "'x world" and cb h event pw
  assume "holds A w"
  then show "holds A (snd (cache_client env script cb h event pw w)) \<and> keeps_targets w (snd (cache_client env script cb h event pw w))"
    by (rule cache_steps_ok [OF cache_client_steps])
qed (simp add: holds_def cache_ok_def, metis holds_keeps tends_def)

end
