(* ===== verification/Llcache_Retrieve_Props.thy ===== *)
theory Llcache_Retrieve_Props
  imports Llcache_Clients
begin

text \<open>
  Which object a client of the low-level cache gets for a URL, and that the whole interface, used from
  within callbacks or not, is safe.
\<close>

section \<open>Which object a client gets\<close>

definition hit :: "nsurl \<Rightarrow> 'x world \<Rightarrow> nat \<Rightarrow> bool" where
  "hit url w a \<longleftrightarrow> (\<exists>obj. object_at w a = Some obj \<and> nsurl_compare (obj_url obj) url NSURL_COMPLETE)"

definition request_time :: "'x world \<Rightarrow> nat \<Rightarrow> int" where
  "request_time w a = (case object_at w a of None \<Rightarrow> 0 | Some obj \<Rightarrow> req_time (cache obj))"

lemma newest_object_cases:
  "newest_object url list newest w = Some r \<Longrightarrow>
     (r = None \<longrightarrow> newest = None \<and> (\<forall>a \<in> set list. \<not> hit url w a)) \<and>
     (\<forall>b. r = Some b \<longrightarrow> (newest = Some b \<or> b \<in> set list \<and> hit url w b) \<and>
        (\<forall>a \<in> set list. hit url w a \<longrightarrow> request_time w a \<le> request_time w b) \<and>
        (\<forall>c. newest = Some c \<longrightarrow> request_time w c \<le> request_time w b))"
proof (induction list arbitrary: newest)
  case (Cons a list)
  from Cons.prems obtain obj newer where obj: "object_at w a = Some obj"
    and newer: "(case newest of None \<Rightarrow> Some True | Some b \<Rightarrow> do { best \<leftarrow> object_at w b; Some (req_time (cache obj) > req_time (cache best)) }) = Some newer"
    and rest: "newest_object url list (if newer \<and> nsurl_compare (obj_url obj) url NSURL_COMPLETE then Some a else newest) w = Some r"
    by (auto simp: bind_eq_Some_conv)
  have hit: "hit url w a = nsurl_compare (obj_url obj) url NSURL_COMPLETE" "request_time w a = req_time (cache obj)"
    using obj by (simp_all add: hit_def request_time_def)
  have newer': "newer \<longleftrightarrow> (\<forall>c. newest = Some c \<longrightarrow> request_time w c < request_time w a)"
    using newer hit(2) by (auto simp: request_time_def bind_eq_Some_conv split: option.splits)
  show ?case
    using Cons.IH [OF rest] newer' hit(1) by (cases newest; cases r; cases newer) (auto split: if_splits)
qed simp

definition in_hand :: "llcache_object \<Rightarrow> bool" where
  "in_hand obj \<longleftrightarrow> source_data obj \<noteq> None \<or> store_state obj \<noteq> LLCACHE_STATE_DISC"

lemma use_fresh:
  assumes "object_at w b = Some obj" and "in_hand obj" and "llcache_object_is_fresh (cache obj) (fetch_state (obj_fetch obj)) (time_now env w)"
  shows "use_object env url rq b w = Some (Inr b, w)"
  using assms by (simp add: use_object_def llcache_retrieve_persisted_data_def in_hand_def)

lemma use_stale:
  assumes "object_at w b = Some obj" and "in_hand obj" and "\<not> llcache_object_is_fresh (cache obj) (fetch_state (obj_fetch obj)) (time_now env w)"
  shows "use_object env url rq b w = validate_object env url rq b w"
  using assms by (simp add: use_object_def llcache_retrieve_persisted_data_def in_hand_def)

lemma refetch_frame:
  assumes "llcache_object_refetch env a w = Some (e, w')" and "object_at w a = Some obj"
  shows "(\<exists>cd f. object_at w' = (object_at w)(a \<mapsto> obj\<lparr>cache := cd, obj_fetch := f\<rparr>)) \<and> cached_objects w' = cached_objects w"
proof -
  have keep: "\<exists>cd f. object_at w = (object_at w)(a \<mapsto> obj\<lparr>cache := cd, obj_fetch := f\<rparr>)"
    using assms(2) by (intro exI [of _ "cache obj"] exI [of _ "obj_fetch obj"]) auto
  show ?thesis
  proof (cases "request_headers env obj (memory w)")
    case (Pair r m1)
    show ?thesis
    proof (cases r)
      case (Inl e1)
      then have w': "w' = w\<lparr>memory := m1\<rparr>"
        using assms Pair by (simp add: llcache_object_refetch_def)
      show ?thesis
        using keep by (simp add: w')
    next
      case (Inr hs)
      then show ?thesis
        using assms Pair
        by (fastforce simp: llcache_object_refetch_def llcache_invalidate_cache_control_data_def Let_def set_object_def split: prod.splits sum.splits)
    qed
  qed
qed

lemma fetch_frame:
  assumes "llcache_object_fetch env a rq w = Some (e, w')" and "object_at w a = Some obj"
  shows "(\<exists>cd f. object_at w' = (object_at w)(a \<mapsto> obj\<lparr>cache := cd, obj_fetch := f\<rparr>)) \<and> cached_objects w' = cached_objects w"
proof (cases "clone_post (req_post rq) (memory w)")
  case (Pair r m1)
  have keep: "\<exists>cd f. object_at w = (object_at w)(a \<mapsto> obj\<lparr>cache := cd, obj_fetch := f\<rparr>)"
    using assms(2) by (intro exI [of _ "cache obj"] exI [of _ "obj_fetch obj"]) auto
  show ?thesis
  proof (cases r)
    case (Inl e1)
    then have w': "w' = w\<lparr>memory := m1\<rparr>"
      using assms Pair by (simp add: llcache_object_fetch_def)
    show ?thesis
      using keep by (simp add: w')
  next
    case (Inr post)
    then show ?thesis
      using assms Pair refetch_frame [of env a _ e w']
      by (fastforce simp: llcache_object_fetch_def set_object_def)
  qed
qed

lemma validate_result:
  assumes "validate_object env url rq b w = Some (Inr a, w')" and "object_at w b = Some old" and "b < next_address w"
  shows "a = next_address w \<and> cached_objects w' = a # cached_objects w \<and> object_at w' b = Some (old\<lparr>candidate_count := candidate_count old + 1\<rparr>) \<and>
    (\<exists>obj. object_at w' a = Some obj \<and> obj_url obj = url \<and> candidate obj = Some b \<and> source_data obj = None)"
proof -
  obtain c w1 where make: "make_object url w = (Inr c, w1)"
    using assms(1) by (auto simp: validate_object_def split: prod.splits sum.splits)
  have c: "c = next_address w" "object_at w1 = (object_at w)(c \<mapsto> new_object url)" "cached_objects w1 = cached_objects w"
    using make_object_cases [OF make] by auto
  have bc: "b \<noteq> c" 
    using c(1) assms(3) by simp
  obtain error cd0 cd m where clone: "llcache_object_clone_cache_data (cache old) (cache (new_object url)) True (memory w1) = (error, cd0, cd, m)"
    by (rule prod_cases4) blast
  let ?new = "(new_object url)\<lparr>cache := cd\<rparr>"
  define w2 where "w2 = set_object c ?new (w1\<lparr>memory := m\<rparr>)"
  define old' where "old' = old\<lparr>candidate_count := candidate_count old + 1\<rparr>"
  define w4 where "w4 = set_object c (?new\<lparr>candidate := Some b\<rparr>) (set_object b old' w2)"
  have at1: "object_at w1 b = Some old" "object_at w1 c = Some (new_object url)"
    using c(2) bc assms(2) by simp_all
  have w4: "object_at w4 c = Some (?new\<lparr>candidate := Some b\<rparr>)" "object_at w4 b = Some old'" "cached_objects w4 = cached_objects w"
    using bc c(3) by (simp_all add: w4_def w2_def set_object_def)
  have steps: "count_candidate b 1 w2 = Some (set_object b old' w2)" "set_candidate c (Some b) (set_object b old' w2) = Some w4"
    using at1 bc by (simp_all add: count_candidate_def set_candidate_def w4_def w2_def old'_def)
  have ok: "error = NSERROR_OK"
    using assms(1) make at1 clone by (auto simp: validate_object_def bind_eq_Some_conv w2_def [symmetric] split: if_splits)
  obtain e w5 where fetch: "llcache_object_fetch env c rq w4 = Some (e, w5)"
    using assms(1) make at1 clone ok steps by (auto simp: validate_object_def bind_eq_Some_conv w2_def [symmetric])
  have res: "a = c" "w' = cache_object c w5"
    using assms(1) make at1 clone ok steps fetch by (auto simp: validate_object_def bind_eq_Some_conv w2_def [symmetric] split: if_splits)
  obtain cd f where "object_at w5 = (object_at w4)(c \<mapsto> ?new\<lparr>candidate := Some b, cache := cd, obj_fetch := f\<rparr>)" "cached_objects w5 = cached_objects w4"
    using fetch_frame [OF fetch w4(1)] by auto
  then show ?thesis
    using res w4 c(1) bc by (simp add: cache_object_def llcache_object_add_to_list_def old'_def)
qed


lemma retrieve_uses_newest:
  assumes ok: "cache_ok w" and hits: "\<exists>a \<in> set (cached_objects w). hit url w a"
  obtains b obj where "b \<in> set (cached_objects w)" "hit url w b" "object_at w b = Some obj"
    "\<And>a. a \<in> set (cached_objects w) \<Longrightarrow> hit url w a \<Longrightarrow> request_time w a \<le> req_time (cache obj)"
    "llcache_object_retrieve_from_cache env url rq w = use_object env url rq b w" "b < next_address w"
proof -
  have lists: "object_at w a \<noteq> None" if "a \<in> set (cached_objects w)" for a
    using cache_okD(1) [OF ok] that by (auto simp: heap_ok_def lists_ok_def)
  obtain r where r: "newest_object url (cached_objects w) None w = Some r"
    using null_store.newest_object_ok [of "cached_objects w" w None UNIV url] lists by auto
  obtain b where b: "r = Some b"
    using newest_object_cases [OF r] hits by (cases r) auto
  then obtain obj where obj: "object_at w b = Some obj"
    using newest_object_cases [OF r] by (auto simp: hit_def)
  moreover have "b < next_address w"
    using heap_okD(4) [OF cache_okD(1) [OF ok] obj] by simp
  ultimately show thesis
    using newest_object_cases [OF r] b r
    by (intro that [of b obj]) (auto simp: llcache_object_retrieve_from_cache_def request_time_def)
qed


context backing_store
begin

lemma notify_clients_ok:
  "holds A w \<Longrightarrow> targets w = {} \<Longrightarrow> object_at w a = Some obj \<Longrightarrow>
     \<exists>error w'. llcache_object_notify_users env (cache_client env script) a w = Some (error, w') \<and> holds A w' \<and> targets w' = {}"
  by (rule store_clients.notify_users_ok)

lemma send_clients_ok:
  "holds A w \<Longrightarrow> targets w = {} \<Longrightarrow> object_at w a = Some obj \<Longrightarrow>
     \<exists>error w'. llcache_send_event_to_users env (cache_client env script) a event w = Some (error, w') \<and> holds A w' \<and> targets w' = {}"
  by (rule store_clients.send_event_ok)

end



section \<open>Examples\<close>

text \<open>The example of the interface, with a store that stores nothing, is sound.\<close>

lemma example_url_wf: "nsurl_wf (obj_url example_object)"
  unfolding example_object_def by (simp add: new_object_def) (rule url_of_wf, simp)

lemma example_cache_ok: "cache_ok (example_world x)"
proof -
  have only: "object_at (example_world x) a = Some obj \<longleftrightarrow> a = 0 \<and> obj = example_object" for a obj
    by (auto simp: example_world_def)
  have obj: "\<not> evicted example_object" "readable example_object" "candidate example_object = None" "fetch_fetch (obj_fetch example_object) = None"
      "source_data example_object = Some [1, 2, 3]" "candidate_count example_object = 0"
    by (simp_all add: evicted_def readable_def read_source_def example_object_def new_object_def zero_fetch_ctx_def)
  then show ?thesis
    using example_world_ok(1) example_url_wf
    by (simp add: cache_ok_def all_sound_def sound_def candidates_ok_def used_ok_def claims_def only)
qed


definition retrieving_script :: "unit cache_script" where
  "retrieving_script cb h event pw x =
     (NSERROR_OK, if event = LLCACHE_EVENT_HAD_HEADERS \<and> h = 1 then [On_Handle (Release_Handle 3), Retrieve (obj_url example_object) 0 None None 5 6] else [], x)"


definition example_request :: request where
  "example_request = \<lparr>req_flags = 0, req_referer = None, req_post = None, req_redirects = 0, req_hsts = False\<rparr>"


section \<open>Findings\<close>

text \<open>
  The Referer header carries the whole URL, the user name, the password and the fragment included, which
  RFC 7231 5.5.2 forbids.
\<close>

lemma referer_reveals_password:
  assumes "nsurl_wf referer" and "get_referer_header True url referer m = (Inr h, m')"
  shows "h = ''Referer: '' @ url_text (url_components referer) NSURL_WITH_FRAGMENT"
  using assms by (auto simp: get_referer_header_def nsurl_access_def nsurl_wf_def split: option.splits prod.splits if_splits)

end
