(* ===== verification/Spec2Isabelle.thy ===== *)
theory Spec2Isabelle
  imports Prelude Ascii Punycode Idna Bloom Hash_Map Wapcaplet Nsurl Nsurl_Path Nsurl_Parse Nsurl_Create
    Fs_Store Fs_Blocks Fs_Names Fs_Cache Fs_Cache_Ops Fs_Cache_Props Fs_Store_Props
    Http_Primitives Http_Parameter Http_Content_Type Http_Directives
    C_Text Base64 Llcache_Object Url_Escape Ssl_Certs Llcache_Metadata Llcache_Heap Llcache_Heap_Inv Llcache_Cache_Inv Llcache_Notify Llcache_Retrieve Llcache_Retrieve_Inv
    Llcache_Clients Llcache_Retrieve_Props
begin

text \<open>
  A verification development for the neosurf web browser (C): the utilities and the URL code on
  which its caches and windows rest. Every definition is a translation of the named C
  function; sources are given relative to the root of the repository.

  \<^bold>\<open>Conventions.\<close> A C structure is a record, an enumeration a datatype, an error return
  \<open>nserror + 'a\<close>, a C string the list of its characters without the final NUL (\<open>peek\<close> reads the
  NUL at the end), a fixed-width integer that may wrap a word. Undefined behaviour that the
  code can reach (an access out of bounds, a modulus by zero) is the value \<open>None\<close>. The
  allocator is an oracle: \<open>mem\<close> carries the answers of the next allocations and a count of
  the blocks and string references that are held, so that every theorem covers every
  pattern of allocation failure and can say what is leaked.

  \<^bold>\<open>Theories.\<close>
  \<^item> \<open>Prelude\<close>: error codes, strings, the allocator oracle and the books (footprints).
  \<^item> \<open>Ascii\<close>: \<^verbatim>\<open>include/neosurf/utils/ascii.h\<close>.
  \<^item> \<open>Punycode\<close>: \<^verbatim>\<open>src/utils/punycode.c\<close>; the decoder follows the encoder (\<open>in_step\<close>). \<open>Idna\<close>:
    \<^verbatim>\<open>src/utils/idna.c\<close>, the host names that the URL parser and the display of URLs go through.
  \<^item> \<open>Bloom\<close>: \<^verbatim>\<open>src/utils/bloom.c\<close>; no false negatives, and when a search is a false positive.
  \<^item> \<open>Hash_Map\<close>: \<^verbatim>\<open>src/utils/hashmap.c\<close> with its callbacks; the interface of callbacks is a locale
    in which the map contract, the iteration and the books are proved.
  \<^item> \<open>Wapcaplet\<close>: what the URL code uses of \<^verbatim>\<open>contrib/libnsutils/src/libwapcaplet.c\<close>.
  \<^item> \<open>Nsurl\<close>: \<^verbatim>\<open>src/utils/nsurl/nsurl.c\<close> and the assembly of URL strings in \<^verbatim>\<open>parse.c\<close>; the
    specification \<open>url_text\<close> of a URL's string and the invariant \<open>nsurl_wf\<close>.
  \<^item> \<open>Nsurl_Path\<close>: dot segments, against the algorithm of RFC 3986 on segments.
  \<^item> \<open>Nsurl_Parse\<close>: \<^verbatim>\<open>src/utils/nsurl/parse.c\<close>, from the markers to \<^verbatim>\<open>nsurl_create\<close> and
    \<^verbatim>\<open>nsurl_join\<close>.
  \<^item> \<open>Nsurl_Create\<close>: the properties of parsing and joining.

  \<^item> \<open>Fs_Store\<close>: \<^verbatim>\<open>src/content/fs_backing_store.c\<close>, the disc cache, over a file system whose calls
    may fail; it interprets the callbacks of \<open>Hash_Map\<close>. \<open>Fs_Blocks\<close>: its block allocator;
    \<open>Fs_Names\<close>: its file names; \<open>Fs_Cache\<close>: its invariant; \<open>Fs_Cache_Ops\<close>: \<^verbatim>\<open>store\<close>, \<^verbatim>\<open>fetch\<close>,
    \<^verbatim>\<open>release\<close> and \<^verbatim>\<open>invalidate\<close> as whole operations; \<open>Fs_Cache_Props\<close>: the invariant is kept
    and a fetch after any history returns what was last stored; \<open>Fs_Store_Props\<close>: eviction,
    the refinement of the entry table by a map, and when a store succeeds.
  \<^item> \<open>Http_Primitives\<close>, \<open>Http_Parameter\<close>, \<open>Http_Content_Type\<close>, \<open>Http_Directives\<close>:
    \<^verbatim>\<open>src/utils/http/\<close>, the grammar of header fields: tokens, quoted strings, parameters, and
    \<^verbatim>\<open>Content-Type\<close>, \<^verbatim>\<open>Content-Disposition\<close>, \<^verbatim>\<open>Cache-Control\<close> and
    \<^verbatim>\<open>Strict-Transport-Security\<close>. The parsers are total, keep the books of references, and
    read back what a printer of the grammar writes.
  \<^item> \<open>C_Text\<close>: reading and printing of numbers and times (\<^verbatim>\<open>src/utils/time.c\<close> over models of
    \<^verbatim>\<open>strtoul\<close>, \<^verbatim>\<open>snprintf\<close> and the like).
  \<^item> \<open>Base64\<close>: \<^verbatim>\<open>contrib/libnsutils/src/base64.c\<close>; \<open>Url_Escape\<close>: \<^verbatim>\<open>src/utils/url.c\<close>;
    \<open>Ssl_Certs\<close>: \<^verbatim>\<open>src/utils/ssl_certs.c\<close>: round trips and bounds.
  \<^item> \<open>Llcache_Object\<close>: the objects of \<^verbatim>\<open>src/content/llcache.c\<close>, their headers and cache data, and
    how long they stay fresh, against RFC 2616.
  \<^item> \<open>Llcache_Metadata\<close>: how an object's metadata is written for the disc cache and read back.
  \<^item> \<open>Llcache_Heap\<close>: the memory of the low-level cache: objects, users and handles at
    addresses, so that a pointer to something freed is an access to nothing (\<open>None\<close>), with the
    operations a client may call on its handles. \<open>Llcache_Heap_Inv\<close>: the invariant
    \<open>heap_ok\<close> (who points to whom, in both directions) and that each operation keeps it.
  \<^item> \<open>Llcache_Notify\<close>: \<^verbatim>\<open>llcache_send_event_to_users\<close>, \<^verbatim>\<open>llcache_object_notify_users\<close> and
    \<^verbatim>\<open>llcache_catch_up_all_users\<close>. The clients are a callback that may, each time it is told
    something, make any calls on the handles it holds (relation \<open>client_step\<close>, locale
    \<open>cache_clients\<close>): the walk over the users follows no dangling pointer and ends, and
    brings each handle up to date.
  \<^item> \<open>Llcache_Cache_Inv\<close>: the invariant \<open>cache_ok\<close> of the whole low-level cache (data are where an
    object's state says; a candidate counts the objects that rely on it). \<open>Llcache_Retrieve\<close>: how an
    object is found for a URL, from \<^verbatim>\<open>llcache_handle_retrieve\<close> to the headers of the request, the
    backing store and the fetchers being arguments. \<open>Llcache_Retrieve_Inv\<close>: with a store that reports
    its errors (locale \<open>backing_store\<close>) all of it is defined and keeps \<open>cache_ok\<close>.
    \<open>Llcache_Clients\<close>: the store that stores nothing fulfils the locale; clients that also
    retrieve are an instance of \<open>cache_clients\<close>. \<open>Llcache_Retrieve_Props\<close>: which object is used.

  \<^bold>\<open>Not modelled\<close> is listed per part in the manifest; of \<^verbatim>\<open>llcache.c\<close> it is logging and the
  debugging output. Loops over pointers are \<open>partial_function (option)\<close>: not returning is
  \<open>None\<close>, and the properties show that a value is returned; no fuel is used.

  \<^bold>\<open>Findings\<close> are stated as lemmas beside the properties (for instance
  \<open>nsurl_create_two_colons\<close>: a URL for which the parser reads before its buffer).
\<close>

end
